(* ===== verification/Prelude.thy ===== *)
theory Prelude
  imports Main "HOL-Library.AList" "HOL-Library.Multiset"
    "HOL-Library.List_Lexorder" "HOL-Library.Char_ord"
begin

text \<open>
  Shared vocabulary of the development: Go errors as values, the state-and-error monad in
  which the store and pipeline code is written, the two loop forms the Go sources use
  (\<open>for\<close> with an early error return, and \<open>for\<close> with an accumulator), the invariant and
  success predicates with their composition rules, first-occurrence deduplication, and
  decimal rendering of integers.
\<close>

section \<open>Go errors and the state-and-error monad\<close>

text \<open>
  An error is what \<open>fmt.Errorf\<close> builds: a plain message, a failure reported by the
  database (or another remote service), or a message wrapped around another error
  (the \<open>%w\<close> verb).
\<close>

datatype error = ErrMsg string | ErrDb string | ErrWrap string error

type_synonym ('s, 'a) io = "'s \<Rightarrow> (error + 'a) \<times> 's"

definition ret :: "'a \<Rightarrow> ('s, 'a) io" where
  "ret x = (\<lambda>s. (Inr x, s))"

definition throw :: "error \<Rightarrow> ('s, 'a) io" where
  "throw e = (\<lambda>s. (Inl e, s))"

text \<open>
  Sequencing is \<open>x, err := m(); if err != nil { return err }\<close>: an error stops the
  computation, but what was already written to the state stays written.
\<close>

definition bnd :: "('s, 'a) io \<Rightarrow> ('a \<Rightarrow> ('s, 'b) io) \<Rightarrow> ('s, 'b) io" where
  "bnd m f = (\<lambda>s. case m s of (Inl e, s') \<Rightarrow> (Inl e, s') | (Inr x, s') \<Rightarrow> f x s')"

definition wrap :: "string \<Rightarrow> ('s, 'a) io \<Rightarrow> ('s, 'a) io" where
  "wrap p m = (\<lambda>s. case m s of (Inl e, s') \<Rightarrow> (Inl (ErrWrap p e), s') | (Inr x, s') \<Rightarrow> (Inr x, s'))"

text \<open>\<open>for _, x := range xs\<close> over an accumulator, returning at the first error.\<close>

fun foldE :: "('b \<Rightarrow> 'a \<Rightarrow> ('s, 'b) io) \<Rightarrow> 'b \<Rightarrow> 'a list \<Rightarrow> ('s, 'b) io" where
  "foldE f acc [] = ret acc"
| "foldE f acc (x # xs) = bnd (f acc x) (\<lambda>acc'. foldE f acc' xs)"

definition forE :: "('a \<Rightarrow> ('s, unit) io) \<Rightarrow> 'a list \<Rightarrow> ('s, unit) io" where
  "forE f xs = foldE (\<lambda>_ x. f x) () xs"

lemmas io_defs = ret_def throw_def bnd_def wrap_def

lemma bnd_assoc: "bnd (bnd m f) g = bnd m (\<lambda>x. bnd (f x) g)"
  by (auto simp: bnd_def fun_eq_iff split: prod.splits sum.splits)

lemma bnd_ret_left [simp]: "bnd (ret x) f = f x"
  by (simp add: bnd_def ret_def)

lemma bnd_ret_right [simp]: "bnd m ret = m"
  by (auto simp: bnd_def ret_def fun_eq_iff split: prod.splits sum.splits)

lemma bnd_throw [simp]: "bnd (throw e) f = throw e"
  by (simp add: bnd_def throw_def)

lemma foldE_append: "foldE f acc (xs @ ys) = bnd (foldE f acc xs) (\<lambda>a. foldE f a ys)"
  by (induction xs arbitrary: acc) (simp_all add: bnd_assoc)

lemma forE_Nil [simp]: "forE f [] = ret ()"
  by (simp add: forE_def)

lemma forE_Cons [simp]: "forE f (x # xs) = bnd (f x) (\<lambda>_. forE f xs)"
  by (simp add: forE_def)


subsection \<open>Invariants and success postconditions\<close>

text \<open>
  \<open>keeps I m\<close>: running \<open>m\<close> from a state satisfying \<open>I\<close> ends in a state satisfying
  \<open>I\<close>, whether \<open>m\<close> succeeds or fails. \<open>ensures P m Q\<close>: if \<open>m\<close>, started in \<open>P\<close>,
  succeeds with \<open>x\<close>, then \<open>Q x\<close> holds of the final state. The collection
  \<open>keep_rules\<close> holds the composition rules and what is proved of each operation, so
  that \<open>intro keep_rules\<close> follows the structure of the code.
\<close>

named_theorems keep_rules

definition keeps :: "('s \<Rightarrow> bool) \<Rightarrow> ('s, 'a) io \<Rightarrow> bool" where
  "keeps I m \<longleftrightarrow> (\<forall>s. I s \<longrightarrow> I (snd (m s)))"

definition ensures :: "('s \<Rightarrow> bool) \<Rightarrow> ('s, 'a) io \<Rightarrow> ('a \<Rightarrow> 's \<Rightarrow> bool) \<Rightarrow> bool" where
  "ensures P m Q \<longleftrightarrow> (\<forall>s x s'. P s \<longrightarrow> m s = (Inr x, s') \<longrightarrow> Q x s')"

lemma keepsI: "(\<And>s. I s \<Longrightarrow> I (snd (m s))) \<Longrightarrow> keeps I m"
  by (simp add: keeps_def)

lemma keepsD: "keeps I m \<Longrightarrow> I s \<Longrightarrow> m s = (r, s') \<Longrightarrow> I s'"
  by (metis keeps_def snd_conv)

lemma keeps_ret [keep_rules, simp]: "keeps I (ret x)"
  by (simp add: keeps_def ret_def)

lemma keeps_throw [keep_rules, simp]: "keeps I (throw e)"
  by (simp add: keeps_def throw_def)

lemma keeps_bnd [keep_rules]:
  assumes "keeps I m" and "\<And>x. keeps I (f x)"
  shows "keeps I (bnd m f)"
  using assms by (fastforce simp: keeps_def bnd_def split: prod.splits sum.splits)

lemma keeps_wrap [keep_rules]: "keeps I m \<Longrightarrow> keeps I (wrap p m)"
  by (fastforce simp: keeps_def wrap_def split: prod.splits sum.splits)

lemma keeps_if [keep_rules]: "(b \<Longrightarrow> keeps I m) \<Longrightarrow> (\<not> b \<Longrightarrow> keeps I n) \<Longrightarrow> keeps I (if b then m else n)"
  by simp

lemma keeps_case_sum [keep_rules]:
  "(\<And>e. x = Inl e \<Longrightarrow> keeps I (f e)) \<Longrightarrow> (\<And>y. x = Inr y \<Longrightarrow> keeps I (g y)) \<Longrightarrow> keeps I (case_sum f g x)"
  by (cases x) simp_all

lemma keeps_case_option [keep_rules]:
  "(x = None \<Longrightarrow> keeps I m) \<Longrightarrow> (\<And>y. x = Some y \<Longrightarrow> keeps I (f y)) \<Longrightarrow> keeps I (case_option m f x)"
  by (cases x) simp_all

lemma keeps_case_prod [keep_rules]:
  "(\<And>a b. x = (a, b) \<Longrightarrow> keeps I (f a b)) \<Longrightarrow> keeps I (case_prod f x)"
  by (cases x) simp

lemma keeps_Let [keep_rules]: "keeps I (f x) \<Longrightarrow> keeps I (Let x f)"
  by simp

lemma keeps_foldE [keep_rules]:
  assumes "\<And>a x. x \<in> set xs \<Longrightarrow> keeps I (f a x)"
  shows "keeps I (foldE f acc xs)"
  using assms by (induction xs arbitrary: acc) (auto intro!: keeps_bnd)

lemma keeps_forE [keep_rules]:
  "(\<And>x. x \<in> set xs \<Longrightarrow> keeps I (f x)) \<Longrightarrow> keeps I (forE f xs)"
  unfolding forE_def by (rule keeps_foldE)

lemma ensuresD: "ensures P m Q \<Longrightarrow> P s \<Longrightarrow> m s = (Inr x, s') \<Longrightarrow> Q x s'"
  by (simp add: ensures_def)

lemma bnd_Inr:
  "bnd m f s = (Inr y, s'') \<longleftrightarrow> (\<exists>x s'. m s = (Inr x, s') \<and> f x s' = (Inr y, s''))"
  by (auto simp: bnd_def split: prod.splits sum.splits)

lemma wrap_Inr [simp]: "wrap p m s = (Inr y, s') \<longleftrightarrow> m s = (Inr y, s')"
  by (auto simp: wrap_def split: prod.splits sum.splits)

lemma ret_Inr [simp]: "ret x s = (Inr y, s') \<longleftrightarrow> y = x \<and> s' = s"
  by (auto simp: ret_def)

lemma throw_Inr [simp]: "throw e s \<noteq> (Inr y, s')"
  by (simp add: throw_def)

lemma ensures_bnd:
  assumes "ensures P m Q" and "\<And>x. ensures (Q x) (f x) R"
  shows "ensures P (bnd m f) R"
  using assms by (fastforce simp: ensures_def bnd_Inr)

text \<open>A loop with an accumulator keeps a relation between accumulator and state.\<close>

lemma foldE_invariant:
  assumes "foldE f acc xs s = (Inr r, s')" and "I acc s"
    and "\<And>a x t b t'. x \<in> set xs \<Longrightarrow> I a t \<Longrightarrow> f a x t = (Inr b, t') \<Longrightarrow> I b t'"
  shows "I r s'"
  using assms
proof (induction xs arbitrary: acc s)
  case Nil
  then show ?case by simp
next
  case (Cons x xs)
  from Cons.prems(1) obtain a t
    where fx: "f acc x s = (Inr a, t)" and rest: "foldE f a xs t = (Inr r, s')"
    by (auto simp: bnd_Inr)
  from Cons.prems(2) fx have "I a t"
    by (rule Cons.prems(3) [rotated]) simp
  with rest show ?case
    by (rule Cons.IH) (auto intro: Cons.prems(3))
qed


text \<open>A loop whose every round adds its own contribution to a predicate and keeps a frame.\<close>

lemma forE_effect:
  assumes "forE f xs s = (Inr (), s')" and "J s"
    and step: "\<And>x t t'. x \<in> set xs \<Longrightarrow> J t \<Longrightarrow> f x t = (Inr (), t') \<Longrightarrow> J t' \<and> (P t' \<longleftrightarrow> P t \<or> Q x)"
  shows "J s' \<and> (P s' \<longleftrightarrow> P s \<or> (\<exists>x \<in> set xs. Q x))"
  using assms
proof (induction xs arbitrary: s)
  case (Cons x xs)
  obtain t where t: "f x s = (Inr (), t)" "forE f xs t = (Inr (), s')" using Cons.prems(1) by (auto simp: bnd_Inr)
  have "J t \<and> (P t \<longleftrightarrow> P s \<or> Q x)" by (rule Cons.prems(3)) (use Cons.prems(2) t(1) in simp_all)
  with Cons.IH [OF t(2)] Cons.prems(3) show ?case by auto
qed simp


section \<open>Lists and association lists\<close>

text \<open>
  The idiom \<open>if !seen[x] { seen[x] = true; out = append(out, x) }\<close>: deduplication
  that keeps the first occurrence.
\<close>

fun dedup_loop :: "'a list \<Rightarrow> 'a list \<Rightarrow> 'a list" where
  "dedup_loop out [] = out"
| "dedup_loop out (x # xs) = dedup_loop (if x \<in> set out then out else out @ [x]) xs"

lemma set_dedup_loop [simp]: "set (dedup_loop out xs) = set out \<union> set xs"
  by (induction xs arbitrary: out) auto

lemma distinct_dedup_loop: "distinct out \<Longrightarrow> distinct (dedup_loop out xs)"
  by (induction xs arbitrary: out) auto

lemma dedup_loop_prefix: "\<exists>ys. dedup_loop out xs = out @ ys \<and> set ys \<subseteq> set xs - set out"
proof (induction xs arbitrary: out)
  case Nil
  then show ?case by simp
next
  case (Cons x xs)
  obtain ys where "dedup_loop (if x \<in> set out then out else out @ [x]) xs
      = (if x \<in> set out then out else out @ [x]) @ ys"
    and "set ys \<subseteq> set xs - set (if x \<in> set out then out else out @ [x])"
    using Cons.IH by blast
  then show ?case
    by (cases "x \<in> set out") auto
qed

lemma dedup_loop_hd: "out \<noteq> [] \<Longrightarrow> hd (dedup_loop out xs) = hd out"
  using dedup_loop_prefix [of out xs] by auto

lemma dedup_loop_append: "dedup_loop out (xs @ ys) = dedup_loop (dedup_loop out xs) ys"
  by (induction xs arbitrary: out) auto

lemma dedup_loop_id: "set xs \<subseteq> set out \<Longrightarrow> dedup_loop out xs = out"
  by (induction xs arbitrary: out) auto

lemma set_map_fst_update [simp]: "fst ` set (AList.update k v al) = insert k (fst ` set al)"
  by (induction al) auto

lemma map_of_in_fst: "map_of al k = Some v \<Longrightarrow> k \<in> fst ` set al"
  by (force dest: map_of_SomeD)

lemma mset_eq_singleton: "mset xs = {#k#} \<Longrightarrow> xs = [k]"
  by (cases xs) (auto simp: single_is_union add_mset_eq_single)

lemma sort_key_of_perm:
  assumes "mset ys = mset xs" and "sorted (map f xs)" and "distinct (map f xs)"
  shows "sort_key f ys = xs"
proof (rule properties_for_sort_key)
  show "mset xs = mset ys" using assms(1) by simp
  show "sorted (map f xs)" by (rule assms(2))
  fix k
  assume "k \<in> set xs"
  have eq: "filter (\<lambda>x. f k = f x) xs = [k]"
    using assms(3) \<open>k \<in> set xs\<close>
    by (induction xs) (auto simp: filter_empty_conv image_iff)
  have "mset (filter (\<lambda>x. f k = f x) ys) = mset (filter (\<lambda>x. f k = f x) xs)"
    using assms(1) by simp
  then have "mset (filter (\<lambda>x. f k = f x) ys) = {#k#}"
    using eq by simp
  then have "filter (\<lambda>x. f k = f x) ys = [k]"
    by (rule mset_eq_singleton)
  then show "filter (\<lambda>x. f k = f x) xs = filter (\<lambda>x. f k = f x) ys"
    using eq by simp
qed


section \<open>Decimal rendering of integers\<close>

definition digit_char :: "nat \<Rightarrow> char" where
  "digit_char n = char_of (48 + n)"

function utoa :: "nat \<Rightarrow> string" where
  "utoa n = (if n < 10 then [digit_char n] else utoa (n div 10) @ [digit_char (n mod 10)])"
  by pat_completeness auto
termination
  by (relation "measure id") auto

declare utoa.simps [simp del]

text \<open>\<open>strconv.Itoa\<close>, the \<open>%d\<close> verb and \<open>(*big.Int).String\<close>.\<close>

definition itoa :: "int \<Rightarrow> string" where
  "itoa i = (if i < 0 then CHR ''-'' # utoa (nat (- i)) else utoa (nat i))"

text \<open>
  \<open>(*big.Int).SetString(s, 10)\<close>: an optional sign and at least one decimal digit, nothing else.
\<close>

definition digit_val :: "char \<Rightarrow> nat option" where
  "digit_val c = (let n = (of_char c :: nat) in if 48 \<le> n \<and> n \<le> 57 then Some (n - 48) else None)"

fun atou_loop :: "nat \<Rightarrow> string \<Rightarrow> nat option" where
  "atou_loop acc [] = Some acc"
| "atou_loop acc (c # cs) = (case digit_val c of None \<Rightarrow> None | Some d \<Rightarrow> atou_loop (acc * 10 + d) cs)"

definition atou :: "string \<Rightarrow> nat option" where
  "atou s = (if s = [] then None else atou_loop 0 s)"

fun SetString10 :: "string \<Rightarrow> int option" where
  "SetString10 [] = None"
| "SetString10 (c # cs) =
     (if c = CHR ''-'' then map_option (\<lambda>n. - int n) (atou cs)
      else if c = CHR ''+'' then map_option int (atou cs)
      else map_option int (atou (c # cs)))"

lemma digit_val_char: "n < 10 \<Longrightarrow> digit_val (digit_char n) = Some n"
  by (simp add: digit_val_def digit_char_def of_char_of)

lemma digit_char_sign: "n < 10 \<Longrightarrow> digit_char n \<noteq> CHR ''-'' \<and> digit_char n \<noteq> CHR ''+''"
  using digit_val_char [of n] by (auto simp: digit_val_def)

lemma atou_loop_append: "atou_loop acc (xs @ ys) = (case atou_loop acc xs of None \<Rightarrow> None | Some a \<Rightarrow> atou_loop a ys)"
  by (induction xs arbitrary: acc) (auto split: option.splits)

lemma utoa_nonempty: "utoa n \<noteq> []"
  by (subst utoa.simps) simp

lemma atou_loop_utoa: "atou_loop 0 (utoa n) = Some n"
proof (induction n rule: utoa.induct)
  case (1 n)
  show ?case
  proof (cases "n < 10")
    case True
    then show ?thesis by (subst utoa.simps) (simp add: digit_val_char)
  next
    case False
    then show ?thesis using 1 by (subst utoa.simps) (simp add: atou_loop_append digit_val_char)
  qed
qed

lemma atou_utoa: "atou (utoa n) = Some n"
  by (simp add: atou_def utoa_nonempty atou_loop_utoa)

lemma utoa_hd: "hd (utoa n) \<noteq> CHR ''-'' \<and> hd (utoa n) \<noteq> CHR ''+''"
proof (induction n rule: utoa.induct)
  case (1 n)
  show ?case
  proof (cases "n < 10")
    case True
    then show ?thesis by (subst (1 2) utoa.simps) (simp add: digit_char_sign)
  next
    case False
    then show ?thesis using 1 by (subst (1 2) utoa.simps) (simp add: utoa_nonempty)
  qed
qed

lemma SetString10_itoa: "SetString10 (itoa i) = Some i"
proof (cases "i < 0")
  case True
  then show ?thesis by (simp add: itoa_def atou_utoa)
next
  case False
  obtain c cs where c: "utoa (nat i) = c # cs" using utoa_nonempty by (metis neq_Nil_conv)
  with utoa_hd [of "nat i"] have "c \<noteq> CHR ''-''" "c \<noteq> CHR ''+''" by simp_all
  with c atou_utoa [of "nat i"] False show ?thesis by (simp add: itoa_def)
qed

end
