(* ===== verification/Float64.thy ===== *)
theory Float64
  imports Prelude Complex_Main "HOL-Library.Log_Nat"
begin

text \<open>
  Go's \<open>float64\<close> arithmetic. A finite float is the rational it denotes, and an operation
  is the exact rational operation followed by rounding to the nearest 53-bit significand,
  ties to even, with gradual underflow at \<open>2^-1074\<close>. The lemmas are what the clients need
  of rounding: it is monotone and fixes 0 and 1, so the unit interval is closed under the
  operations that combine confidences.

  The same rounding at another precision is \<open>math/big.Float\<close>. Infinities and NaN are not
  represented.
\<close>

section \<open>Rounding\<close>

type_synonym float64 = rat

definition round_even :: "rat \<Rightarrow> int" where
  "round_even x = (let f = \<lfloor>x\<rfloor>; r = x - of_int f in
     if r < 1 / 2 then f else if 1 / 2 < r then f + 1 else if even f then f else f + 1)"

definition pow2 :: "int \<Rightarrow> rat" where
  "pow2 e = (if 0 \<le> e then 2 ^ nat e else 1 / 2 ^ nat (- e))"

text \<open>The exponent \<open>e\<close> with \<open>2^e \<le> x < 2^(e+1)\<close>, for positive \<open>x\<close>.\<close>

definition ilog2 :: "rat \<Rightarrow> int" where
  "ilog2 x = (let (n, d) = quotient_of x; e = bitlen n - bitlen d in
     if x < pow2 e then e - 1 else e)"

definition ulp_exp :: "nat \<Rightarrow> int option \<Rightarrow> rat \<Rightarrow> int" where
  "ulp_exp p emin x = (let e = ilog2 x - (int p - 1) in
     case emin of None \<Rightarrow> e | Some m \<Rightarrow> max e m)"

definition round_pos :: "nat \<Rightarrow> int option \<Rightarrow> rat \<Rightarrow> rat" where
  "round_pos p emin x = (let u = pow2 (ulp_exp p emin x) in of_int (round_even (x / u)) * u)"

definition round_fl :: "nat \<Rightarrow> int option \<Rightarrow> rat \<Rightarrow> rat" where
  "round_fl p emin x =
     (if x = 0 then 0 else if x < 0 then - round_pos p emin (- x) else round_pos p emin x)"

definition round64 :: "rat \<Rightarrow> float64" where
  "round64 = round_fl 53 (Some (- 1074))"

definition fadd :: "float64 \<Rightarrow> float64 \<Rightarrow> float64" where
  "fadd x y = round64 (x + y)"

definition fsub :: "float64 \<Rightarrow> float64 \<Rightarrow> float64" where
  "fsub x y = round64 (x - y)"

definition fmul :: "float64 \<Rightarrow> float64 \<Rightarrow> float64" where
  "fmul x y = round64 (x * y)"

definition fdiv :: "float64 \<Rightarrow> float64 \<Rightarrow> float64" where
  "fdiv x y = round64 (x / y)"

definition float_of_int :: "int \<Rightarrow> float64" where
  "float_of_int n = round64 (of_int n)"

definition is_float64 :: "rat \<Rightarrow> bool" where
  "is_float64 x \<longleftrightarrow> round64 x = x"


section \<open>Rounding is monotone and fixes small integers\<close>

lemma round_even_of_int [simp]: "round_even (of_int n) = n"
  by (simp add: round_even_def)

lemma round_even_cases:
  "round_even x = \<lfloor>x\<rfloor> \<and> x - of_int \<lfloor>x\<rfloor> \<le> 1 / 2 \<or> round_even x = \<lfloor>x\<rfloor> + 1 \<and> 1 / 2 \<le> x - of_int \<lfloor>x\<rfloor>"
  by (auto simp: round_even_def Let_def not_less)

lemma round_even_mono:
  assumes "x \<le> y"
  shows "round_even x \<le> round_even y"
proof (cases "\<lfloor>x\<rfloor> = \<lfloor>y\<rfloor>")
  case True
  with assms show ?thesis
    by (auto simp: round_even_def Let_def)
next
  case False
  with assms have "\<lfloor>x\<rfloor> + 1 \<le> \<lfloor>y\<rfloor>"
    using floor_mono [OF assms] by simp
  then show ?thesis
    using round_even_cases [of x] round_even_cases [of y] by linarith
qed

lemma pow2_powi: "pow2 e = 2 powi e"
  by (simp add: pow2_def power_int_def inverse_eq_divide power_one_over)

lemma pow2_pos [simp]: "0 < pow2 e"
  by (simp add: pow2_def)

lemma pow2_nonzero [simp]: "pow2 e \<noteq> 0"
  by (simp add: pow2_def)

lemma pow2_add: "pow2 (a + b) = pow2 a * pow2 b"
  by (simp add: pow2_powi power_int_add)

lemma pow2_0 [simp]: "pow2 0 = 1"
  by (simp add: pow2_def)

lemma pow2_Suc: "pow2 (e + 1) = 2 * pow2 e"
  by (simp add: pow2_add) (simp add: pow2_def)

lemma pow2_mono: "a \<le> b \<Longrightarrow> pow2 a \<le> pow2 b"
  by (simp add: pow2_powi power_int_increasing)

lemma pow2_nat_int: "0 \<le> k \<Longrightarrow> pow2 k = of_int (2 ^ nat k)"
  by (simp add: pow2_def)

text \<open>A power of two that is no finer than the unit \<open>2^q\<close> is an integer multiple of it.\<close>

lemma pow2_multiple: "q \<le> k \<Longrightarrow> pow2 k / pow2 q = of_int (2 ^ nat (k - q))"
  using pow2_add [of "k - q" q] by (simp add: pow2_nat_int)

lemma bitlen_int_bounds:
  assumes "0 < n"
  shows "of_int n < pow2 (bitlen n)" and "pow2 (bitlen n - 1) \<le> of_int n"
proof -
  have b: "2 ^ nat (bitlen n - 1) \<le> n \<and> n < 2 ^ nat (bitlen n)"
    using assms by (rule bitlen_bounds)
  have pos: "0 < bitlen n"
    using assms bitlen_ge_iff_power [of 1 n] by simp
  have "(of_int n :: rat) < of_int (2 ^ nat (bitlen n))"
    using b by (simp only: of_int_less_iff)
  with pos show "of_int n < pow2 (bitlen n)"
    by (simp add: pow2_nat_int)
  have "(of_int (2 ^ nat (bitlen n - 1)) :: rat) \<le> of_int n"
    using b by (simp only: of_int_le_iff)
  with pos show "pow2 (bitlen n - 1) \<le> of_int n"
    by (simp add: pow2_nat_int)
qed

lemma ilog2_bounds:
  assumes "0 < x"
  shows "pow2 (ilog2 x) \<le> x" and "x < pow2 (ilog2 x + 1)"
proof -
  obtain n d where q: "quotient_of x = (n, d)" by (cases "quotient_of x")
  have d: "0 < d" using quotient_of_denom_pos [OF q] .
  have xe: "x = of_int n / of_int d" using quotient_of_div [OF q] .
  have n: "0 < n" using assms d by (simp add: xe zero_less_divide_iff)
  define e where "e = bitlen n - bitlen d"
  have up: "x < pow2 (e + 1)"
  proof -
    have "of_int n < pow2 (bitlen n)" using bitlen_int_bounds(1) [OF n] .
    also have "\<dots> = pow2 (e + 1) * pow2 (bitlen d - 1)"
      by (simp add: e_def flip: pow2_add)
    also have "\<dots> \<le> pow2 (e + 1) * of_int d"
      using bitlen_int_bounds(2) [OF d] by (simp add: mult_left_mono less_imp_le)
    finally show ?thesis using d by (simp add: xe divide_less_eq)
  qed
  have lo: "pow2 (e - 1) \<le> x"
  proof -
    have "pow2 (e - 1) * of_int d \<le> pow2 (e - 1) * pow2 (bitlen d)"
      using bitlen_int_bounds(1) [OF d] by (simp add: mult_left_mono less_imp_le)
    also have "\<dots> = pow2 (bitlen n - 1)"
      by (simp add: e_def flip: pow2_add)
    also have "\<dots> \<le> of_int n" using bitlen_int_bounds(2) [OF n] .
    finally show ?thesis using d by (simp add: xe le_divide_eq)
  qed
  have il: "ilog2 x = (if x < pow2 e then e - 1 else e)"
    by (simp add: ilog2_def q e_def)
  show "pow2 (ilog2 x) \<le> x" using lo by (simp add: il not_less)
  show "x < pow2 (ilog2 x + 1)" using up by (simp add: il)
qed

lemma ilog2_unique:
  assumes "pow2 e \<le> x" and "x < pow2 (e + 1)"
  shows "ilog2 x = e"
proof -
  have x: "0 < x" using assms(1) pow2_pos [of e] by linarith
  have "\<not> ilog2 x + 1 \<le> e"
    using ilog2_bounds(2) [OF x] assms(1) pow2_mono [of "ilog2 x + 1" e] by linarith
  moreover have "\<not> e + 1 \<le> ilog2 x"
    using ilog2_bounds(1) [OF x] assms(2) pow2_mono [of "e + 1" "ilog2 x"] by linarith
  ultimately show ?thesis by linarith
qed

lemma ilog2_mono:
  assumes "0 < x" and "x \<le> y"
  shows "ilog2 x \<le> ilog2 y"
proof (rule ccontr)
  assume "\<not> ilog2 x \<le> ilog2 y"
  then have "pow2 (ilog2 y + 1) \<le> pow2 (ilog2 x)" by (intro pow2_mono) simp
  also have "\<dots> \<le> x" using ilog2_bounds(1) [OF assms(1)] .
  also have "\<dots> \<le> y" by (rule assms(2))
  also have "\<dots> < pow2 (ilog2 y + 1)" using assms by (intro ilog2_bounds(2)) simp
  finally show False by simp
qed

lemma ulp_exp_mono: "0 < x \<Longrightarrow> x \<le> y \<Longrightarrow> ulp_exp p emin x \<le> ulp_exp p emin y"
  by (cases emin) (auto simp: ulp_exp_def Let_def dest!: ilog2_mono)

text \<open>Rounding never crosses a multiple of the unit in the last place.\<close>

lemma round_pos_le_grid:
  assumes "x \<le> pow2 k" and "ulp_exp p emin x \<le> k"
  shows "round_pos p emin x \<le> pow2 k"
proof -
  let ?u = "pow2 (ulp_exp p emin x)"
  have "x / ?u \<le> pow2 k / ?u" using assms(1) by (simp add: divide_right_mono less_imp_le)
  then have "round_even (x / ?u) \<le> 2 ^ nat (k - ulp_exp p emin x)"
    using round_even_mono round_even_of_int pow2_multiple [OF assms(2)] by metis
  then have "(of_int (round_even (x / ?u)) :: rat) \<le> pow2 k / ?u"
    by (simp add: pow2_multiple [OF assms(2)] flip: of_int_le_iff)
  then show ?thesis by (simp add: round_pos_def Let_def le_divide_eq)
qed

lemma round_pos_ge_grid:
  assumes "pow2 k \<le> x" and "ulp_exp p emin x \<le> k"
  shows "pow2 k \<le> round_pos p emin x"
proof -
  let ?u = "pow2 (ulp_exp p emin x)"
  have "pow2 k / ?u \<le> x / ?u" using assms(1) by (simp add: divide_right_mono less_imp_le)
  then have "2 ^ nat (k - ulp_exp p emin x) \<le> round_even (x / ?u)"
    using round_even_mono round_even_of_int pow2_multiple [OF assms(2)] by metis
  then have "pow2 k / ?u \<le> (of_int (round_even (x / ?u)) :: rat)"
    by (simp add: pow2_multiple [OF assms(2)] flip: of_int_le_iff)
  then show ?thesis by (simp add: round_pos_def Let_def divide_le_eq)
qed

lemma round_pos_nonneg: "0 \<le> x \<Longrightarrow> 0 \<le> round_pos p emin x"
  using round_even_mono [of 0 "x / pow2 (ulp_exp p emin x)"] round_even_of_int [of 0]
  by (simp add: round_pos_def Let_def less_imp_le)

lemma round_pos_mono_same:
  "x \<le> y \<Longrightarrow> ulp_exp p emin x = ulp_exp p emin y \<Longrightarrow> round_pos p emin x \<le> round_pos p emin y"
  by (simp add: round_pos_def Let_def mult_right_mono round_even_mono divide_right_mono less_imp_le)

lemma round_pos_mono:
  assumes "0 < x" and "x \<le> y" and "1 \<le> p"
  shows "round_pos p emin x \<le> round_pos p emin y"
proof (cases "ulp_exp p emin x = ulp_exp p emin y")
  case True
  then show ?thesis using assms round_pos_mono_same by blast
next
  case False
  then have lt: "ulp_exp p emin x < ulp_exp p emin y"
    using ulp_exp_mono [OF assms(1,2), of p emin] by simp
  have y: "0 < y" using assms by linarith
  have ey: "ulp_exp p emin y = ilog2 y - (int p - 1)"
    using lt by (auto simp: ulp_exp_def Let_def split: option.splits)
  have "ilog2 x < ilog2 y"
    using lt by (auto simp: ulp_exp_def Let_def split: option.splits)
  then have "x \<le> pow2 (ilog2 y)"
    using ilog2_bounds(2) [OF assms(1)] pow2_mono [of "ilog2 x + 1" "ilog2 y"] by linarith
  moreover have "ulp_exp p emin y \<le> ilog2 y" using ey assms(3) by simp
  ultimately have "round_pos p emin x \<le> pow2 (ilog2 y)" "pow2 (ilog2 y) \<le> round_pos p emin y"
    using lt round_pos_le_grid [of x "ilog2 y"] round_pos_ge_grid [of "ilog2 y" y] ilog2_bounds(1) [OF y]
    by simp_all
  then show ?thesis by linarith
qed

lemma round_fl_0 [simp]: "round_fl p emin 0 = 0"
  by (simp add: round_fl_def)

lemma round_fl_uminus: "round_fl p emin (- x) = - round_fl p emin x"
  by (auto simp: round_fl_def)

lemma round_fl_nonneg: "0 \<le> x \<Longrightarrow> 0 \<le> round_fl p emin x"
  by (auto simp: round_fl_def round_pos_nonneg)

lemma round_fl_mono:
  assumes "x \<le> y" and "1 \<le> p"
  shows "round_fl p emin x \<le> round_fl p emin y"
proof -
  consider "0 < x" | "x \<le> 0" "0 \<le> y" | "y < 0" using assms(1) by linarith
  then show ?thesis
  proof cases
    case 1
    then show ?thesis using assms round_pos_mono by (simp add: round_fl_def)
  next
    case 2
    then have "0 \<le> round_fl p emin (- x)" "0 \<le> round_fl p emin y"
      using round_fl_nonneg by auto
    then show ?thesis by (simp add: round_fl_uminus)
  next
    case 3
    then show ?thesis using assms round_pos_mono [of "- y" "- x" p emin] by (simp add: round_fl_def)
  qed
qed

lemma round64_mono: "x \<le> y \<Longrightarrow> round64 x \<le> round64 y"
  by (simp add: round64_def round_fl_mono)

lemma round64_0 [simp]: "round64 0 = 0"
  by (simp add: round64_def)

lemma round64_1 [simp]: "round64 1 = 1"
  by code_simp

lemma round64_unit: "0 \<le> x \<Longrightarrow> x \<le> 1 \<Longrightarrow> 0 \<le> round64 x \<and> round64 x \<le> 1"
  using round64_mono [of 0 x] round64_mono [of x 1] by simp

lemma fsub_unit: "0 \<le> x \<Longrightarrow> x \<le> 1 \<Longrightarrow> 0 \<le> fsub 1 x \<and> fsub 1 x \<le> 1"
  by (simp add: fsub_def round64_unit)

lemma fmul_unit: "0 \<le> x \<Longrightarrow> x \<le> 1 \<Longrightarrow> 0 \<le> y \<Longrightarrow> y \<le> 1 \<Longrightarrow> 0 \<le> fmul x y \<and> fmul x y \<le> 1"
  by (simp add: fmul_def round64_unit mult_le_one)

lemma fmul_le_left: "is_float64 x \<Longrightarrow> 0 \<le> x \<Longrightarrow> y \<le> 1 \<Longrightarrow> fmul x y \<le> x"
  using round64_mono [of "x * y" x] mult_left_mono [of y 1 x]
  by (simp add: fmul_def is_float64_def)

lemma fmul_commute: "fmul x y = fmul y x"
  by (simp add: fmul_def mult.commute)

text \<open>Integers of up to 53 bits are floats.\<close>

lemma round64_pos_int:
  assumes "0 < n" and "n < 2 ^ 53"
  shows "round64 (of_int n) = of_int n"
proof -
  let ?x = "of_int n :: rat"
  let ?u = "ulp_exp 53 (Some (- 1074)) ?x"
  have x: "0 < ?x" using assms(1) by simp
  have "\<not> 53 \<le> ilog2 ?x"
  proof
    assume "53 \<le> ilog2 ?x"
    then have "pow2 53 \<le> ?x" using pow2_mono ilog2_bounds(1) [OF x] by (meson order_trans)
    then have "(of_int (2 ^ nat 53) :: rat) \<le> of_int n" by (simp only: pow2_nat_int)
    then have "2 ^ nat 53 \<le> n" by (simp only: of_int_le_iff)
    with assms(2) show False by simp
  qed
  then have u: "?u \<le> 0" by (simp add: ulp_exp_def Let_def)
  have p: "pow2 ?u = 1 / 2 ^ nat (- ?u)" using u by (auto simp: pow2_def)
  have "?x / pow2 ?u = of_int (n * 2 ^ nat (- ?u))" unfolding p by simp
  then have "round_even (?x / pow2 ?u) = n * 2 ^ nat (- ?u)" by (simp only: round_even_of_int)
  then have "round_pos 53 (Some (- 1074)) ?x = of_int (n * 2 ^ nat (- ?u)) * pow2 ?u"
    by (simp only: round_pos_def Let_def)
  also have "\<dots> = ?x" unfolding p by simp
  finally show ?thesis using assms(1) by (simp add: round64_def round_fl_def)
qed

lemma round64_nat: "int n < 2 ^ 53 \<Longrightarrow> round64 (of_nat n) = of_nat n"
  using round64_pos_int [of "int n"] by (cases n) simp_all

lemma fadd_sum_bound:
  assumes "\<forall>x \<in> set xs. 0 \<le> f x \<and> f x \<le> 1" and "0 \<le> a" and "a \<le> of_nat k" and "int (k + length xs) < 2 ^ 53"
  shows "0 \<le> foldl (\<lambda>s x. fadd s (f x)) a xs \<and> foldl (\<lambda>s x. fadd s (f x)) a xs \<le> of_nat (k + length xs)"
  using assms
proof (induction xs arbitrary: a k)
  case (Cons x xs)
  have "round64 (a + f x) \<le> round64 (of_nat (k + 1))" using Cons.prems by (intro round64_mono) auto
  also have "\<dots> = of_nat (k + 1)" using Cons.prems(4) by (intro round64_nat) simp
  finally have "fadd a (f x) \<le> of_nat (k + 1)" by (simp add: fadd_def)
  moreover have "0 \<le> fadd a (f x)" using Cons.prems round64_mono [of 0 "a + f x"] by (simp add: fadd_def)
  ultimately show ?case using Cons.IH [of "fadd a (f x)" "k + 1"] Cons.prems by simp
qed simp

text \<open>The mean of probabilities is a probability.\<close>

lemma fmean_unit:
  assumes "\<forall>x \<in> set xs. 0 \<le> f x \<and> f x \<le> 1" and "xs \<noteq> []" and "int (length xs) < 2 ^ 53"
  shows "0 \<le> fdiv (foldl (\<lambda>s x. fadd s (f x)) 0 xs) (float_of_int (int (length xs))) \<and>
    fdiv (foldl (\<lambda>s x. fadd s (f x)) 0 xs) (float_of_int (int (length xs))) \<le> 1"
proof -
  have "float_of_int (int (length xs)) = of_nat (length xs)"
    using round64_nat [OF assms(3)] by (simp add: float_of_int_def)
  moreover have "(0 :: rat) < of_nat (length xs)" using assms(2) by simp
  ultimately show ?thesis
    using fadd_sum_bound [of xs f 0 0] assms unfolding fdiv_def
    by (intro round64_unit) (simp_all add: divide_le_eq)
qed

end
