(* ===== verification/Domain.thy ===== *)
theory Domain
  imports Float64
begin

text \<open>
  \<open>internal/domain/types.go\<close>: the record types shared by the stores and the clustering
  packages, with one field per Go field. A Go pointer is an option. Heights, operation ids
  and times are integers; amounts are the unbounded integers of \<open>math/big\<close>; confidences
  are \<open>float64\<close> values (theory \<open>Float64\<close>). Timestamps are seconds.

  The second part models what the sources use of \<open>encoding/json\<close>: decoding of a document
  into a struct with optional fields.
\<close>

section \<open>JSON documents and decoding into structs\<close>

text \<open>
  A number literal without fraction and exponent is a \<open>JInt\<close>: only such a literal decodes
  into a Go integer. A \<open>RawMessage\<close> is empty (no bytes), not a JSON document, or a
  document.
\<close>

datatype json =
    JNull
  | JBool bool
  | JInt int
  | JDec rat
  | JStr string
  | JArr "json list"
  | JObj "(string \<times> json) list"

datatype RawMessage = RawEmpty | RawBad | RawDoc json

definition lower_char :: "char \<Rightarrow> char" where
  "lower_char c = (if 65 \<le> (of_char c :: nat) \<and> (of_char c :: nat) \<le> 90
     then char_of ((of_char c :: nat) + 32) else c)"

definition ToLower :: "string \<Rightarrow> string" where
  "ToLower s = map lower_char s"

text \<open>
  Decoding one field of type \<open>*T\<close>: object members are visited in order, names match up to
  case, \<open>null\<close> resets the pointer, and a member of the wrong type makes \<open>Unmarshal\<close>
  return an error (the outer \<open>None\<close>).
\<close>

fun json_ptr :: "(json \<Rightarrow> 'a option) \<Rightarrow> string \<Rightarrow> (string \<times> json) list \<Rightarrow> 'a option \<Rightarrow> 'a option option" where
  "json_ptr dec k [] cur = Some cur"
| "json_ptr dec k ((k', v) # ms) cur =
     (if ToLower k' = ToLower k
      then (if v = JNull then json_ptr dec k ms None
            else case dec v of None \<Rightarrow> None | Some x \<Rightarrow> json_ptr dec k ms (Some x))
      else json_ptr dec k ms cur)"

text \<open>Decoding one field of a plain type: \<open>null\<close> leaves the field as it is.\<close>

fun json_val :: "(json \<Rightarrow> 'a option) \<Rightarrow> string \<Rightarrow> (string \<times> json) list \<Rightarrow> 'a \<Rightarrow> 'a option" where
  "json_val dec k [] cur = Some cur"
| "json_val dec k ((k', v) # ms) cur =
     (if ToLower k' = ToLower k
      then (if v = JNull then json_val dec k ms cur
            else case dec v of None \<Rightarrow> None | Some x \<Rightarrow> json_val dec k ms x)
      else json_val dec k ms cur)"

text \<open>The members \<open>Unmarshal\<close> visits: \<open>null\<close> at the top is accepted and sets nothing.\<close>

fun json_members :: "RawMessage \<Rightarrow> (string \<times> json) list option" where
  "json_members (RawDoc (JObj ms)) = Some ms"
| "json_members (RawDoc JNull) = Some []"
| "json_members _ = None"

definition in_int64 :: "int \<Rightarrow> bool" where
  "in_int64 n \<longleftrightarrow> - (2 ^ 63) \<le> n \<and> n < 2 ^ 63"

definition float64_range :: "rat \<Rightarrow> bool" where
  "float64_range r \<longleftrightarrow> \<bar>round64 r\<bar> < 2 ^ 1024"

fun dec_float :: "json \<Rightarrow> float64 option" where
  "dec_float (JInt n) = (if float64_range (of_int n) then Some (round64 (of_int n)) else None)"
| "dec_float (JDec r) = (if float64_range r then Some (round64 r) else None)"
| "dec_float _ = None"

fun dec_int :: "json \<Rightarrow> int option" where
  "dec_int (JInt n) = (if in_int64 n then Some n else None)"
| "dec_int _ = None"

fun dec_string :: "json \<Rightarrow> string option" where
  "dec_string (JStr s) = Some s"
| "dec_string _ = None"

fun dec_bool :: "json \<Rightarrow> bool option" where
  "dec_bool (JBool b) = Some b"
| "dec_bool _ = None"


section \<open>Domain records\<close>

definition EvidenceStatusActive :: string where
  "EvidenceStatusActive = ''active''"

definition EvidenceStatusInvalidated :: string where
  "EvidenceStatusInvalidated = ''invalidated''"

record BalanceDelta =
  bdChainID :: string
  bdTxID :: string
  bdDeltaIndex :: int
  bdAddress :: string
  bdAmount :: "int option"
  bdKind :: string
  bdBlockHeight :: int
  bdBlockHash :: string
  bdMeta :: RawMessage

record MergeCandidate =
  mcChainID :: string
  mcAddressA :: string
  mcAddressB :: string
  mcHeuristicKey :: string
  mcSourceTxID :: "string option"
  mcSourceBlockHash :: "string option"
  mcSourceBlockHeight :: "int option"
  mcConfidence :: float64

record MergeEvidence =
  meChainID :: string
  meOpID :: int
  meAddressA :: string
  meAddressB :: string
  meHeuristicKey :: string
  meSourceTxID :: "string option"
  meSourceBlockHash :: "string option"
  meSourceBlockHeight :: "int option"
  meConfidence :: float64
  meStatus :: string
  meInvalidatedReason :: "string option"
  meCreatedAt :: int
  meCreatedBy :: string

record Address =
  adChainID :: string
  adAddress :: string
  adFirstSeenHeight :: "int option"
  adLastSeenHeight :: "int option"
  adIsHub :: bool
  adHubType :: "string option"
  adHubConfidence :: "rat option"
  adDustFlag :: bool

record PreprocessingParams =
  ppHubThreshold :: float64
  ppHubDegreeSaturation :: float64
  ppDustThreshold :: int
  ppCoinjoinConfidence :: float64
  ppDustExclusionConfidence :: float64
  ppEqualOutputMin :: int
  ppCollabInputMin :: int
  ppCollabOutputMin :: int

record HeuristicConfig =
  hcEnabled :: bool
  hcConfidence :: float64
  hcParams :: RawMessage

record SweepTarget =
  stChainID :: string
  stAddress :: string
  stEntityHint :: "string option"
  stSource :: string
  stConfidence :: float64

record Label =
  lbLabelID :: int
  lbTargetType :: string
  lbChainID :: string
  lbTargetClusterID :: "string option"
  lbTargetAddress :: "string option"
  lbLabel :: string
  lbCategory :: string
  lbSource :: string
  lbSourceConfidence :: float64
  lbCollectedAt :: int
  lbLastVerifiedAt :: int
  lbStatus :: string

record Cluster =
  clChainID :: string
  clClusterID :: string
  clSize :: int
  clEntityType :: string
  clRepresentativeConfidence :: rat
  clUpdatedAt :: int

record ClusterMembership =
  cmChainID :: string
  cmAddress :: string
  cmClusterID :: string
  cmMembershipConfidence :: rat

abbreviation is_active :: "MergeEvidence \<Rightarrow> bool" where
  "is_active e \<equiv> meStatus e = EvidenceStatusActive"

end
