(* ===== verification/UnionFind.thy ===== *)
theory UnionFind
  imports Prelude
begin

text \<open>
  \<open>internal/unionfind/unionfind.go\<close>: the path-compressed, union-by-rank disjoint-set
  structure over addresses. \<open>Find\<close> recurses along parent pointers and may in principle
  run forever, so it is a partial function; the lemmas show that it returns on every
  structure the package can build. The locale \<open>union_find\<close> is the interface
  replay relies on: representatives, and what a union does to them. The lemmas inside it
  connect the structure with connectivity of the edges that were united.
\<close>

section \<open>Connectivity of a set of edges\<close>

definition conn :: "('a \<times> 'a) set \<Rightarrow> ('a \<times> 'a) set" where
  "conn E = (E \<union> E\<inverse>)\<^sup>*"

lemma conn_refl [simp]: "(x, x) \<in> conn E"
  by (simp add: conn_def)

lemma conn_sym: "(x, y) \<in> conn E \<Longrightarrow> (y, x) \<in> conn E"
  unfolding conn_def by (rule symD [OF sym_rtrancl]) (auto simp: sym_def)

lemma conn_trans [trans]: "(x, y) \<in> conn E \<Longrightarrow> (y, z) \<in> conn E \<Longrightarrow> (x, z) \<in> conn E"
  by (simp add: conn_def)

lemma conn_edge: "(x, y) \<in> E \<Longrightarrow> (x, y) \<in> conn E"
  by (auto simp: conn_def)

lemma conn_mono: "E \<subseteq> F \<Longrightarrow> conn E \<subseteq> conn F"
  unfolding conn_def by (rule rtrancl_mono) auto

lemma conn_empty [simp]: "conn {} = Id"
  by (simp add: conn_def)

lemma conn_least:
  assumes "E \<subseteq> R" and "refl R" and "sym R" and "trans R"
  shows "conn E \<subseteq> R"
proof -
  have "E \<union> E\<inverse> \<subseteq> R" using assms(1,3) by (auto dest: symD)
  then have "conn E \<subseteq> R\<^sup>*" unfolding conn_def by (rule rtrancl_mono)
  also have "R\<^sup>* = R" using assms(2,4)
    by (metis trancl_id reflcl_trancl refl_on_def UNIV_I Un_absorb2 subsetI pair_in_Id_conv prod.collapse)
  finally show ?thesis .
qed

lemma conn_subset_conn: "E \<subseteq> conn F \<Longrightarrow> conn E \<subseteq> conn F"
  by (rule conn_least) (auto simp: refl_on_def sym_def trans_def intro: conn_sym conn_trans)

lemma conn_insert_subsumed: "(a, b) \<in> conn E \<Longrightarrow> conn (insert (a, b) E) = conn E"
  by (intro subset_antisym conn_subset_conn conn_mono) (auto intro: conn_edge)

text \<open>Adding one edge joins the two components of its ends and changes nothing else.\<close>

lemma conn_insert:
  "(x, y) \<in> conn (insert (a, b) E) \<longleftrightarrow>
     (x, y) \<in> conn E \<or> (x, a) \<in> conn E \<and> (b, y) \<in> conn E \<or> (x, b) \<in> conn E \<and> (a, y) \<in> conn E"
  (is "?L \<longleftrightarrow> ?R x y")
proof
  assume ?L
  then have "(x, y) \<in> {(x, y). ?R x y}"
  proof (rule subsetD [OF conn_least, rotated -1])
    show "insert (a, b) E \<subseteq> {(x, y). ?R x y}" by (auto intro: conn_edge)
    show "refl {(x, y). ?R x y}" by (auto simp: refl_on_def)
    show "sym {(x, y). ?R x y}" by (auto simp: sym_def intro: conn_sym)
    show "trans {(x, y). ?R x y}"
      unfolding trans_def by (blast intro: conn_sym conn_trans)
  qed
  then show "?R x y" by simp
next
  have sub: "conn E \<subseteq> conn (insert (a, b) E)" by (rule conn_mono) auto
  have ab: "(a, b) \<in> conn (insert (a, b) E)" by (rule conn_edge) simp
  assume "?R x y"
  with sub ab show ?L by (meson conn_sym conn_trans subsetD)
qed


section \<open>The interface replay relies on\<close>

locale union_find =
  fixes empty :: 'd
    and find :: "'d \<Rightarrow> 'a \<Rightarrow> ('d \<times> 'a) option"
    and union :: "'d \<Rightarrow> 'a \<Rightarrow> 'a \<Rightarrow> ('d \<times> bool) option"
    and rep :: "'d \<Rightarrow> 'a \<Rightarrow> 'a"
    and invar :: "'d \<Rightarrow> bool"
  assumes invar_empty: "invar empty"
    and rep_empty: "rep empty x = x"
    and find_spec: "invar d \<Longrightarrow> \<exists>d'. find d x = Some (d', rep d x) \<and> invar d' \<and> rep d' = rep d"
    and union_spec: "invar d \<Longrightarrow> \<exists>d'. union d a b = Some (d', rep d a \<noteq> rep d b) \<and> invar d' \<and>
      (\<forall>x y. rep d' x = rep d' y \<longleftrightarrow> rep d x = rep d y \<or>
         rep d x = rep d a \<and> rep d b = rep d y \<or> rep d x = rep d b \<and> rep d a = rep d y)"
begin

text \<open>\<open>represents d E\<close>: equal representatives are exactly connectivity by \<open>E\<close>.\<close>

definition represents :: "'d \<Rightarrow> ('a \<times> 'a) set \<Rightarrow> bool" where
  "represents d E \<longleftrightarrow> invar d \<and> (\<forall>x y. rep d x = rep d y \<longleftrightarrow> (x, y) \<in> conn E)"

lemma represents_empty: "represents empty {}"
  by (auto simp: represents_def invar_empty rep_empty)

lemma represents_find:
  assumes "represents d E"
  obtains d' where "find d x = Some (d', rep d x)" and "represents d' E" and "rep d' = rep d"
  using assms find_spec [of d x] unfolding represents_def by metis

lemma represents_union:
  assumes "represents d E"
  obtains d' where "union d a b = Some (d', (a, b) \<notin> conn E)" and "represents d' (insert (a, b) E)"
proof -
  from assms have inv: "invar d" and r: "\<And>x y. rep d x = rep d y \<longleftrightarrow> (x, y) \<in> conn E"
    by (auto simp: represents_def)
  from union_spec [OF inv, of a b] obtain d'
    where u: "union d a b = Some (d', rep d a \<noteq> rep d b)" and inv': "invar d'"
      and rel: "\<And>x y. rep d' x = rep d' y \<longleftrightarrow> rep d x = rep d y \<or>
        rep d x = rep d a \<and> rep d b = rep d y \<or> rep d x = rep d b \<and> rep d a = rep d y"
    by blast
  have "represents d' (insert (a, b) E)"
    using inv' by (simp add: represents_def rel r conn_insert)
  with u show ?thesis using that by (simp add: r)
qed

text \<open>
  Keeping only the edges whose union reported a merge gives a set with the same
  connectivity: the spanning forest.
\<close>

lemma forest_step:
  assumes "represents d E" and "conn F = conn E" and "union d a b = Some (d', m)"
  shows "represents d' (insert (a, b) E)"
    and "m \<longleftrightarrow> (a, b) \<notin> conn E"
    and "conn (if m then insert (a, b) F else F) = conn (insert (a, b) E)"
proof -
  obtain d'' where "union d a b = Some (d'', (a, b) \<notin> conn E)" and rd: "represents d'' (insert (a, b) E)"
    using represents_union [OF assms(1)] by metis
  with assms(3) have [simp]: "d'' = d'" and m: "m \<longleftrightarrow> (a, b) \<notin> conn E" by auto
  show "represents d' (insert (a, b) E)" using rd by simp
  show "m \<longleftrightarrow> (a, b) \<notin> conn E" by (rule m)
  show "conn (if m then insert (a, b) F else F) = conn (insert (a, b) E)"
  proof (cases m)
    case True
    have "conn (insert (a, b) F) = conn (insert (a, b) E)"
      by (auto simp: conn_insert assms(2))
    with True show ?thesis by simp
  next
    case False
    with m have "conn (insert (a, b) E) = conn E" by (intro conn_insert_subsumed) simp
    with False assms(2) show ?thesis by simp
  qed
qed

end


section \<open>The structure\<close>

record DSU =
  parent :: "string \<rightharpoonup> string"
  rank :: "string \<rightharpoonup> nat"

definition New :: DSU where
  "New = \<lparr>parent = Map.empty, rank = Map.empty\<rparr>"

text \<open>Reading a Go map at a missing key yields the zero value.\<close>

definition rank_of :: "DSU \<Rightarrow> string \<Rightarrow> nat" where
  "rank_of d x = (case rank d x of None \<Rightarrow> 0 | Some r \<Rightarrow> r)"

partial_function (option) Find :: "DSU \<Rightarrow> string \<Rightarrow> (DSU \<times> string) option" where
  "Find d x =
     (case parent d x of
        None \<Rightarrow> Some (d\<lparr>parent := (parent d)(x \<mapsto> x), rank := (rank d)(x \<mapsto> 0)\<rparr>, x)
      | Some p \<Rightarrow>
          if p \<noteq> x
          then Option.bind (Find d p) (\<lambda>(d', r). Some (d'\<lparr>parent := (parent d')(x \<mapsto> r)\<rparr>, r))
          else Some (d, p))"

declare Find.simps [code]

definition Union :: "DSU \<Rightarrow> string \<Rightarrow> string \<Rightarrow> (DSU \<times> bool) option" where
  "Union d a b =
     Option.bind (Find d a) (\<lambda>(d1, ra).
     Option.bind (Find d1 b) (\<lambda>(d2, rb).
       if ra = rb then Some (d2, False)
       else if rank_of d2 ra < rank_of d2 rb
         then Some (d2\<lparr>parent := (parent d2)(ra \<mapsto> rb)\<rparr>, True)
       else if rank_of d2 ra = rank_of d2 rb
         then Some (d2\<lparr>rank := (rank d2)(ra \<mapsto> rank_of d2 ra + 1), parent := (parent d2)(rb \<mapsto> ra)\<rparr>, True)
       else Some (d2\<lparr>parent := (parent d2)(rb \<mapsto> ra)\<rparr>, True)))"


subsection \<open>Invariant: parents are registered and ranks grow along parent pointers\<close>

definition dsu_inv :: "DSU \<Rightarrow> bool" where
  "dsu_inv d \<longleftrightarrow> finite (dom (parent d)) \<and> dom (rank d) = dom (parent d) \<and>
     (\<forall>x p. parent d x = Some p \<longrightarrow>
        p \<in> dom (parent d) \<and> (p \<noteq> x \<longrightarrow> rank_of d x < rank_of d p))"

inductive root :: "(string \<rightharpoonup> string) \<Rightarrow> string \<Rightarrow> string \<Rightarrow> bool" for par where
  root_new: "par x = None \<Longrightarrow> root par x x"
| root_self: "par x = Some x \<Longrightarrow> root par x x"
| root_step: "par x = Some p \<Longrightarrow> p \<noteq> x \<Longrightarrow> root par p r \<Longrightarrow> root par x r"

inductive_cases rootE: "root par x r"

lemma root_unique: "root par x r \<Longrightarrow> root par x r' \<Longrightarrow> r' = r"
proof (induction arbitrary: r' rule: root.induct)
  case (root_step x p r)
  from root_step.prems root_step.hyps show ?case
    by (cases rule: root.cases) (auto intro: root_step.IH)
qed (auto elim: root.cases)

text \<open>Ranks are bounded, so following parents ends: induction along the parent chain.\<close>

lemma dsu_induct [consumes 1, case_names new self step]:
  assumes inv: "dsu_inv d"
    and "\<And>x. parent d x = None \<Longrightarrow> P x"
    and "\<And>x. parent d x = Some x \<Longrightarrow> P x"
    and "\<And>x p. parent d x = Some p \<Longrightarrow> p \<noteq> x \<Longrightarrow> P p \<Longrightarrow> P x"
  shows "P x"
proof -
  define M where "M = Suc (Max (rank_of d ` dom (parent d)))"
  have bound: "rank_of d y < M" if "y \<in> dom (parent d)" for y
    using inv that by (auto simp: M_def dsu_inv_def less_Suc_eq_le intro!: Max_ge)
  show ?thesis
  proof (induction "M - rank_of d x" arbitrary: x rule: less_induct)
    case less
    consider "parent d x = None" | "parent d x = Some x"
      | p where "parent d x = Some p" "p \<noteq> x"
      by (cases "parent d x") auto
    then show ?case
    proof cases
      case 3
      with inv have "p \<in> dom (parent d)" and "rank_of d x < rank_of d p"
        by (auto simp: dsu_inv_def)
      with bound [of p] have "M - rank_of d p < M - rank_of d x" by simp
      then have "P p" by (rule less)
      with 3 show ?thesis by (rule assms(4))
    qed (simp_all add: assms(2,3))
  qed
qed

lemma root_exists: "dsu_inv d \<Longrightarrow> \<exists>r. root (parent d) x r"
  by (induction x rule: dsu_induct) (auto intro: root.intros)

lemma root_parent: "root par x r \<Longrightarrow> par r = None \<or> par r = Some r"
  by (induction rule: root.induct) auto

lemma root_of_root: "root par x r \<Longrightarrow> root par r r"
  by (drule root_parent) (auto intro: root.intros)

lemma root_registered:
  "root (parent d) x r \<Longrightarrow> dsu_inv d \<Longrightarrow> x \<in> dom (parent d) \<Longrightarrow> parent d r = Some r"
  by (induction rule: root.induct) (auto simp: dsu_inv_def)

lemma root_rank:
  "root (parent d) x r \<Longrightarrow> dsu_inv d \<Longrightarrow> x \<noteq> r \<Longrightarrow> rank_of d x < rank_of d r"
proof (induction rule: root.induct)
  case (root_step x p r)
  then have "rank_of d x < rank_of d p" by (simp add: dsu_inv_def)
  with root_step show ?case by (cases "p = r") auto
qed auto


subsection \<open>Registering, compressing and linking\<close>

text \<open>The writes the package makes to the parent map, and what each does to the roots.\<close>

lemma register_root:
  assumes "par x = None" and "root par y r"
  shows "root (par(x \<mapsto> x)) y r"
  using assms(2)
proof (induction rule: root.induct)
  case (root_new z)
  then show ?case by (cases "z = x") (simp_all add: root.root_new root.root_self)
next
  case (root_self z)
  with assms(1) show ?case by (intro root.root_self) auto
next
  case (root_step z p r)
  with assms(1) show ?case by - (rule root.root_step [where p = p], auto)
qed

lemma compress_root:
  assumes "root par x r" and "par r = Some r" and "x \<in> dom par" and "root par y s"
  shows "root (par(x \<mapsto> r)) y s"
  using assms(4)
proof (induction rule: root.induct)
  case (root_new z)
  with assms(3) show ?case by (intro root.root_new) auto
next
  case (root_self z)
  then have "z = x \<Longrightarrow> r = z"
    using assms(1) by (metis root_unique root.root_self)
  with root_self show ?case by (intro root.root_self) auto
next
  case (root_step z p t)
  show ?case
  proof (cases "z = x")
    case True
    from root_step.hyps have "root par z t" by (rule root.root_step)
    with True assms(1) have t: "t = r" by (auto intro: root_unique)
    have "r \<noteq> x" using root_step True assms(2) by auto
    with True t assms(2) show ?thesis
      by - (rule root.root_step [where p = r], auto intro: root.root_self)
  next
    case False
    with root_step show ?thesis by - (rule root.root_step [where p = p], auto)
  qed
qed

lemma link_root:
  assumes "par b = Some b" and "par a = Some a" and "a \<noteq> b" and "root par y r"
  shows "root (par(b \<mapsto> a)) y (if r = b then a else r)"
  using assms(4)
proof (induction rule: root.induct)
  case (root_new z)
  with assms show ?case by (auto intro: root.root_new)
next
  case (root_self z)
  with assms show ?case
    by (cases "z = b") (simp_all add: root.root_self root.root_step [where p = a])
next
  case (root_step z p r)
  with assms(1) show ?case by - (rule root.root_step [where p = p], auto)
qed

lemma register_inv:
  assumes "dsu_inv d" and "parent d x = None"
  shows "dsu_inv (d\<lparr>parent := (parent d)(x \<mapsto> x), rank := (rank d)(x \<mapsto> 0)\<rparr>)"
proof -
  have "rank d x = None" using assms by (metis dsu_inv_def domIff)
  moreover have "p \<noteq> x" if "parent d z = Some p" for z p
    using assms that by (auto simp: dsu_inv_def)
  ultimately show ?thesis
    using assms unfolding dsu_inv_def rank_of_def by (auto split: if_splits)
qed

lemma compress_inv:
  assumes "dsu_inv d" and "root (parent d) x r" and "x \<in> dom (parent d)"
  shows "dsu_inv (d\<lparr>parent := (parent d)(x \<mapsto> r)\<rparr>)"
proof -
  have "parent d r = Some r" using root_registered assms by blast
  moreover have "x \<noteq> r \<Longrightarrow> rank_of d x < rank_of d r" using root_rank assms by blast
  ultimately show ?thesis
    using assms(1,3) unfolding dsu_inv_def rank_of_def by (auto split: if_splits)
qed

lemma link_inv:
  assumes "dsu_inv d" and "parent d b = Some b" and "parent d a = Some a"
    and "rank_of d b < rank_of d a"
  shows "dsu_inv (d\<lparr>parent := (parent d)(b \<mapsto> a)\<rparr>)"
  using assms unfolding dsu_inv_def rank_of_def by (auto split: if_splits)

lemma rank_of_bump: "rank_of (d\<lparr>rank := (rank d)(a \<mapsto> k)\<rparr>) x = (if x = a then k else rank_of d x)"
  by (simp add: rank_of_def)

lemma bump_inv:
  assumes "dsu_inv d" and "parent d a = Some a"
  shows "dsu_inv (d\<lparr>rank := (rank d)(a \<mapsto> rank_of d a + 1)\<rparr>)"
proof -
  have "insert a (dom (rank d)) = dom (parent d)"
    using assms by (auto simp: dsu_inv_def)
  moreover have "rank_of d x < Suc (rank_of d a)" if "parent d x = Some a" "a \<noteq> x" for x
    using assms(1) that by (auto simp: dsu_inv_def less_SucI)
  ultimately show ?thesis
    using assms unfolding dsu_inv_def rank_of_bump by simp
qed


subsection \<open>Find returns, and Find and Union act on roots as specified\<close>

lemma Find_correct:
  assumes "dsu_inv d"
  shows "\<exists>d' r. Find d x = Some (d', r) \<and> root (parent d) x r \<and> dsu_inv d' \<and>
    (\<forall>y s. root (parent d) y s \<longrightarrow> root (parent d') y s) \<and>
    dom (parent d') = insert x (dom (parent d)) \<and> rank_of d' = rank_of d"
  using assms
proof (induction x rule: dsu_induct)
  case (new x)
  have "rank d x = None" using assms new by (metis dsu_inv_def domIff)
  with new register_inv [OF assms new] show ?case
    by (subst Find.simps)
      (auto simp: register_root rank_of_def fun_eq_iff intro: root.root_new)
next
  case (self x)
  with assms show ?case
    by (subst Find.simps) (auto intro: root.root_self simp: insert_absorb)
next
  case (step x p)
  then obtain d' r where F: "Find d p = Some (d', r)" and rt: "root (parent d) p r"
    and inv': "dsu_inv d'" and mono: "\<And>y s. root (parent d) y s \<Longrightarrow> root (parent d') y s"
    and dom': "dom (parent d') = insert p (dom (parent d))" and rk: "rank_of d' = rank_of d"
    by blast
  have rx: "root (parent d) x r" using step(1,2) rt by (rule root.root_step)
  have x: "x \<in> dom (parent d')" using step(1) dom' by auto
  have pr: "parent d' r = Some r" by (rule root_registered [OF mono [OF rx] inv' x])
  let ?d = "d'\<lparr>parent := (parent d')(x \<mapsto> r)\<rparr>"
  have "Find d x = Some (?d, r)"
    using step(1,2) F by (subst Find.simps) simp
  moreover have "dsu_inv ?d" using compress_inv [OF inv' mono [OF rx] x] .
  moreover have "root (parent ?d) y s" if "root (parent d) y s" for y s
    using compress_root [OF mono [OF rx] pr x mono [OF that]] by simp
  moreover have "dom (parent ?d) = insert x (dom (parent d))"
    using assms step(1) dom' by (auto simp: dsu_inv_def)
  moreover have "rank_of ?d = rank_of d" using rk by (simp add: rank_of_def fun_eq_iff)
  ultimately show ?case using rx by blast
qed

text \<open>The representative of an address, as the client observes it through \<open>Find\<close>.\<close>

definition rep :: "DSU \<Rightarrow> string \<Rightarrow> string" where
  "rep d x = (case Find d x of None \<Rightarrow> x | Some (_, r) \<Rightarrow> r)"

lemma rep_iff_root: "dsu_inv d \<Longrightarrow> rep d x = r \<longleftrightarrow> root (parent d) x r"
  using Find_correct [of d x] by (auto simp: rep_def dest: root_unique)

lemma root_rep: "dsu_inv d \<Longrightarrow> root (parent d) x (rep d x)"
  by (simp flip: rep_iff_root)

lemma rep_eqI:
  assumes "dsu_inv d'" and "\<And>y. root (parent d') y (f y)"
  shows "rep d' = f"
  using assms by (auto simp: rep_iff_root fun_eq_iff)

lemma Find_spec:
  assumes "dsu_inv d"
  obtains d' where "Find d x = Some (d', rep d x)" and "dsu_inv d'" and "rep d' = rep d"
    and "parent d' (rep d x) = Some (rep d x)" and "dom (parent d') = insert x (dom (parent d))"
    and "rank_of d' = rank_of d"
proof -
  obtain d' r where F: "Find d x = Some (d', r)" and rt: "root (parent d) x r" and inv': "dsu_inv d'"
    and mono: "\<And>y s. root (parent d) y s \<Longrightarrow> root (parent d') y s"
    and dom': "dom (parent d') = insert x (dom (parent d))" and rk: "rank_of d' = rank_of d"
    using Find_correct [OF assms] by blast
  have [simp]: "rep d x = r" using F by (simp add: rep_def)
  show ?thesis
  proof (rule that)
    show "Find d x = Some (d', rep d x)" using F by simp
    show "rep d' = rep d" using inv' mono root_rep [OF assms] by (intro rep_eqI) auto
    show "parent d' (rep d x) = Some (rep d x)"
      using root_registered [OF mono [OF rt] inv'] dom' by simp
  qed (use inv' dom' rk in auto)
qed

lemma rep_link:
  assumes "dsu_inv d" and "parent d b = Some b" and "parent d a = Some a" and "a \<noteq> b"
    and "dsu_inv d'" and "parent d' = (parent d)(b \<mapsto> a)"
  shows "rep d' = (\<lambda>y. if rep d y = b then a else rep d y)"
  using assms link_root [OF assms(2,3,4) root_rep [OF assms(1)]] by (intro rep_eqI) auto

lemma Union_spec:
  assumes "dsu_inv d"
  shows "\<exists>d'. Union d a b = Some (d', rep d a \<noteq> rep d b) \<and> dsu_inv d' \<and>
    dom (parent d') = insert a (insert b (dom (parent d))) \<and>
    (rep d a = rep d b \<and> rep d' = rep d \<or>
     rep d a \<noteq> rep d b \<and>
       (\<exists>u v. {u, v} = {rep d a, rep d b} \<and> rep d' = (\<lambda>y. if rep d y = v then u else rep d y)))"
proof -
  obtain d1 where F1: "Find d a = Some (d1, rep d a)" and i1: "dsu_inv d1" and r1: "rep d1 = rep d"
    and pa: "parent d1 (rep d a) = Some (rep d a)" and dm1: "dom (parent d1) = insert a (dom (parent d))"
    using Find_spec [OF assms] by metis
  obtain d2 where F2: "Find d1 b = Some (d2, rep d b)" and i2: "dsu_inv d2" and r2: "rep d2 = rep d"
    and pb: "parent d2 (rep d b) = Some (rep d b)" and dm2: "dom (parent d2) = insert b (dom (parent d1))"
    using Find_spec [OF i1, of b] r1 by metis
  have pa2: "parent d2 (rep d a) = Some (rep d a)"
  proof (rule root_registered [OF _ i2])
    have "rep d (rep d a) = rep d a"
      using root_of_root [OF root_rep [OF assms]] assms by (simp add: rep_iff_root)
    then show "root (parent d2) (rep d a) (rep d a)" using i2 r2 by (simp flip: rep_iff_root)
    show "rep d a \<in> dom (parent d2)" using pa dm2 by auto
  qed
  let ?ra = "rep d a" and ?rb = "rep d b"
  let ?bump = "d2\<lparr>rank := (rank d2)(?ra \<mapsto> rank_of d2 ?ra + 1)\<rparr>"
  have U: "Union d a b = (if ?ra = ?rb then Some (d2, False)
      else if rank_of d2 ?ra < rank_of d2 ?rb then Some (d2\<lparr>parent := (parent d2)(?ra \<mapsto> ?rb)\<rparr>, True)
      else if rank_of d2 ?ra = rank_of d2 ?rb
        then Some (?bump\<lparr>parent := (parent ?bump)(?rb \<mapsto> ?ra)\<rparr>, True)
      else Some (d2\<lparr>parent := (parent d2)(?rb \<mapsto> ?ra)\<rparr>, True))"
    by (simp add: Union_def F1 F2)
  have dm: "dom (parent d2) = insert a (insert b (dom (parent d)))" using dm1 dm2 by auto
  have dml: "dom ((parent d2)(?ra \<mapsto> ?rb)) = dom (parent d2)"
    "dom ((parent d2)(?rb \<mapsto> ?ra)) = dom (parent d2)"
    using pa2 pb by (auto simp: insert_absorb)
  consider "?ra = ?rb" | "?ra \<noteq> ?rb" "rank_of d2 ?ra < rank_of d2 ?rb"
    | "?ra \<noteq> ?rb" "rank_of d2 ?ra = rank_of d2 ?rb" | "?ra \<noteq> ?rb" "rank_of d2 ?rb < rank_of d2 ?ra"
    by linarith
  then show ?thesis
  proof cases
    case 1
    with U i2 r2 dm show ?thesis by auto
  next
    case 2
    let ?d = "d2\<lparr>parent := (parent d2)(?ra \<mapsto> ?rb)\<rparr>"
    have i3: "dsu_inv ?d" by (rule link_inv [OF i2 pa2 pb 2(2)])
    have "rep ?d = (\<lambda>y. if rep d y = ?ra then ?rb else rep d y)"
      using rep_link [OF i2 pa2 pb _ i3] 2 unfolding r2 by simp
    with 2 i3 show ?thesis
      by (intro exI [of _ ?d] conjI disjI2 exI [of _ ?rb] exI [of _ ?ra]) (simp_all add: U dml(1) dm insert_commute del: dom_fun_upd)
  next
    case 3
    have ib: "dsu_inv ?bump" by (rule bump_inv [OF i2 pa2])
    let ?d = "?bump\<lparr>parent := (parent ?bump)(?rb \<mapsto> ?ra)\<rparr>"
    have i3: "dsu_inv ?d"
      using pa2 pb 3 by (intro link_inv [OF ib]) (auto simp: rank_of_bump)
    have "rep ?d = (\<lambda>y. if rep d y = ?rb then ?ra else rep d y)"
      using rep_link [OF i2 pb pa2 _ i3] 3 unfolding r2 by simp
    with 3 i3 show ?thesis
      by (intro exI [of _ ?d] conjI disjI2 exI [of _ ?ra] exI [of _ ?rb]) (simp_all add: U dml(2) dm insert_commute del: dom_fun_upd)
  next
    case 4
    let ?d = "d2\<lparr>parent := (parent d2)(?rb \<mapsto> ?ra)\<rparr>"
    have i3: "dsu_inv ?d" by (rule link_inv [OF i2 pb pa2 4(2)])
    have "rep ?d = (\<lambda>y. if rep d y = ?rb then ?ra else rep d y)"
      using rep_link [OF i2 pb pa2 _ i3] 4 unfolding r2 by simp
    with 4 i3 show ?thesis
      by (intro exI [of _ ?d] conjI disjI2 exI [of _ ?ra] exI [of _ ?rb]) (simp_all add: U dml(2) dm insert_commute del: dom_fun_upd)
  qed
qed

lemma dsu_inv_New: "dsu_inv New"
  by (simp add: dsu_inv_def New_def)

lemma rep_New: "rep New x = x"
  by (simp add: rep_def New_def Find.simps)

lemma Union_rel:
  assumes "dsu_inv d"
  shows "\<exists>d'. Union d a b = Some (d', rep d a \<noteq> rep d b) \<and> dsu_inv d' \<and>
    (\<forall>x y. rep d' x = rep d' y \<longleftrightarrow> rep d x = rep d y \<or>
       rep d x = rep d a \<and> rep d b = rep d y \<or> rep d x = rep d b \<and> rep d a = rep d y)"
  using Union_spec [OF assms, of a b] by (auto simp: doubleton_eq_iff)

interpretation dsu: union_find New Find Union rep dsu_inv
proof unfold_locales
  fix d x
  assume "dsu_inv d"
  then show "\<exists>d'. Find d x = Some (d', rep d x) \<and> dsu_inv d' \<and> rep d' = rep d"
    using Find_spec by metis
qed (simp_all add: dsu_inv_New rep_New Union_rel)


section \<open>Sequences of operations\<close>

datatype dsu_op = OpFind string | OpUnion string string

fun run_ops :: "dsu_op list \<Rightarrow> DSU \<Rightarrow> DSU option" where
  "run_ops [] d = Some d"
| "run_ops (OpFind x # ops) d = Option.bind (Find d x) (\<lambda>(d', _). run_ops ops d')"
| "run_ops (OpUnion a b # ops) d = Option.bind (Union d a b) (\<lambda>(d', _). run_ops ops d')"

fun united :: "dsu_op list \<Rightarrow> (string \<times> string) set" where
  "united [] = {}"
| "united (OpFind x # ops) = united ops"
| "united (OpUnion a b # ops) = insert (a, b) (united ops)"

lemma run_ops_represents:
  "dsu.represents d E \<Longrightarrow> \<exists>d'. run_ops ops d = Some d' \<and> dsu.represents d' (E \<union> united ops)"
proof (induction ops arbitrary: d E rule: united.induct)
  case (2 x ops)
  obtain d' where "Find d x = Some (d', rep d x)" "dsu.represents d' E" by (rule dsu.represents_find [OF 2(2), of x])
  with 2(1) [of d' E] show ?case by simp
next
  case (3 a b ops)
  obtain d' where "Union d a b = Some (d', (a, b) \<notin> conn E)" "dsu.represents d' (insert (a, b) E)" by (rule dsu.represents_union [OF 3(2), of a b])
  with 3(1) [of d' "insert (a, b) E"] show ?case by simp
qed simp

text \<open>
  C20: the disjoint-set structure always answers, and correctly. \<open>Find\<close> follows parent pointers without a bound, yet every sequence of \<open>Find\<close> and
  \<open>Union\<close> on a new structure returns, so does \<open>Find\<close> on every address afterwards, and two addresses have the same representative
  exactly when the unions connect them, despite path compression and union by rank.
\<close>

theorem union_find_answers:
  "\<exists>d. run_ops ops New = Some d \<and> (\<forall>x. \<exists>d'. Find d x = Some (d', rep d x)) \<and>
     (\<forall>x y. rep d x = rep d y \<longleftrightarrow> (x, y) \<in> conn (united ops))"
proof -
  obtain d where "run_ops ops New = Some d" "dsu.represents d (united ops)"
    using run_ops_represents [OF dsu.represents_empty, of ops] by auto
  moreover from this(2) have "dsu_inv d" by (simp add: dsu.represents_def)
  then have "\<exists>d'. Find d x = Some (d', rep d x)" for x using dsu.find_spec [of d x] by blast
  ultimately show ?thesis by (auto simp: dsu.represents_def)
qed

end
