(* ===== verification/Replay.thy ===== *)
theory Replay
  imports Domain UnionFind Sha256
begin

text \<open>
  \<open>internal/cluster/replay.go\<close>: the replay of merge evidence into clusters. The function
  is translated loop by loop. Go iterates over a map in an unspecified order that changes
  from run to run; each \<open>range\<close> over a map is therefore taken in the order chosen by a
  \<open>range_order\<close>, of which nothing is known but that it is a permutation
  (\<open>any_order\<close>). A map that is iterated is an association list in insertion order, one that
  is only read and written is a function.
\<close>

section \<open>Data\<close>

record Member =
  mAddress :: string
  mConfidence :: float64

record Result =
  rClusterID :: string
  rAnchorAddress :: string
  rSize :: int
  rRepresentativeConfidence :: float64
  rMembers :: "Member list"

type_synonym pairKey = "string \<times> string"

definition normalizePair :: "string \<Rightarrow> string \<Rightarrow> pairKey" where
  "normalizePair a b = (if a \<le> b then (a, b) else (b, a))"

record pairEvidence =
  peFirstOrder :: nat
  peBySource :: "(string \<times> float64) list"

record combinedEdge =
  ceKey :: pairKey
  ceConfidence :: float64
  ceFirstOrder :: nat

type_synonym adjacency = "string \<Rightarrow> (string \<times> float64) list"

record range_order =
  roPairs :: "(pairKey \<times> pairEvidence) list \<Rightarrow> (pairKey \<times> pairEvidence) list"
  roSources :: "(string \<times> float64) list \<Rightarrow> (string \<times> float64) list"
  roAddrs :: "string list \<Rightarrow> string list"
  roComps :: "(string \<times> string list) list \<Rightarrow> (string \<times> string list) list"

definition any_order :: "range_order \<Rightarrow> bool" where
  "any_order ro \<longleftrightarrow> (\<forall>l. mset (roPairs ro l) = mset l) \<and> (\<forall>l. mset (roSources ro l) = mset l) \<and>
     (\<forall>l. mset (roAddrs ro l) = mset l) \<and> (\<forall>l. mset (roComps ro l) = mset l)"

definition insertion_order :: range_order where
  "insertion_order = \<lparr>roPairs = (\<lambda>l. l), roSources = (\<lambda>l. l), roAddrs = (\<lambda>l. l), roComps = (\<lambda>l. l)\<rparr>"

definition reverse_order :: range_order where
  "reverse_order = \<lparr>roPairs = rev, roSources = rev, roAddrs = rev, roComps = rev\<rparr>"


section \<open>The function\<close>

definition deriveClusterID :: "string \<Rightarrow> string" where
  "deriveClusterID anchor = EncodeToString (take 16 (Sum256 (map of_char anchor)))"

definition sourceKey :: "MergeEvidence \<Rightarrow> string" where
  "sourceKey e = (case meSourceTxID e of Some txid \<Rightarrow> txid | None \<Rightarrow> ''op:'' @ itoa (meOpID e))"

definition noisyOR :: "(string \<times> float64) list \<Rightarrow> float64" where
  "noisyOR bySource = fsub 1 (foldl (\<lambda>product sc. fmul product (fsub 1 (snd sc))) 1 bySource)"

subsection \<open>Pass over the evidence\<close>

record scan_state =
  firstSeenOrder :: "(string \<times> nat) list"
  nextOrder :: nat
  pairs :: "(pairKey \<times> pairEvidence) list"
  streamIndex :: nat

definition scan_init :: scan_state where
  "scan_init = \<lparr>firstSeenOrder = [], nextOrder = 0, pairs = [], streamIndex = 0\<rparr>"

definition touch :: "string \<Rightarrow> scan_state \<Rightarrow> scan_state" where
  "touch addr st =
     (case map_of (firstSeenOrder st) addr of
        None \<Rightarrow> st\<lparr>firstSeenOrder := firstSeenOrder st @ [(addr, nextOrder st)], nextOrder := nextOrder st + 1\<rparr>
      | Some _ \<Rightarrow> st)"

definition add_source :: "string \<Rightarrow> float64 \<Rightarrow> (string \<times> float64) list \<Rightarrow> (string \<times> float64) list" where
  "add_source source c bySource =
     (case map_of bySource source of
        None \<Rightarrow> AList.update source c bySource
      | Some cur \<Rightarrow> if cur < c then AList.update source c bySource else bySource)"

definition skipped :: "MergeEvidence \<Rightarrow> bool" where
  "skipped e \<longleftrightarrow> meStatus e \<noteq> EvidenceStatusActive \<or> meAddressA e = meAddressB e"

definition scan_step :: "scan_state \<Rightarrow> MergeEvidence \<Rightarrow> scan_state" where
  "scan_step st e =
     (if meStatus e \<noteq> EvidenceStatusActive then st
      else if meAddressA e = meAddressB e then st
      else
        let st1 = touch (meAddressB e) (touch (meAddressA e) st);
            key = normalizePair (meAddressA e) (meAddressB e);
            pe = (case map_of (pairs st1) key of
                    None \<Rightarrow> \<lparr>peFirstOrder = streamIndex st1, peBySource = []\<rparr>
                  | Some pe \<Rightarrow> pe);
            pe' = pe\<lparr>peBySource := add_source (sourceKey e) (meConfidence e) (peBySource pe)\<rparr>
        in st1\<lparr>pairs := AList.update key pe' (pairs st1), streamIndex := streamIndex st1 + 1\<rparr>)"

definition scan_evidence :: "MergeEvidence list \<Rightarrow> scan_state" where
  "scan_evidence evidence = foldl scan_step scan_init evidence"

subsection \<open>Edges, union, spanning forest\<close>

definition combine_edge :: "range_order \<Rightarrow> pairKey \<times> pairEvidence \<Rightarrow> combinedEdge" where
  "combine_edge ro kp =
     \<lparr>ceKey = fst kp, ceConfidence = noisyOR (roSources ro (peBySource (snd kp))),
      ceFirstOrder = peFirstOrder (snd kp)\<rparr>"

definition combined_edges :: "range_order \<Rightarrow> (pairKey \<times> pairEvidence) list \<Rightarrow> combinedEdge list" where
  "combined_edges ro ps = sort_key ceFirstOrder (map (combine_edge ro) (roPairs ro ps))"

definition add_edge :: "combinedEdge \<Rightarrow> adjacency \<Rightarrow> adjacency" where
  "add_edge ce adj =
     (let (a, b) = ceKey ce; c = ceConfidence ce; adj1 = adj(a := adj a @ [(b, c)])
      in adj1(b := adj1 b @ [(a, c)]))"

fun union_edges :: "combinedEdge list \<Rightarrow> DSU \<Rightarrow> adjacency \<Rightarrow> (DSU \<times> adjacency) option" where
  "union_edges [] dsu adj = Some (dsu, adj)"
| "union_edges (ce # ces) dsu adj =
     Option.bind (Union dsu (fst (ceKey ce)) (snd (ceKey ce)))
       (\<lambda>(dsu', merged). union_edges ces dsu' (if merged then add_edge ce adj else adj))"

subsection \<open>Components\<close>

definition lookup_list :: "(string \<times> string list) list \<Rightarrow> string \<Rightarrow> string list" where
  "lookup_list m k = (case map_of m k of None \<Rightarrow> [] | Some l \<Rightarrow> l)"

fun component_members ::
  "string list \<Rightarrow> DSU \<Rightarrow> (string \<times> string list) list \<Rightarrow> (string \<times> string list) list option" where
  "component_members [] dsu comps = Some comps"
| "component_members (addr # addrs) dsu comps =
     Option.bind (Find dsu addr)
       (\<lambda>(dsu', root). component_members addrs dsu' (AList.update root (lookup_list comps root @ [addr]) comps))"

definition first_seen :: "(string \<times> nat) list \<Rightarrow> string \<Rightarrow> nat" where
  "first_seen fso a = (case map_of fso a of None \<Rightarrow> 0 | Some n \<Rightarrow> n)"

definition pick_anchor :: "(string \<times> nat) list \<Rightarrow> string list \<Rightarrow> string" where
  "pick_anchor fso addrs =
     foldl (\<lambda>anchor a. if first_seen fso a < first_seen fso anchor then a else anchor) (hd addrs) (tl addrs)"

subsection \<open>Breadth-first confidence propagation\<close>

record bfs_state =
  bfsConfidence :: "string \<rightharpoonup> float64"
  bfsVisited :: "string \<Rightarrow> bool"
  bfsQueue :: "string list"

definition conf_at :: "(string \<rightharpoonup> float64) \<Rightarrow> string \<Rightarrow> float64" where
  "conf_at confidence a = (case confidence a of None \<Rightarrow> 0 | Some c \<Rightarrow> c)"

definition visit_edge :: "string \<Rightarrow> bfs_state \<Rightarrow> string \<times> float64 \<Rightarrow> bfs_state" where
  "visit_edge cur st e =
     (if bfsVisited st (fst e) then st
      else let c = conf_at (bfsConfidence st) cur;
               c' = (if snd e < c then snd e else c)
           in \<lparr>bfsConfidence = (bfsConfidence st)(fst e \<mapsto> c'),
               bfsVisited = (bfsVisited st)(fst e := True),
               bfsQueue = bfsQueue st @ [fst e]\<rparr>)"

partial_function (option) bfs :: "adjacency \<Rightarrow> bfs_state \<Rightarrow> (string \<rightharpoonup> float64) option" where
  "bfs adj st =
     (case bfsQueue st of
        [] \<Rightarrow> Some (bfsConfidence st)
      | cur # queue \<Rightarrow> bfs adj (foldl (visit_edge cur) (st\<lparr>bfsQueue := queue\<rparr>) (adj cur)))"

declare bfs.simps [code]

definition bfs_init :: "string \<Rightarrow> bfs_state" where
  "bfs_init anchor =
     \<lparr>bfsConfidence = [anchor \<mapsto> 1], bfsVisited = (\<lambda>_. False)(anchor := True), bfsQueue = [anchor]\<rparr>"

subsection \<open>Results\<close>

definition build_result :: "(string \<times> nat) list \<Rightarrow> adjacency \<Rightarrow> string list \<Rightarrow> Result option" where
  "build_result fso adj addrs =
     (let anchor = pick_anchor fso addrs in
      Option.bind (bfs adj (bfs_init anchor)) (\<lambda>confidence.
        let members = map (\<lambda>a. \<lparr>mAddress = a, mConfidence = conf_at confidence a\<rparr>) addrs;
            confidenceSum = foldl (\<lambda>s a. fadd s (conf_at confidence a)) 0 addrs
        in Some \<lparr>rClusterID = deriveClusterID anchor, rAnchorAddress = anchor,
             rSize = int (length addrs),
             rRepresentativeConfidence = fdiv confidenceSum (float_of_int (int (length addrs))),
             rMembers = members\<rparr>))"

fun build_results :: "(string \<times> nat) list \<Rightarrow> adjacency \<Rightarrow> string list list \<Rightarrow> Result list option" where
  "build_results fso adj [] = Some []"
| "build_results fso adj (addrs # rest) =
     Option.bind (build_result fso adj addrs) (\<lambda>r.
     Option.bind (build_results fso adj rest) (\<lambda>rs. Some (r # rs)))"

definition Replay :: "range_order \<Rightarrow> MergeEvidence list \<Rightarrow> Result list option" where
  "Replay ro evidence =
     (let st = scan_evidence evidence in
      Option.bind (union_edges (combined_edges ro (pairs st)) New (\<lambda>_. [])) (\<lambda>(dsu, adj).
      Option.bind (component_members (roAddrs ro (map fst (firstSeenOrder st))) dsu []) (\<lambda>comps.
        build_results (firstSeenOrder st) adj (map snd (roComps ro comps)))))"


section \<open>What the pass over the evidence collects\<close>

definition evidence_edges :: "MergeEvidence list \<Rightarrow> (string \<times> string) set" where
  "evidence_edges ev = {(meAddressA e, meAddressB e) | e. e \<in> set ev \<and> \<not> skipped e}"

definition ends :: "MergeEvidence \<Rightarrow> string list" where
  "ends e = (if skipped e then [] else [meAddressA e, meAddressB e])"

definition evidence_addresses :: "MergeEvidence list \<Rightarrow> string list" where
  "evidence_addresses ev = dedup_loop [] (concat (map ends ev))"

definition unit_conf :: "MergeEvidence list \<Rightarrow> bool" where
  "unit_conf ev \<longleftrightarrow> (\<forall>e \<in> set ev. 0 \<le> meConfidence e \<and> meConfidence e \<le> 1)"

lemma scan_step_skipped: "skipped e \<Longrightarrow> scan_step st e = st"
  by (auto simp: scan_step_def skipped_def)

lemma scan_snoc: "scan_evidence (ev @ [e]) = scan_step (scan_evidence ev) e"
  by (simp add: scan_evidence_def)

lemma scan_filter: "scan_evidence (filter (\<lambda>e. \<not> skipped e) ev) = scan_evidence ev"
  by (induction ev rule: rev_induct) (simp_all add: scan_snoc scan_step_skipped)

lemma touch_pairs [simp]:
  "pairs (touch a st) = pairs st" "streamIndex (touch a st) = streamIndex st"
  by (simp_all add: touch_def split: option.splits)

text \<open>\<open>firstSeenOrder\<close> lists the addresses by first appearance, numbered from 0.\<close>

definition numbered :: "scan_state \<Rightarrow> string list \<Rightarrow> bool" where
  "numbered st as \<longleftrightarrow> distinct as \<and> firstSeenOrder st = zip as [0..<length as] \<and> nextOrder st = length as"

lemma numbered_touch:
  assumes "numbered st as"
  shows "numbered (touch a st) (if a \<in> set as then as else as @ [a])"
proof -
  have dom: "fst ` set (firstSeenOrder st) = set as"
    using assms by (simp add: numbered_def flip: set_map)
  show ?thesis
  proof (cases "a \<in> set as")
    case True
    with dom obtain n where "map_of (firstSeenOrder st) a = Some n"
      by (metis dom_map_of_conv_image_fst domD)
    with True assms show ?thesis by (simp add: touch_def)
  next
    case False
    with dom have "map_of (firstSeenOrder st) a = None" by (simp add: map_of_eq_None_iff)
    then have "touch a st = st\<lparr>firstSeenOrder := firstSeenOrder st @ [(a, nextOrder st)], nextOrder := nextOrder st + 1\<rparr>"
      by (simp add: touch_def)
    with False assms show ?thesis by (simp add: numbered_def)
  qed
qed

lemma touch_streamIndex_upd:
  "numbered (st\<lparr>pairs := p, streamIndex := n\<rparr>) as \<longleftrightarrow> numbered st as"
  by (simp add: numbered_def)

lemma scan_step_active:
  assumes "\<not> skipped e"
  obtains p where "scan_step st e =
    (touch (meAddressB e) (touch (meAddressA e) st))\<lparr>pairs := p, streamIndex := streamIndex st + 1\<rparr>"
  using assms that by (simp add: scan_step_def skipped_def Let_def)

lemma evidence_addresses_snoc:
  "evidence_addresses (ev @ [e]) = (if skipped e then evidence_addresses ev else
     let as = (if meAddressA e \<in> set (evidence_addresses ev) then evidence_addresses ev
               else evidence_addresses ev @ [meAddressA e])
     in if meAddressB e \<in> set as then as else as @ [meAddressB e])"
  by (simp add: evidence_addresses_def ends_def dedup_loop_append Let_def del: set_dedup_loop)

lemma numbered_scan: "numbered (scan_evidence ev) (evidence_addresses ev)"
proof (induction ev rule: rev_induct)
  case Nil
  show ?case by (simp add: numbered_def evidence_addresses_def scan_evidence_def scan_init_def)
next
  case (snoc e ev)
  show ?case
  proof (cases "skipped e")
    case True
    with snoc show ?thesis by (simp add: scan_snoc scan_step_skipped evidence_addresses_def ends_def)
  next
    case False
    then obtain p where "scan_evidence (ev @ [e]) =
        (touch (meAddressB e) (touch (meAddressA e) (scan_evidence ev)))
          \<lparr>pairs := p, streamIndex := streamIndex (scan_evidence ev) + 1\<rparr>"
      using scan_step_active scan_snoc by metis
    moreover have "numbered (touch (meAddressB e) (touch (meAddressA e) (scan_evidence ev)))
        (evidence_addresses (ev @ [e]))"
      using numbered_touch [OF numbered_touch [OF snoc]] by (simp only: evidence_addresses_snoc False if_False Let_def)
    ultimately show ?thesis by (simp only: touch_streamIndex_upd)
  qed
qed

lemma firstSeen_fst: "map fst (firstSeenOrder (scan_evidence ev)) = evidence_addresses ev"
  using numbered_scan [of ev] by (simp add: numbered_def)

lemma distinct_evidence_addresses: "distinct (evidence_addresses ev)"
  using numbered_scan [of ev] by (simp add: numbered_def)

lemma first_seen_nth:
  assumes "i < length (evidence_addresses ev)"
  shows "first_seen (firstSeenOrder (scan_evidence ev)) (evidence_addresses ev ! i) = i"
proof -
  have "map_of (zip (evidence_addresses ev) [0..<length (evidence_addresses ev)]) (evidence_addresses ev ! i) = Some i"
    using assms distinct_evidence_addresses by (simp add: map_of_zip_nth)
  then show ?thesis using numbered_scan [of ev] by (simp add: first_seen_def numbered_def)
qed

lemma set_evidence_addresses: "set (evidence_addresses ev) = Field (evidence_edges ev)"
  by (auto simp: evidence_addresses_def evidence_edges_def ends_def Field_def split: if_splits)

text \<open>\<open>pairs\<close>: one entry per unordered pair, numbered in order of first appearance.\<close>

definition pairs_ok :: "scan_state \<Rightarrow> bool" where
  "pairs_ok st \<longleftrightarrow> distinct (map fst (pairs st)) \<and>
     sorted_wrt (<) (map (\<lambda>kp. peFirstOrder (snd kp)) (pairs st)) \<and>
     (\<forall>kp \<in> set (pairs st). peFirstOrder (snd kp) < streamIndex st)"

lemma update_existing:
  "map_of al k = Some v \<Longrightarrow> distinct (map fst al) \<Longrightarrow>
   AList.update k v' al = map (\<lambda>kp. if fst kp = k then (k, v') else kp) al"
  by (induction al) (auto simp: image_iff intro!: map_idI [symmetric])

lemma update_new: "map_of al k = None \<Longrightarrow> AList.update k v al = al @ [(k, v)]"
  by (induction al) (auto split: if_splits)

abbreviation key_of :: "MergeEvidence \<Rightarrow> pairKey" where
  "key_of e \<equiv> normalizePair (meAddressA e) (meAddressB e)"

definition pair_before :: "scan_state \<Rightarrow> MergeEvidence \<Rightarrow> pairEvidence" where
  "pair_before st e = (case map_of (pairs st) (key_of e) of
     None \<Rightarrow> \<lparr>peFirstOrder = streamIndex st, peBySource = []\<rparr> | Some pe \<Rightarrow> pe)"

definition pair_after :: "scan_state \<Rightarrow> MergeEvidence \<Rightarrow> pairEvidence" where
  "pair_after st e = (let pe = pair_before st e in
     pe\<lparr>peBySource := add_source (sourceKey e) (meConfidence e) (peBySource pe)\<rparr>)"

lemma scan_step_pairs:
  "\<not> skipped e \<Longrightarrow> pairs (scan_step st e) = AList.update (key_of e) (pair_after st e) (pairs st)"
  by (simp add: scan_step_def skipped_def Let_def pair_after_def pair_before_def split: option.splits)

lemma pairs_ok_step:
  assumes "pairs_ok st"
  shows "pairs_ok (scan_step st e)"
proof (cases "skipped e")
  case True
  with assms show ?thesis by (simp add: scan_step_skipped)
next
  case False
  have si: "streamIndex (scan_step st e) = Suc (streamIndex st)"
    using False by (simp add: scan_step_def skipped_def Let_def)
  have dist: "distinct (map fst (pairs st))" and srt: "sorted_wrt (<) (map (\<lambda>kp. peFirstOrder (snd kp)) (pairs st))"
    and lt: "\<forall>kp \<in> set (pairs st). peFirstOrder (snd kp) < streamIndex st"
    using assms by (auto simp: pairs_ok_def)
  show ?thesis
  proof (cases "map_of (pairs st) (key_of e)")
    case None
    then have "pairs (scan_step st e) = pairs st @ [(key_of e, pair_after st e)]"
      and "peFirstOrder (pair_after st e) = streamIndex st"
      using False by (simp_all add: scan_step_pairs update_new pair_after_def pair_before_def Let_def)
    with None si dist srt lt show ?thesis
      by (auto simp: pairs_ok_def sorted_wrt_append map_of_eq_None_iff less_SucI)
  next
    case (Some pe)
    let ?f = "\<lambda>kp. if fst kp = key_of e then (key_of e, pair_after st e) else kp"
    have eq: "pairs (scan_step st e) = map ?f (pairs st)"
      unfolding scan_step_pairs [OF False] by (rule update_existing [OF Some dist])
    have same: "peFirstOrder (snd (?f kp)) = peFirstOrder (snd kp)" if "kp \<in> set (pairs st)" for kp
    proof -
      have "map_of (pairs st) (fst kp) = Some (snd kp)"
        using dist that by (metis map_of_is_SomeI prod.collapse)
      then show ?thesis by (auto simp: pair_after_def pair_before_def Let_def)
    qed
    have "map fst (pairs (scan_step st e)) = map fst (pairs st)"
      unfolding eq by (auto simp: comp_def)
    moreover have "map (\<lambda>kp. peFirstOrder (snd kp)) (pairs (scan_step st e)) = map (\<lambda>kp. peFirstOrder (snd kp)) (pairs st)"
      unfolding eq map_map comp_def by (rule map_cong) (simp_all add: same)
    moreover have "\<forall>kp \<in> set (pairs (scan_step st e)). peFirstOrder (snd kp) < streamIndex st"
    proof
      fix kp
      assume "kp \<in> set (pairs (scan_step st e))"
      then obtain kp' where kp': "kp' \<in> set (pairs st)" and "kp = ?f kp'"
        unfolding eq set_map by (rule imageE)
      then show "peFirstOrder (snd kp) < streamIndex st" using lt by (simp only: same [OF kp'])
    qed
    ultimately show ?thesis
      using dist srt si by (auto simp: pairs_ok_def less_SucI)
  qed
qed

lemma pairs_ok_scan: "pairs_ok (scan_evidence ev)"
proof (induction ev rule: rev_induct)
  case Nil
  show ?case by (simp add: pairs_ok_def scan_evidence_def scan_init_def)
next
  case (snoc e ev)
  then show ?case by (simp add: scan_snoc pairs_ok_step)
qed

lemma pairs_keys:
  "fst ` set (pairs (scan_evidence ev)) = (\<lambda>(a, b). normalizePair a b) ` evidence_edges ev"
proof (induction ev rule: rev_induct)
  case Nil
  show ?case by (simp add: evidence_edges_def scan_evidence_def scan_init_def)
next
  case (snoc e ev)
  show ?case
  proof (cases "skipped e")
    case True
    then have "evidence_edges (ev @ [e]) = evidence_edges ev" by (auto simp: evidence_edges_def)
    with snoc True show ?thesis by (simp add: scan_snoc scan_step_skipped)
  next
    case False
    then have "evidence_edges (ev @ [e]) = insert (meAddressA e, meAddressB e) (evidence_edges ev)"
      by (auto simp: evidence_edges_def)
    with snoc False show ?thesis
      by (simp add: scan_snoc) (simp add: scan_step_def skipped_def Let_def)
  qed
qed

lemma conn_normalized: "conn ((\<lambda>(a, b). normalizePair a b) ` E) = conn E"
proof (intro subset_antisym conn_subset_conn subsetI)
  fix x assume "x \<in> (\<lambda>(a, b). normalizePair a b) ` E"
  then obtain a b where "(a, b) \<in> E" and x: "x = normalizePair a b" by auto
  then have "(a, b) \<in> conn E" "(b, a) \<in> conn E" by (simp_all add: conn_edge conn_sym)
  with x show "x \<in> conn E" by (simp add: normalizePair_def)
next
  let ?N = "(\<lambda>(a, b). normalizePair a b) ` E"
  fix x assume "x \<in> E"
  then obtain a b where x: "x = (a, b)" and "normalizePair a b \<in> ?N" by (cases x) force
  then have "(a, b) \<in> ?N \<or> (b, a) \<in> ?N" by (auto simp only: normalizePair_def split: if_splits)
  then show "x \<in> conn ?N" unfolding x using conn_edge conn_sym by metis
qed

definition sources_ok :: "scan_state \<Rightarrow> bool" where
  "sources_ok st \<longleftrightarrow> (\<forall>kp \<in> set (pairs st). \<forall>sc \<in> set (peBySource (snd kp)). 0 \<le> snd sc \<and> snd sc \<le> 1)"

lemma set_update_subset: "set (AList.update k v al) \<subseteq> insert (k, v) (set al)"
  by (induction al) auto

lemma add_source_subset: "set (add_source s c bs) \<subseteq> insert (s, c) (set bs)"
  using set_update_subset [of s c bs] by (auto simp: add_source_def split: option.splits)

lemma sources_ok_step:
  assumes "sources_ok st" and "0 \<le> meConfidence e" and "meConfidence e \<le> 1"
  shows "sources_ok (scan_step st e)"
proof (cases "skipped e")
  case True
  with assms show ?thesis by (simp add: scan_step_skipped)
next
  case False
  have "\<forall>sc \<in> set (peBySource (pair_before st e)). 0 \<le> snd sc \<and> snd sc \<le> 1"
    using assms(1) by (fastforce simp: pair_before_def sources_ok_def split: option.splits dest: map_of_SomeD)
  then have "\<forall>sc \<in> set (peBySource (pair_after st e)). 0 \<le> snd sc \<and> snd sc \<le> 1"
    using add_source_subset [of "sourceKey e" "meConfidence e" "peBySource (pair_before st e)"] assms(2,3)
    by (fastforce simp: pair_after_def Let_def)
  moreover have "set (pairs (scan_step st e)) \<subseteq> insert (key_of e, pair_after st e) (set (pairs st))"
    using set_update_subset by (simp only: scan_step_pairs [OF False])
  ultimately show ?thesis using assms(1) by (fastforce simp: sources_ok_def)
qed

lemma sources_ok_scan: "unit_conf ev \<Longrightarrow> sources_ok (scan_evidence ev)"
proof (induction ev rule: rev_induct)
  case Nil
  show ?case by (simp add: sources_ok_def scan_evidence_def scan_init_def)
next
  case (snoc e ev)
  then show ?case by (simp add: scan_snoc sources_ok_step unit_conf_def)
qed


section \<open>Combined edges\<close>

lemma any_orderD:
  assumes "any_order ro"
  shows "mset (roPairs ro l1) = mset l1" "mset (roSources ro l2) = mset l2"
    "mset (roAddrs ro l3) = mset l3" "mset (roComps ro l4) = mset l4"
  using assms by (simp_all add: any_order_def)

lemma any_order_insertion: "any_order insertion_order"
  by (simp add: any_order_def insertion_order_def)

lemma any_order_reverse: "any_order reverse_order"
  by (simp add: any_order_def reverse_order_def)

lemma noisy_product_unit:
  assumes "0 \<le> p" and "p \<le> 1" and "\<forall>sc \<in> set bs. 0 \<le> snd sc \<and> snd sc \<le> 1"
  shows "0 \<le> foldl (\<lambda>product sc. fmul product (fsub 1 (snd sc))) p bs \<and>
    foldl (\<lambda>product sc. fmul product (fsub 1 (snd sc))) p bs \<le> 1"
  using assms
proof (induction bs arbitrary: p)
  case (Cons sc bs)
  then have "0 \<le> fmul p (fsub 1 (snd sc)) \<and> fmul p (fsub 1 (snd sc)) \<le> 1"
    by (intro fmul_unit) (auto simp: fsub_unit)
  with Cons show ?case by simp
qed simp

lemma noisyOR_unit:
  "\<forall>sc \<in> set bs. 0 \<le> snd sc \<and> snd sc \<le> 1 \<Longrightarrow> 0 \<le> noisyOR bs \<and> noisyOR bs \<le> 1"
  using noisy_product_unit [of 1 bs] unfolding noisyOR_def by (intro fsub_unit) auto

text \<open>
  The sort undoes the random iteration order over \<open>pairs\<close>: the edges come in order of first
  appearance.
\<close>

lemma combined_edges_scan:
  assumes "any_order ro"
  shows "combined_edges ro (pairs (scan_evidence ev)) = map (combine_edge ro) (pairs (scan_evidence ev))"
  unfolding combined_edges_def
proof (rule sort_key_of_perm)
  let ?ps = "pairs (scan_evidence ev)"
  show "mset (map (combine_edge ro) (roPairs ro ?ps)) = mset (map (combine_edge ro) ?ps)"
    using any_orderD [OF assms] by (simp only: mset_map)
  have fo: "map ceFirstOrder (map (combine_edge ro) ?ps) = map (\<lambda>kp. peFirstOrder (snd kp)) ?ps"
    by (simp add: combine_edge_def)
  have "sorted_wrt (<) (map (\<lambda>kp. peFirstOrder (snd kp)) ?ps)"
    using pairs_ok_scan by (simp add: pairs_ok_def)
  then show "sorted (map ceFirstOrder (map (combine_edge ro) ?ps))"
    and "distinct (map ceFirstOrder (map (combine_edge ro) ?ps))"
    unfolding fo by (simp_all only: strict_sorted_iff)
qed

lemma combined_edges_keys:
  assumes "any_order ro"
  shows "conn (ceKey ` set (combined_edges ro (pairs (scan_evidence ev)))) = conn (evidence_edges ev)"
proof -
  have "ceKey ` set (combined_edges ro (pairs (scan_evidence ev))) = fst ` set (pairs (scan_evidence ev))"
    unfolding combined_edges_scan [OF assms] by (simp add: combine_edge_def image_image)
  then show ?thesis by (simp add: pairs_keys conn_normalized)
qed

lemma combined_edges_unit:
  assumes "any_order ro" and "unit_conf ev" and "ce \<in> set (combined_edges ro (pairs (scan_evidence ev)))"
  shows "0 \<le> ceConfidence ce \<and> ceConfidence ce \<le> 1"
proof -
  from assms(3) obtain kp where kp: "kp \<in> set (pairs (scan_evidence ev))" and ce: "ce = combine_edge ro kp"
    unfolding combined_edges_scan [OF assms(1)] by auto
  have "set (roSources ro (peBySource (snd kp))) = set (peBySource (snd kp))"
    using any_orderD(2) [OF assms(1)] by (metis set_mset_mset)
  with sources_ok_scan [OF assms(2)] kp show ?thesis
    unfolding ce combine_edge_def by (auto simp: sources_ok_def intro!: noisyOR_unit)
qed


section \<open>The union loop builds a spanning forest\<close>

definition adj_rel :: "adjacency \<Rightarrow> (string \<times> string) set" where
  "adj_rel adj = {(x, y). \<exists>c. (y, c) \<in> set (adj x)}"

definition adj_weights :: "adjacency \<Rightarrow> float64 set" where
  "adj_weights adj = {c. \<exists>x y. (y, c) \<in> set (adj x)}"

lemma adj_rel_add_edge:
  "adj_rel (add_edge ce adj) = insert (ceKey ce) (insert (snd (ceKey ce), fst (ceKey ce)) (adj_rel adj))"
  by (cases "ceKey ce") (auto simp: adj_rel_def add_edge_def Let_def split: if_splits)

lemma adj_weights_add_edge:
  "adj_weights (add_edge ce adj) \<subseteq> insert (ceConfidence ce) (adj_weights adj)"
  by (cases "ceKey ce") (auto simp: adj_weights_def add_edge_def Let_def split: if_splits)

lemma conn_add_edge:
  "conn (adj_rel (add_edge ce adj)) = conn (insert (ceKey ce) (adj_rel adj))"
proof -
  obtain a b where k: "ceKey ce = (a, b)" by (cases "ceKey ce")
  have "(b, a) \<in> conn (insert (a, b) (adj_rel adj))"
    by (rule conn_sym) (simp add: conn_edge)
  then show ?thesis
    unfolding adj_rel_add_edge k fst_conv snd_conv
    by (metis conn_insert_subsumed insert_commute)
qed

lemma union_edges_spec:
  assumes "dsu.represents d E" and "conn (adj_rel adj) = conn E"
  obtains d' adj' where "union_edges ces d adj = Some (d', adj')"
    and "dsu.represents d' (E \<union> ceKey ` set ces)"
    and "conn (adj_rel adj') = conn (E \<union> ceKey ` set ces)"
    and "sym (adj_rel adj) \<Longrightarrow> sym (adj_rel adj')"
    and "adj_rel adj' \<subseteq> adj_rel adj \<union> ceKey ` set ces \<union> (ceKey ` set ces)\<inverse>"
    and "adj_weights adj' \<subseteq> adj_weights adj \<union> ceConfidence ` set ces"
proof -
  have "\<exists>d' adj'. union_edges ces d adj = Some (d', adj') \<and>
      dsu.represents d' (E \<union> ceKey ` set ces) \<and>
      conn (adj_rel adj') = conn (E \<union> ceKey ` set ces) \<and>
      (sym (adj_rel adj) \<longrightarrow> sym (adj_rel adj')) \<and>
      adj_rel adj' \<subseteq> adj_rel adj \<union> ceKey ` set ces \<union> (ceKey ` set ces)\<inverse> \<and>
      adj_weights adj' \<subseteq> adj_weights adj \<union> ceConfidence ` set ces"
    using assms
  proof (induction ces arbitrary: d E adj)
    case Nil
    then show ?case by simp
  next
    case (Cons ce ces)
    obtain a b where k: "ceKey ce = (a, b)" by (cases "ceKey ce")
    obtain d1 m where U: "Union d a b = Some (d1, m)"
      using dsu.represents_union [OF Cons.prems(1)] by metis
    note st = dsu.forest_step [OF Cons.prems U]
    let ?adj = "if m then add_edge ce adj else adj"
    have c1: "conn (adj_rel ?adj) = conn (insert (a, b) E)"
      using st(3) k by (cases m) (simp_all add: conn_add_edge)
    obtain d2 adj2 where I: "union_edges ces d1 ?adj = Some (d2, adj2)"
      "dsu.represents d2 (insert (a, b) E \<union> ceKey ` set ces)"
      "conn (adj_rel adj2) = conn (insert (a, b) E \<union> ceKey ` set ces)"
      "sym (adj_rel ?adj) \<longrightarrow> sym (adj_rel adj2)"
      "adj_rel adj2 \<subseteq> adj_rel ?adj \<union> ceKey ` set ces \<union> (ceKey ` set ces)\<inverse>"
      "adj_weights adj2 \<subseteq> adj_weights ?adj \<union> ceConfidence ` set ces"
      using Cons.IH [OF st(1) c1] by blast
    have sym1: "sym (adj_rel adj) \<longrightarrow> sym (adj_rel ?adj)"
      by (auto simp: adj_rel_add_edge k sym_def)
    have rel1: "adj_rel ?adj \<subseteq> insert (a, b) (insert (b, a) (adj_rel adj))"
      by (auto simp: adj_rel_add_edge k)
    have w1: "adj_weights ?adj \<subseteq> insert (ceConfidence ce) (adj_weights adj)"
      using adj_weights_add_edge by auto
    have "adj_rel adj2 \<subseteq> adj_rel adj \<union> ceKey ` set (ce # ces) \<union> (ceKey ` set (ce # ces))\<inverse>"
      using I(5) rel1 k by auto
    moreover have "adj_weights adj2 \<subseteq> adj_weights adj \<union> ceConfidence ` set (ce # ces)"
      using I(6) w1 by auto
    moreover have "union_edges (ce # ces) d adj = Some (d2, adj2)"
      using I(1) U k by simp
    ultimately show ?case
      using I(2-4) sym1 k by (intro exI [of _ d2] exI [of _ adj2]) auto
  qed
  then show ?thesis using that by blast
qed


section \<open>Component collection\<close>

lemma lookup_list_update:
  "lookup_list (AList.update k v m) x = (if x = k then v else lookup_list m x)"
  by (simp add: lookup_list_def update_conv)

lemma component_members_spec:
  assumes "dsu.represents d E" and "distinct (map fst m)"
  shows "\<exists>comps. component_members addrs d m = Some comps \<and> distinct (map fst comps) \<and>
    fst ` set comps = fst ` set m \<union> UnionFind.rep d ` set addrs \<and>
    (\<forall>r. lookup_list comps r = lookup_list m r @ filter (\<lambda>a. UnionFind.rep d a = r) addrs)"
  using assms
proof (induction addrs arbitrary: d m)
  case Nil
  then show ?case by simp
next
  case (Cons a addrs)
  obtain d1 where F: "Find d a = Some (d1, UnionFind.rep d a)" and R: "dsu.represents d1 E"
    and r1: "UnionFind.rep d1 = UnionFind.rep d"
    using dsu.represents_find [OF Cons.prems(1)] by metis
  let ?m = "AList.update (UnionFind.rep d a) (lookup_list m (UnionFind.rep d a) @ [a]) m"
  have "distinct (map fst ?m)" using Cons.prems(2) by (rule distinct_update)
  then obtain comps where C: "component_members addrs d1 ?m = Some comps" "distinct (map fst comps)"
    "fst ` set comps = fst ` set ?m \<union> UnionFind.rep d ` set addrs"
    "\<forall>r. lookup_list comps r = lookup_list ?m r @ filter (\<lambda>a. UnionFind.rep d a = r) addrs"
    using Cons.IH [OF R, of ?m] r1 by auto
  with F show ?case
    by (intro exI [of _ comps]) (auto simp: lookup_list_update)
qed


section \<open>Breadth-first search reaches the component and carries minima\<close>

text \<open>
  \<open>bottleneck adj anchor x c\<close>: some path of forest edges from the anchor to \<open>x\<close> has \<open>c\<close>
  as the least of 1 and its edge confidences.
\<close>

inductive bottleneck :: "adjacency \<Rightarrow> string \<Rightarrow> string \<Rightarrow> float64 \<Rightarrow> bool" for adj anchor where
  start: "bottleneck adj anchor anchor 1"
| extend: "bottleneck adj anchor x c \<Longrightarrow> (y, w) \<in> set (adj x) \<Longrightarrow>
     bottleneck adj anchor y (if w < c then w else c)"

lemma bottleneck_reachable: "bottleneck adj anchor x c \<Longrightarrow> (anchor, x) \<in> (adj_rel adj)\<^sup>*"
proof (induction rule: bottleneck.induct)
  case (extend x c y w)
  then have "(x, y) \<in> adj_rel adj" by (auto simp: adj_rel_def)
  with extend.IH show ?case by (rule rtrancl_into_rtrancl)
qed simp

lemma bottleneck_unit:
  assumes "\<forall>w \<in> adj_weights adj. 0 \<le> w \<and> w \<le> 1"
  shows "bottleneck adj anchor x c \<Longrightarrow> 0 \<le> c \<and> c \<le> 1"
proof (induction rule: bottleneck.induct)
  case (extend x c y w)
  then have "w \<in> adj_weights adj" by (auto simp: adj_weights_def)
  with assms extend show ?case by auto
qed simp

definition bfs_inv :: "adjacency \<Rightarrow> string \<Rightarrow> bfs_state \<Rightarrow> bool" where
  "bfs_inv adj anchor st \<longleftrightarrow>
     bfsVisited st anchor \<and> bfsConfidence st anchor = Some 1 \<and> set (bfsQueue st) \<subseteq> Collect (bfsVisited st) \<and>
     dom (bfsConfidence st) = Collect (bfsVisited st) \<and>
     (\<forall>x c. bfsConfidence st x = Some c \<longrightarrow> bottleneck adj anchor x c)"

definition closed_except :: "adjacency \<Rightarrow> string set \<Rightarrow> bfs_state \<Rightarrow> bool" where
  "closed_except adj X st \<longleftrightarrow> (\<forall>x y. bfsVisited st x \<longrightarrow> x \<notin> X \<longrightarrow> (x, y) \<in> adj_rel adj \<longrightarrow> bfsVisited st y)"

lemma bfs_inv_conf:
  assumes "bfs_inv adj anchor st" and "bfsVisited st x"
  obtains c where "bfsConfidence st x = Some c" and "bottleneck adj anchor x c"
proof -
  from assms have "x \<in> dom (bfsConfidence st)" by (simp add: bfs_inv_def)
  then obtain c where c: "bfsConfidence st x = Some c" by blast
  with assms(1) have "bottleneck adj anchor x c" by (simp add: bfs_inv_def)
  with c show ?thesis by (rule that)
qed

lemma bfs_inv_reachable: "bfs_inv adj anchor st \<Longrightarrow> bfsVisited st x \<Longrightarrow> (anchor, x) \<in> (adj_rel adj)\<^sup>*"
  by (erule (1) bfs_inv_conf) (rule bottleneck_reachable)

lemma visited_visit_edge [simp]:
  "bfsVisited (visit_edge cur st e) x \<longleftrightarrow> bfsVisited st x \<or> x = fst e"
  by (auto simp: visit_edge_def Let_def)

lemma visited_visit_edges:
  "bfsVisited (foldl (visit_edge cur) st es) x \<longleftrightarrow> bfsVisited st x \<or> x \<in> fst ` set es"
  by (induction es arbitrary: st) auto

lemma bfs_inv_visit_edge:
  assumes "bfs_inv adj anchor st" and "bfsVisited st cur" and "e \<in> set (adj cur)"
  shows "bfs_inv adj anchor (visit_edge cur st e)"
proof (cases "bfsVisited st (fst e)")
  case True
  with assms show ?thesis by (simp add: visit_edge_def)
next
  case False
  obtain c where c: "bfsConfidence st cur = Some c" and "bottleneck adj anchor cur c"
    using assms(1,2) by (rule bfs_inv_conf)
  from this(2) have "bottleneck adj anchor (fst e) (if snd e < c then snd e else c)"
    using assms(3) bottleneck.extend [of adj anchor cur c "fst e" "snd e"] by simp
  with False c assms show ?thesis
    by (auto simp: bfs_inv_def visit_edge_def Let_def conf_at_def split: if_splits)
qed

lemma bfs_inv_visit_edges:
  assumes "bfs_inv adj anchor st" and "bfsVisited st cur" and "set es \<subseteq> set (adj cur)"
  shows "bfs_inv adj anchor (foldl (visit_edge cur) st es)"
  using assms by (induction es arbitrary: st) (simp_all add: bfs_inv_visit_edge)

text \<open>Newly visited nodes are queued, so only the current node may miss a neighbour.\<close>

lemma closed_visit_edge:
  assumes "closed_except adj (insert cur (set (bfsQueue st))) st"
  shows "closed_except adj (insert cur (set (bfsQueue (visit_edge cur st e)))) (visit_edge cur st e)"
  using assms by (auto simp: closed_except_def visit_edge_def Let_def)

lemma closed_visit_edges:
  assumes "closed_except adj (insert cur (set (bfsQueue st))) st"
  shows "closed_except adj (insert cur (set (bfsQueue (foldl (visit_edge cur) st es)))) (foldl (visit_edge cur) st es)"
  using assms by (induction es arbitrary: st) (simp_all add: closed_visit_edge)

lemma bfs_step_closed:
  assumes "closed_except adj (set (bfsQueue st)) st" and "bfsQueue st = cur # queue"
  shows "closed_except adj (set (bfsQueue (foldl (visit_edge cur) (st\<lparr>bfsQueue := queue\<rparr>) (adj cur))))
    (foldl (visit_edge cur) (st\<lparr>bfsQueue := queue\<rparr>) (adj cur))"
proof -
  let ?st = "foldl (visit_edge cur) (st\<lparr>bfsQueue := queue\<rparr>) (adj cur)"
  have "closed_except adj (insert cur (set (bfsQueue ?st))) ?st"
    using assms by (intro closed_visit_edges) (auto simp: closed_except_def)
  moreover have "bfsVisited ?st y" if "(cur, y) \<in> adj_rel adj" for y
    using that by (force simp: visited_visit_edges adj_rel_def)
  ultimately show ?thesis by (auto simp: closed_except_def)
qed

lemma bfs_step_inv:
  assumes "bfs_inv adj anchor st" and "bfsQueue st = cur # queue"
  shows "bfs_inv adj anchor (foldl (visit_edge cur) (st\<lparr>bfsQueue := queue\<rparr>) (adj cur))"
  using assms by (intro bfs_inv_visit_edges) (auto simp: bfs_inv_def)

definition bfs_measure :: "string set \<Rightarrow> bfs_state \<Rightarrow> nat" where
  "bfs_measure U st = 2 * card {x \<in> U. \<not> bfsVisited st x} + length (bfsQueue st)"

lemma bfs_measure_visit_edge:
  assumes "finite U" and "fst e \<in> U"
  shows "bfs_measure U (visit_edge cur st e) \<le> bfs_measure U st"
proof (cases "bfsVisited st (fst e)")
  case True
  then show ?thesis by (simp add: visit_edge_def)
next
  case False
  define A where "A = {x \<in> U. \<not> bfsVisited st x}"
  have A: "finite A" "fst e \<in> A" using False assms by (auto simp: A_def)
  have "{x \<in> U. \<not> bfsVisited (visit_edge cur st e) x} = A - {fst e}" by (auto simp: A_def)
  moreover have "length (bfsQueue (visit_edge cur st e)) = Suc (length (bfsQueue st))"
    using False by (simp add: visit_edge_def Let_def)
  ultimately have "bfs_measure U (visit_edge cur st e) = 2 * (card A - 1) + Suc (length (bfsQueue st))"
    using A by (simp add: bfs_measure_def)
  moreover have "0 < card A" using A by (auto simp: card_gt_0_iff)
  ultimately show ?thesis by (simp add: bfs_measure_def flip: A_def)
qed

lemma bfs_measure_visit_edges:
  assumes "finite U" and "fst ` set es \<subseteq> U"
  shows "bfs_measure U (foldl (visit_edge cur) st es) \<le> bfs_measure U st"
  using assms(2)
proof (induction es arbitrary: st)
  case (Cons e es)
  then have "bfs_measure U (visit_edge cur st e) \<le> bfs_measure U st"
    using assms(1) by (intro bfs_measure_visit_edge) auto
  moreover have "bfs_measure U (foldl (visit_edge cur) (visit_edge cur st e) es) \<le> bfs_measure U (visit_edge cur st e)"
    using Cons by simp
  ultimately show ?case by simp
qed simp

lemma bfs_returns:
  assumes "finite {x. (anchor, x) \<in> (adj_rel adj)\<^sup>*}" (is "finite ?U")
    and "bfs_inv adj anchor st" and "closed_except adj (set (bfsQueue st)) st"
  shows "\<exists>confidence. bfs adj st = Some confidence \<and> dom confidence = ?U \<and>
    confidence anchor = Some 1 \<and> (\<forall>x c. confidence x = Some c \<longrightarrow> bottleneck adj anchor x c)"
  using assms(2,3)
proof (induction "bfs_measure ?U st" arbitrary: st rule: less_induct)
  case less
  show ?case
  proof (cases "bfsQueue st")
    case Nil
    have "Collect (bfsVisited st) = ?U"
    proof (intro subset_antisym subsetI CollectI)
      fix x assume "x \<in> Collect (bfsVisited st)"
      then show "(anchor, x) \<in> (adj_rel adj)\<^sup>*"
        by (intro bfs_inv_reachable [OF less.prems(1)]) simp
    next
      fix x assume "x \<in> ?U"
      then have "(anchor, x) \<in> (adj_rel adj)\<^sup>*" by simp
      then show "bfsVisited st x"
      proof induction
        case base
        show ?case using less.prems(1) by (simp add: bfs_inv_def)
      next
        case (step y z)
        then show ?case using less.prems(2) Nil by (auto simp: closed_except_def)
      qed
    qed
    with Nil less.prems(1) show ?thesis
      by (subst bfs.simps) (simp add: bfs_inv_def)
  next
    case (Cons cur queue)
    let ?st = "foldl (visit_edge cur) (st\<lparr>bfsQueue := queue\<rparr>) (adj cur)"
    have "(anchor, cur) \<in> (adj_rel adj)\<^sup>*"
    proof -
      have "bfsVisited st cur" using less.prems(1) Cons by (auto simp: bfs_inv_def)
      then show ?thesis by (rule bfs_inv_reachable [OF less.prems(1)])
    qed
    moreover have "(cur, y) \<in> adj_rel adj" if "y \<in> fst ` set (adj cur)" for y
      using that by (force simp: adj_rel_def)
    ultimately have "fst ` set (adj cur) \<subseteq> ?U" by (blast intro: rtrancl_into_rtrancl)
    then have "bfs_measure ?U ?st \<le> bfs_measure ?U (st\<lparr>bfsQueue := queue\<rparr>)"
      by (rule bfs_measure_visit_edges [OF assms(1)])
    also have "\<dots> < bfs_measure ?U st" using Cons by (simp add: bfs_measure_def)
    finally have "bfs_measure ?U ?st < bfs_measure ?U st" .
    from less.hyps [OF this bfs_step_inv [OF less.prems(1) Cons] bfs_step_closed [OF less.prems(2) Cons]]
    show ?thesis using Cons by (subst bfs.simps) simp
  qed
qed

lemma bfs_init_spec:
  assumes "finite (adj_rel adj)"
  shows "\<exists>confidence. bfs adj (bfs_init anchor) = Some confidence \<and>
    dom confidence = {x. (anchor, x) \<in> (adj_rel adj)\<^sup>*} \<and>
    confidence anchor = Some 1 \<and>
    (\<forall>x c. confidence x = Some c \<longrightarrow> bottleneck adj anchor x c)"
proof -
  have "{x. (anchor, x) \<in> (adj_rel adj)\<^sup>*} \<subseteq> insert anchor (Range (adj_rel adj))"
    by (auto elim: rtranclE)
  then have fin: "finite {x. (anchor, x) \<in> (adj_rel adj)\<^sup>*}"
    using assms by (meson finite.insertI finite_Range finite_subset)
  have "bfs_inv adj anchor (bfs_init anchor)"
    by (auto simp: bfs_inv_def bfs_init_def bottleneck.start split: if_splits)
  moreover have "closed_except adj (set (bfsQueue (bfs_init anchor))) (bfs_init anchor)"
    by (auto simp: closed_except_def bfs_init_def)
  ultimately show ?thesis using bfs_returns [OF fin] by blast
qed


section \<open>Replay returns the components of the evidence\<close>

lemma pick_anchor_fold:
  fixes f :: "'a \<Rightarrow> nat"
  shows "foldl (\<lambda>anchor a. if f a < f anchor then a else anchor) x xs \<in> insert x (set xs) \<and>
    (\<forall>a \<in> insert x (set xs). f (foldl (\<lambda>anchor a. if f a < f anchor then a else anchor) x xs) \<le> f a)"
proof (induction xs arbitrary: x)
  case (Cons y xs)
  show ?case
    using Cons [of "if f y < f x then y else x"] by (auto split: if_splits)
qed simp

lemma pick_anchor:
  assumes "addrs \<noteq> []"
  shows "pick_anchor fso addrs \<in> set addrs"
    and "a \<in> set addrs \<Longrightarrow> first_seen fso (pick_anchor fso addrs) \<le> first_seen fso a"
proof -
  have "set addrs = insert (hd addrs) (set (tl addrs))" using assms by (cases addrs) simp_all
  with pick_anchor_fold [where f = "first_seen fso" and x = "hd addrs" and xs = "tl addrs"]
  show "pick_anchor fso addrs \<in> set addrs"
    and "a \<in> set addrs \<Longrightarrow> first_seen fso (pick_anchor fso addrs) \<le> first_seen fso a"
    unfolding pick_anchor_def by auto
qed

lemma conn_sym_rel: "sym R \<Longrightarrow> conn R = R\<^sup>*"
  unfolding conn_def by (simp add: sym_conv_converse_eq)

definition component :: "MergeEvidence list \<Rightarrow> string \<Rightarrow> string set" where
  "component ev x = {y \<in> set (evidence_addresses ev). (x, y) \<in> conn (evidence_edges ev)}"

definition member_addresses :: "Result \<Rightarrow> string list" where
  "member_addresses r = map mAddress (rMembers r)"

text \<open>
  What replay promises of one result. The members are the connected component of the
  anchor, listed once each; the anchor is the member that appeared first in the evidence;
  a member's confidence is a bottleneck over forest edges.
\<close>

definition result_ok :: "MergeEvidence list \<Rightarrow> adjacency \<Rightarrow> Result \<Rightarrow> bool" where
  "result_ok ev adj r \<longleftrightarrow>
     distinct (member_addresses r) \<and>
     rAnchorAddress r \<in> set (member_addresses r) \<and>
     set (member_addresses r) = component ev (rAnchorAddress r) \<and>
     (\<forall>a \<in> set (member_addresses r).
        first_seen (firstSeenOrder (scan_evidence ev)) (rAnchorAddress r)
          \<le> first_seen (firstSeenOrder (scan_evidence ev)) a) \<and>
     rClusterID r = deriveClusterID (rAnchorAddress r) \<and>
     rSize r = int (length (rMembers r)) \<and>
     rRepresentativeConfidence r = fdiv (foldl (\<lambda>s m. fadd s (mConfidence m)) 0 (rMembers r))
       (float_of_int (int (length (rMembers r)))) \<and>
     (\<forall>m \<in> set (rMembers r). bottleneck adj (rAnchorAddress r) (mAddress m) (mConfidence m) \<and>
        (mAddress m = rAnchorAddress r \<longrightarrow> mConfidence m = 1))"

lemma build_result_ok:
  assumes "finite (adj_rel adj)" and "sym (adj_rel adj)" and "conn (adj_rel adj) = conn (evidence_edges ev)"
    and "addrs \<noteq> []" and "distinct addrs"
    and comp: "\<And>x. x \<in> set addrs \<Longrightarrow> set addrs = component ev x"
  obtains r where "build_result (firstSeenOrder (scan_evidence ev)) adj addrs = Some r"
    and "result_ok ev adj r" and "member_addresses r = addrs"
proof -
  let ?fso = "firstSeenOrder (scan_evidence ev)"
  let ?anchor = "pick_anchor ?fso addrs"
  have anchor: "?anchor \<in> set addrs" using assms(4) by (rule pick_anchor)
  obtain confidence where B: "bfs adj (bfs_init ?anchor) = Some confidence"
    and dom: "dom confidence = {x. (?anchor, x) \<in> (adj_rel adj)\<^sup>*}"
    and one: "confidence ?anchor = Some 1"
    and bot: "\<forall>x c. confidence x = Some c \<longrightarrow> bottleneck adj ?anchor x c"
    using bfs_init_spec [OF assms(1), of ?anchor] by (elim exE conjE)
  have "bottleneck adj ?anchor a (conf_at confidence a)" if "a \<in> set addrs" for a
  proof -
    have "(?anchor, a) \<in> conn (adj_rel adj)"
      using that comp [OF anchor] assms(3) by (auto simp: component_def)
    then have "a \<in> dom confidence" by (simp add: dom conn_sym_rel [OF assms(2)])
    then show ?thesis using bot by (auto simp: conf_at_def)
  qed
  moreover define r where "r = \<lparr>rClusterID = deriveClusterID ?anchor, rAnchorAddress = ?anchor,
      rSize = int (length addrs),
      rRepresentativeConfidence = fdiv (foldl (\<lambda>s a. fadd s (conf_at confidence a)) 0 addrs)
        (float_of_int (int (length addrs))),
      rMembers = map (\<lambda>a. \<lparr>mAddress = a, mConfidence = conf_at confidence a\<rparr>) addrs\<rparr>"
  moreover have "member_addresses r = addrs" by (simp add: r_def member_addresses_def comp_def)
  ultimately have "result_ok ev adj r"
    using anchor comp [OF anchor] assms(5) pick_anchor(2) [OF assms(4)] one
    by (auto simp: result_ok_def r_def conf_at_def foldl_map)
  moreover have "build_result ?fso adj addrs = Some r" using B by (simp add: build_result_def Let_def r_def)
  ultimately show ?thesis using \<open>member_addresses r = addrs\<close> that by blast
qed

lemma build_results_ok:
  assumes "finite (adj_rel adj)" and "sym (adj_rel adj)" and "conn (adj_rel adj) = conn (evidence_edges ev)"
    and "\<And>l. l \<in> set ls \<Longrightarrow> l \<noteq> [] \<and> distinct l \<and> (\<forall>x \<in> set l. set l = component ev x)"
  obtains rs where "build_results (firstSeenOrder (scan_evidence ev)) adj ls = Some rs"
    and "\<forall>r \<in> set rs. result_ok ev adj r" and "map member_addresses rs = ls"
proof -
  have "\<exists>rs. build_results (firstSeenOrder (scan_evidence ev)) adj ls = Some rs \<and>
      (\<forall>r \<in> set rs. result_ok ev adj r) \<and> map member_addresses rs = ls"
    using assms(4)
  proof (induction ls)
    case (Cons l ls)
    then obtain rs where "build_results (firstSeenOrder (scan_evidence ev)) adj ls = Some rs"
      "\<forall>r \<in> set rs. result_ok ev adj r" "map member_addresses rs = ls" by auto
    moreover obtain r where "build_result (firstSeenOrder (scan_evidence ev)) adj l = Some r"
      "result_ok ev adj r" "member_addresses r = l"
      using build_result_ok [OF assms(1-3), of l] Cons.prems by (metis list.set_intros(1))
    ultimately show ?case by simp
  qed simp
  then show ?thesis using that by blast
qed

lemma distinct_concat_grouped:
  assumes "distinct (map fst cs)" and "\<forall>c \<in> set cs. distinct (snd c) \<and> (\<forall>a \<in> set (snd c). f a = fst c)"
  shows "distinct (concat (map snd cs))"
  using assms
proof (induction cs)
  case (Cons c cs)
  have "f a \<noteq> fst c" if "a \<in> set (concat (map snd cs))" for a
  proof -
    from that obtain c' where "c' \<in> set cs" "a \<in> set (snd c')" by auto
    with Cons.prems show ?thesis by (metis distinct.simps(2) image_eqI list.set_intros(2) list.set_map list.simps(9))
  qed
  then have "set (snd c) \<inter> set (concat (map snd cs)) = {}" using Cons.prems(2) by auto
  with Cons show ?case by simp
qed simp

text \<open>The groups that \<open>component_members\<close> collects, in any iteration order.\<close>

lemma components_grouped:
  assumes "any_order ro" and R: "dsu.represents d E" and "distinct addrs"
    and C: "component_members (roAddrs ro addrs) d [] = Some comps"
  shows "distinct (concat (map snd (roComps ro comps)))"
    and "set (concat (map snd (roComps ro comps))) = set addrs"
    and "l \<in> set (map snd (roComps ro comps)) \<Longrightarrow>
      l \<noteq> [] \<and> distinct l \<and> (\<forall>x \<in> set l. set l = {y \<in> set addrs. (x, y) \<in> conn E})"
proof -
  let ?as = "roAddrs ro addrs" and ?cs = "roComps ro comps"
  have as: "set ?as = set addrs" "distinct ?as"
    using any_orderD(3) [OF assms(1), of addrs] assms(3) mset_eq_setD mset_eq_imp_distinct_iff by blast+
  have dcs: "distinct (map fst comps)" and keys: "fst ` set comps = UnionFind.rep d ` set addrs"
    and look: "\<And>r. lookup_list comps r = filter (\<lambda>a. UnionFind.rep d a = r) ?as"
    using component_members_spec [OF R, of "[]" ?as] C as(1) by (simp_all add: lookup_list_def)
  have grp: "snd c = filter (\<lambda>a. UnionFind.rep d a = fst c) ?as" if "c \<in> set comps" for c
    using look [of "fst c"] map_of_is_SomeI [OF dcs, of "fst c" "snd c"] that by (simp add: lookup_list_def)
  have cs: "set ?cs = set comps" and dcs': "distinct (map fst ?cs)"
    using any_orderD(4) [OF assms(1), of comps] dcs
    by (metis set_mset_mset, metis mset_eq_imp_distinct_iff mset_map)
  show "distinct (concat (map snd ?cs))"
    using dcs' cs grp as(2) by (intro distinct_concat_grouped [where f = "UnionFind.rep d"]) auto
  show "set (concat (map snd ?cs)) = set addrs"
  proof (intro subset_antisym subsetI)
    fix x assume "x \<in> set addrs"
    then obtain c where "c \<in> set comps" "fst c = UnionFind.rep d x" using keys by (metis image_eqI imageE)
    with \<open>x \<in> set addrs\<close> grp as have "x \<in> set (snd c)" by simp
    with \<open>c \<in> set comps\<close> cs show "x \<in> set (concat (map snd ?cs))" by auto
  qed (use cs grp as in auto)
  have conn: "UnionFind.rep d x = UnionFind.rep d y \<longleftrightarrow> (x, y) \<in> conn E" for x y
    using R by (simp add: dsu.represents_def)
  assume "l \<in> set (map snd ?cs)"
  then obtain c where c: "c \<in> set comps" and l: "l = filter (\<lambda>a. UnionFind.rep d a = fst c) ?as"
    using cs grp by auto
  obtain x where "x \<in> set addrs" "fst c = UnionFind.rep d x" using keys c by (metis image_eqI imageE)
  then have "x \<in> set l" using l as by simp
  then have "l \<noteq> []" by auto
  then show "l \<noteq> [] \<and> distinct l \<and> (\<forall>x \<in> set l. set l = {y \<in> set addrs. (x, y) \<in> conn E})"
    using l as by (auto simp flip: conn)
qed

lemma Replay_spec:
  assumes "any_order ro"
  obtains rs adj where "Replay ro ev = Some rs" and "\<forall>r \<in> set rs. result_ok ev adj r"
    and "distinct (concat (map member_addresses rs))"
    and "set (concat (map member_addresses rs)) = set (evidence_addresses ev)"
    and "adj_rel adj \<subseteq> conn (evidence_edges ev)"
    and "adj_weights adj \<subseteq> ceConfidence ` set (combined_edges ro (pairs (scan_evidence ev)))"
proof -
  let ?ces = "combined_edges ro (pairs (scan_evidence ev))"
  have emp: "adj_rel (\<lambda>_. []) = {}" "adj_weights (\<lambda>_. []) = {}"
    by (auto simp: adj_rel_def adj_weights_def)
  have c0: "conn (adj_rel (\<lambda>_. [])) = conn {}" by (simp add: emp)
  obtain d adj where U: "union_edges ?ces New (\<lambda>_. []) = Some (d, adj)"
    and R: "dsu.represents d (ceKey ` set ?ces)"
    and F: "conn (adj_rel adj) = conn (ceKey ` set ?ces)"
    and S: "sym (adj_rel adj)"
    and sub: "adj_rel adj \<subseteq> ceKey ` set ?ces \<union> (ceKey ` set ?ces)\<inverse>"
    and W: "adj_weights adj \<subseteq> ceConfidence ` set ?ces"
    using union_edges_spec [OF dsu.represents_empty c0, of ?ces] by (auto simp: emp sym_def)
  have ce: "conn (ceKey ` set ?ces) = conn (evidence_edges ev)"
    by (rule combined_edges_keys [OF assms])
  have fin: "finite (adj_rel adj)" using sub by (rule finite_subset) simp
  have adjc: "conn (adj_rel adj) = conn (evidence_edges ev)" using F ce by simp
  obtain comps where C: "component_members (roAddrs ro (evidence_addresses ev)) d [] = Some comps"
    using component_members_spec [OF R, of "[]" "roAddrs ro (evidence_addresses ev)"] by auto
  note G = components_grouped [OF assms R distinct_evidence_addresses C]
  have "l \<noteq> [] \<and> distinct l \<and> (\<forall>x \<in> set l. set l = component ev x)"
    if "l \<in> set (map snd (roComps ro comps))" for l
    using G(3) [OF that] by (simp add: component_def ce)
  then obtain rs where "build_results (firstSeenOrder (scan_evidence ev)) adj (map snd (roComps ro comps)) = Some rs"
    and ok: "\<forall>r \<in> set rs. result_ok ev adj r" and ms: "map member_addresses rs = map snd (roComps ro comps)"
    using build_results_ok [OF fin S adjc] by metis
  then have "Replay ro ev = Some rs" using U C by (simp add: Replay_def Let_def firstSeen_fst)
  moreover have "adj_rel adj \<subseteq> conn (evidence_edges ev)"
    using adjc by (auto intro: conn_edge)
  ultimately show ?thesis
    using that [OF _ ok _ _ _ W] G(1,2) by (simp add: ms)
qed

end
