(* ===== verification/ReplayCorrect.thy ===== *)
theory ReplayCorrect
  imports Replay
begin

text \<open>
  What \<open>cluster.Replay\<close> promises its callers: the results are the connected components of
  the active evidence, whatever order Go iterates its maps in, and evidence that is
  delivered again changes nothing.
\<close>

section \<open>Redelivered evidence\<close>

text \<open>
  Two entries name the same unordered pair and the same source: the second is a redelivery
  when it carries no greater confidence.
\<close>

definition redelivers :: "MergeEvidence \<Rightarrow> MergeEvidence \<Rightarrow> bool" where
  "redelivers e e' \<longleftrightarrow>
     normalizePair (meAddressA e') (meAddressB e') = normalizePair (meAddressA e) (meAddressB e) \<and>
     sourceKey e' = sourceKey e \<and> meConfidence e' \<le> meConfidence e"

definition recorded :: "scan_state \<Rightarrow> MergeEvidence \<Rightarrow> bool" where
  "recorded st e \<longleftrightarrow>
     map_of (firstSeenOrder st) (meAddressA e) \<noteq> None \<and> map_of (firstSeenOrder st) (meAddressB e) \<noteq> None \<and>
     (\<exists>pe c. map_of (pairs st) (normalizePair (meAddressA e) (meAddressB e)) = Some pe \<and>
        map_of (peBySource pe) (sourceKey e) = Some c \<and> meConfidence e \<le> c)"

lemma add_source_at:
  "map_of (add_source s c bs) s = Some (case map_of bs s of None \<Rightarrow> c | Some cur \<Rightarrow> max cur c)"
  by (auto simp: add_source_def update_conv' split: option.splits)

lemma add_source_keeps:
  "map_of bs s = Some c \<Longrightarrow> l \<le> c \<Longrightarrow> \<exists>c'. map_of (add_source t d bs) s = Some c' \<and> l \<le> c'"
  by (auto simp: add_source_def update_conv' split: option.splits)

lemma touch_seen:
  "map_of (firstSeenOrder st) a \<noteq> None \<Longrightarrow> map_of (firstSeenOrder (touch b st)) a \<noteq> None"
  "map_of (firstSeenOrder (touch a st)) a \<noteq> None"
  by (auto simp: touch_def map_add_def split: option.splits)

lemma recorded_self: "\<not> skipped e \<Longrightarrow> recorded (scan_step st e) e"
  by (auto simp: scan_step_def skipped_def recorded_def Let_def touch_seen update_conv' add_source_at
      split: option.splits)

lemma recorded_step:
  assumes "recorded st e"
  shows "recorded (scan_step st e') e"
proof -
  have seen: "map_of (firstSeenOrder (scan_step st e')) a \<noteq> None" if "map_of (firstSeenOrder st) a \<noteq> None" for a
    using that touch_seen(1) by (simp add: scan_step_def Let_def del: not_None_eq)
  show ?thesis
    using assms seen
    by (auto intro!: add_source_keeps simp: scan_step_def recorded_def Let_def update_conv' split: option.splits)
qed

lemma recorded_scan: "e \<in> set ev \<Longrightarrow> \<not> skipped e \<Longrightarrow> recorded (scan_evidence ev) e"
  by (induction ev rule: rev_induct) (auto simp: scan_snoc recorded_self recorded_step)

lemma normalizePair_eq:
  "normalizePair a b = normalizePair c d \<longleftrightarrow> a = c \<and> b = d \<or> a = d \<and> b = c"
  by (auto simp: normalizePair_def)

lemma touch_idle: "map_of (firstSeenOrder st) a \<noteq> None \<Longrightarrow> touch a st = st"
  by (auto simp: touch_def)

lemma scan_step_redelivered:
  assumes "recorded st e" and "redelivers e e'" and "\<not> skipped e'"
  shows "scan_step st e' = st\<lparr>streamIndex := streamIndex st + 1\<rparr>"
proof -
  let ?k = "normalizePair (meAddressA e') (meAddressB e')"
  obtain pe c where pe: "map_of (pairs st) ?k = Some pe"
    and c: "map_of (peBySource pe) (sourceKey e') = Some c" "meConfidence e' \<le> c"
    using assms(1,2) by (auto simp: recorded_def redelivers_def)
  have "touch (meAddressB e') (touch (meAddressA e') st) = st"
    using assms(1,2) by (auto simp: recorded_def redelivers_def normalizePair_eq touch_idle)
  moreover have "add_source (sourceKey e') (meConfidence e') (peBySource pe) = peBySource pe"
    using c by (simp add: add_source_def)
  moreover have "AList.update ?k pe (pairs st) = pairs st" using pe by (rule update_triv)
  ultimately show ?thesis
    using assms(3) pe by (simp add: scan_step_def skipped_def Let_def)
qed

lemma scan_redelivered:
  assumes "\<forall>e' \<in> set dups. skipped e' \<or> (\<exists>e \<in> set ev. \<not> skipped e \<and> redelivers e e')"
  shows "\<exists>n. scan_evidence (ev @ dups) = (scan_evidence ev)\<lparr>streamIndex := n\<rparr>"
  using assms
proof (induction dups rule: rev_induct)
  case (snoc e' dups)
  then obtain n where n: "scan_evidence (ev @ dups) = (scan_evidence ev)\<lparr>streamIndex := n\<rparr>" by auto
  show ?case
  proof (cases "skipped e'")
    case True
    then show ?thesis using n by (auto simp: scan_snoc scan_step_skipped simp flip: append_assoc)
  next
    case False
    with snoc.prems obtain e where "e \<in> set ev" "\<not> skipped e" "redelivers e e'" by auto
    then have "recorded (scan_evidence (ev @ dups)) e" by (intro recorded_scan) auto
    from scan_step_redelivered [OF this \<open>redelivers e e'\<close> False]
    show ?thesis by (auto simp: scan_snoc n simp flip: append_assoc)
  qed
next
  case Nil
  show ?case by (intro exI [of _ "streamIndex (scan_evidence ev)"]) simp
qed

lemma Replay_scan_cong:
  assumes "firstSeenOrder (scan_evidence ev) = firstSeenOrder (scan_evidence ev')"
    and "pairs (scan_evidence ev) = pairs (scan_evidence ev')"
  shows "Replay ro ev = Replay ro ev'"
  using assms by (simp add: Replay_def Let_def)


section \<open>The abstract partition\<close>

text \<open>
  The specification of replay: one cluster per component of the evidence graph, founded by
  the component's address that the evidence mentions first.
\<close>

definition founder :: "MergeEvidence list \<Rightarrow> string \<Rightarrow> bool" where
  "founder ev a \<longleftrightarrow> a \<in> set (evidence_addresses ev) \<and>
     hd (filter (\<lambda>b. (a, b) \<in> conn (evidence_edges ev)) (evidence_addresses ev)) = a"

definition cluster_view :: "Result \<Rightarrow> string \<times> string \<times> int \<times> string set" where
  "cluster_view r = (rClusterID r, rAnchorAddress r, rSize r, set (member_addresses r))"

definition spec_clusters :: "MergeEvidence list \<Rightarrow> (string \<times> string \<times> int \<times> string set) set" where
  "spec_clusters ev =
     (\<lambda>a. (deriveClusterID a, a, int (card (component ev a)), component ev a)) ` Collect (founder ev)"

lemma hd_filter_first:
  assumes "a \<in> set xs" and "P a" and "distinct xs"
    and "\<And>i j. i < length xs \<Longrightarrow> j < length xs \<Longrightarrow> xs ! i = a \<Longrightarrow> P (xs ! j) \<Longrightarrow> i \<le> j"
  shows "hd (filter P xs) = a"
proof -
  obtain i where i: "i < length xs" "xs ! i = a" using assms(1) by (auto simp: in_set_conv_nth)
  have "\<not> P x" if "x \<in> set (take i xs)" for x
  proof
    assume "P x"
    from that obtain j where "j < i" "xs ! j = x" using i by (auto simp: in_set_conv_nth)
    with assms(4) [of i j] i \<open>P x\<close> show False by simp
  qed
  then have "filter P (take i xs) = []" by (simp add: filter_empty_conv)
  moreover have "xs = take i xs @ a # drop (Suc i) xs" using i id_take_nth_drop by fastforce
  ultimately show ?thesis using assms(2) by (metis append_Nil filter.simps(2) filter_append list.sel(1))
qed

lemma component_sub: "component ev x \<subseteq> set (evidence_addresses ev)"
  by (auto simp: component_def)

lemma component_eq: "(x, y) \<in> conn (evidence_edges ev) \<Longrightarrow> component ev x = component ev y"
  unfolding component_def by (blast intro: conn_sym conn_trans)

lemma result_founder:
  assumes "result_ok ev adj r"
  shows "founder ev (rAnchorAddress r)"
proof -
  let ?a = "rAnchorAddress r" and ?as = "evidence_addresses ev"
  have a: "?a \<in> component ev ?a" and min: "\<forall>b \<in> component ev ?a.
      first_seen (firstSeenOrder (scan_evidence ev)) ?a \<le> first_seen (firstSeenOrder (scan_evidence ev)) b"
    using assms by (auto simp: result_ok_def)
  have mem: "?a \<in> set ?as" using a component_sub by blast
  have "hd (filter (\<lambda>b. (?a, b) \<in> conn (evidence_edges ev)) ?as) = ?a"
  proof (rule hd_filter_first [OF mem _ distinct_evidence_addresses])
    fix i j assume ij: "i < length ?as" "j < length ?as" "?as ! i = ?a" "(?a, ?as ! j) \<in> conn (evidence_edges ev)"
    then have "?as ! j \<in> component ev ?a" by (simp add: component_def)
    with min ij(1-3) show "i \<le> j" by (metis first_seen_nth)
  qed simp
  with mem show ?thesis by (simp add: founder_def)
qed

lemma founder_unique:
  assumes "founder ev a" and "founder ev b" and "(a, b) \<in> conn (evidence_edges ev)"
  shows "a = b"
proof -
  have "(a, c) \<in> conn (evidence_edges ev) \<longleftrightarrow> (b, c) \<in> conn (evidence_edges ev)" for c
    using assms(3) by (blast intro: conn_sym conn_trans)
  with assms(1,2) show ?thesis by (simp add: founder_def)
qed

lemma result_view:
  assumes "result_ok ev adj r"
  shows "cluster_view r = (deriveClusterID (rAnchorAddress r), rAnchorAddress r,
    int (card (component ev (rAnchorAddress r))), component ev (rAnchorAddress r))"
proof -
  have "length (rMembers r) = card (set (member_addresses r))"
    using assms distinct_card [of "member_addresses r"] by (simp add: result_ok_def) (simp add: member_addresses_def)
  with assms show ?thesis by (simp add: cluster_view_def result_ok_def)
qed

lemma views_are_spec:
  assumes ok: "\<forall>r \<in> set rs. result_ok ev adj r"
    and all: "set (concat (map member_addresses rs)) = set (evidence_addresses ev)"
  shows "cluster_view ` set rs = spec_clusters ev"
proof -
  have "\<exists>r \<in> set rs. rAnchorAddress r = a" if f: "founder ev a" for a
  proof -
    from f all obtain r where r: "r \<in> set rs" "a \<in> set (member_addresses r)" by (auto simp: founder_def)
    then have "a \<in> component ev (rAnchorAddress r)" using ok by (auto simp: result_ok_def)
    then have "(rAnchorAddress r, a) \<in> conn (evidence_edges ev)" by (simp add: component_def)
    with r ok f result_founder show ?thesis by (blast intro: founder_unique)
  qed
  moreover have "founder ev (rAnchorAddress r)" if "r \<in> set rs" for r using that ok result_founder by blast
  ultimately have "rAnchorAddress ` set rs = Collect (founder ev)" by blast
  moreover have "cluster_view ` set rs = (\<lambda>a. (deriveClusterID a, a, int (card (component ev a)), component ev a)) `
      (rAnchorAddress ` set rs)"
    unfolding image_image using ok result_view by (intro image_cong) auto
  ultimately show ?thesis by (simp add: spec_clusters_def)
qed

lemma Replay_refines:
  assumes "any_order ro"
  shows "\<exists>rs. Replay ro ev = Some rs \<and> cluster_view ` set rs = spec_clusters ev \<and>
    distinct (concat (map member_addresses rs)) \<and>
    set (concat (map member_addresses rs)) = Field (evidence_edges ev)"
proof (rule Replay_spec [OF assms, of ev])
  fix rs adj
  assume "Replay ro ev = Some rs" "\<forall>r \<in> set rs. result_ok ev adj r"
    "distinct (concat (map member_addresses rs))"
    "set (concat (map member_addresses rs)) = set (evidence_addresses ev)"
  then show ?thesis using views_are_spec [of rs ev adj] set_evidence_addresses [of ev] by auto
qed


lemma Replay_components:
  assumes "any_order ro"
  shows "\<exists>rs. Replay ro ev = Some rs \<and>
    distinct (concat (map member_addresses rs)) \<and>
    set (concat (map member_addresses rs)) = Field (evidence_edges ev) \<and>
    (\<forall>r \<in> set rs. \<forall>x \<in> set (member_addresses r). \<forall>y.
       y \<in> set (member_addresses r) \<longleftrightarrow>
         y \<in> Field (evidence_edges ev) \<and> (x, y) \<in> conn (evidence_edges ev))"
proof (rule Replay_spec [OF assms, of ev])
  fix rs adj
  assume R: "Replay ro ev = Some rs" and ok: "\<forall>r \<in> set rs. result_ok ev adj r"
    and D: "distinct (concat (map member_addresses rs))"
    and S: "set (concat (map member_addresses rs)) = set (evidence_addresses ev)"
  have "y \<in> set (member_addresses r) \<longleftrightarrow> y \<in> Field (evidence_edges ev) \<and> (x, y) \<in> conn (evidence_edges ev)"
    if "r \<in> set rs" "x \<in> set (member_addresses r)" for r x y
  proof -
    have m: "set (member_addresses r) = component ev (rAnchorAddress r)" using ok that by (auto simp: result_ok_def)
    then have "component ev (rAnchorAddress r) = component ev x"
      using that(2) by (intro component_eq) (simp add: component_def)
    with m show ?thesis by (simp add: component_def set_evidence_addresses)
  qed
  with R D S set_evidence_addresses [of ev] show ?thesis by auto
qed


section \<open>Properties of replay\<close>

text \<open>Evidence used to instantiate the properties: three addresses joined by two transactions.\<close>

definition sample_entry :: "int \<Rightarrow> string \<Rightarrow> string \<Rightarrow> string \<Rightarrow> float64 \<Rightarrow> MergeEvidence" where
  "sample_entry op a b tx c =
     \<lparr>meChainID = ''eth'', meOpID = op, meAddressA = a, meAddressB = b, meHeuristicKey = ''common_input'',
      meSourceTxID = Some tx, meSourceBlockHash = Some ''h'', meSourceBlockHeight = Some 7,
      meConfidence = c, meStatus = EvidenceStatusActive, meInvalidatedReason = None, meCreatedAt = 0,
      meCreatedBy = ''engine''\<rparr>"

definition sample_evidence :: "MergeEvidence list" where
  "sample_evidence = [sample_entry 1 ''A'' ''B'' ''t1'' 1, sample_entry 2 ''C'' ''B'' ''t2'' (1/2),
     sample_entry 3 ''X'' ''X'' ''t3'' 1, sample_entry 4 ''P'' ''Q'' ''t4'' (1/4)]"

lemmas sample_simps = sample_evidence_def sample_entry_def skipped_def EvidenceStatusActive_def

text \<open>
  C1: replay always returns, whatever order the Go runtime iterates the maps in, and its
  clusters partition the addresses of the active, non-reflexive evidence: every such address is a
  member of exactly one cluster, and two addresses share a cluster exactly when a chain of
  evidence links them.
\<close>

theorem replay_partition:
  assumes "any_order ro"
  shows "\<exists>rs. Replay ro ev = Some rs \<and>
    distinct (concat (map member_addresses rs)) \<and>
    set (concat (map member_addresses rs)) = Field (evidence_edges ev) \<and>
    (\<forall>r \<in> set rs. \<forall>x \<in> set (member_addresses r). \<forall>y.
       y \<in> set (member_addresses r) \<longleftrightarrow>
         y \<in> Field (evidence_edges ev) \<and> (x, y) \<in> conn (evidence_edges ev))"
  by (rule Replay_components [OF assms])

theorem replay_partition_witness:
  "any_order reverse_order \<and> (\<exists>rs. Replay reverse_order sample_evidence = Some rs \<and>
    set (concat (map member_addresses rs)) = Field (evidence_edges sample_evidence))"
  using replay_partition [OF any_order_reverse, of sample_evidence] any_order_reverse by blast



lemma result_confidences:
  assumes "any_order ro" and "unit_conf ev" and "result_ok ev adj r"
    and W: "adj_weights adj \<subseteq> ceConfidence ` set (combined_edges ro (pairs (scan_evidence ev)))"
  shows "\<forall>m \<in> set (rMembers r). 0 \<le> mConfidence m \<and> mConfidence m \<le> 1"
    and "\<lparr>mAddress = rAnchorAddress r, mConfidence = 1\<rparr> \<in> set (rMembers r)"
    and "int (length (rMembers r)) < 2 ^ 53 \<Longrightarrow>
      0 \<le> rRepresentativeConfidence r \<and> rRepresentativeConfidence r \<le> 1"
proof -
  have "\<forall>w \<in> adj_weights adj. 0 \<le> w \<and> w \<le> 1" using W combined_edges_unit [OF assms(1,2)] by auto
  note unit = bottleneck_unit [OF this]
  then show 1: "\<forall>m \<in> set (rMembers r). 0 \<le> mConfidence m \<and> mConfidence m \<le> 1"
    using assms(3) by (auto simp: result_ok_def)
  obtain m where "m \<in> set (rMembers r)" "mAddress m = rAnchorAddress r"
    using assms(3) by (auto simp: result_ok_def member_addresses_def)
  moreover from this have "m = \<lparr>mAddress = rAnchorAddress r, mConfidence = 1\<rparr>"
    using assms(3) by (auto simp: result_ok_def intro: Member.equality)
  ultimately show 2: "\<lparr>mAddress = rAnchorAddress r, mConfidence = 1\<rparr> \<in> set (rMembers r)" by simp
  assume "int (length (rMembers r)) < 2 ^ 53"
  moreover have "rMembers r \<noteq> []" using 2 by auto
  ultimately show "0 \<le> rRepresentativeConfidence r \<and> rRepresentativeConfidence r \<le> 1"
    using fmean_unit [OF 1] assms(3) by (simp add: result_ok_def)
qed

text \<open>
  C23: when the confidences of the evidence are probabilities, so is the confidence of every
  member and the representative confidence of every cluster (of fewer than \<open>2^53\<close> members), and the anchor of a
  cluster is a member of it with confidence 1. Rounding of the floating point operations does not lead out
  of the unit interval.
\<close>

theorem replay_confidence:
  assumes "any_order ro" and "unit_conf ev"
  shows "\<exists>rs. Replay ro ev = Some rs \<and>
    (\<forall>r \<in> set rs. (\<forall>m \<in> set (rMembers r). 0 \<le> mConfidence m \<and> mConfidence m \<le> 1) \<and>
       \<lparr>mAddress = rAnchorAddress r, mConfidence = 1\<rparr> \<in> set (rMembers r) \<and>
       (rSize r < 2 ^ 53 \<longrightarrow> 0 \<le> rRepresentativeConfidence r \<and> rRepresentativeConfidence r \<le> 1))"
proof (rule Replay_spec [OF assms(1), of ev])
  fix rs adj
  assume R: "Replay ro ev = Some rs" and ok: "\<forall>r \<in> set rs. result_ok ev adj r"
    and W: "adj_weights adj \<subseteq> ceConfidence ` set (combined_edges ro (pairs (scan_evidence ev)))"
  have "rSize r = int (length (rMembers r))" if "r \<in> set rs" for r using ok that by (simp add: result_ok_def)
  with R ok result_confidences [OF assms _ W] show ?thesis by auto
qed

theorem replay_confidence_witness:
  "\<exists>rs. Replay insertion_order sample_evidence = Some rs \<and>
    list_all (\<lambda>r. list_all (\<lambda>m. 0 \<le> mConfidence m \<and> mConfidence m \<le> 1) (rMembers r)) rs"
proof -
  have "unit_conf sample_evidence" by (simp add: unit_conf_def sample_simps)
  from replay_confidence [OF any_order_insertion this] show ?thesis by (auto simp: list_all_iff)
qed

text \<open>
  C24: replay is idempotent under redelivery. Evidence appended for a pair and a source that
  the log already holds with at least that confidence (and evidence that is skipped) leaves the
  result exactly as it was, confidences included.
\<close>

theorem replay_redelivery:
  assumes "\<forall>e' \<in> set dups. skipped e' \<or> (\<exists>e \<in> set ev. \<not> skipped e \<and> redelivers e e')"
  shows "Replay ro (ev @ dups) = Replay ro ev"
  using scan_redelivered [OF assms] by (auto intro: Replay_scan_cong)

theorem replay_redelivery_witness:
  "Replay insertion_order (sample_evidence @ [sample_entry 9 ''B'' ''A'' ''t1'' (1/2)]) =
   Replay insertion_order sample_evidence"
  by (rule replay_redelivery) (simp add: sample_simps redelivers_def sourceKey_def normalizePair_def)

text \<open>
  Invalidated evidence and evidence that links an address with itself has no effect at
  all: replay of the log is replay of its active, non-reflexive entries. Invalidating the evidence of an
  orphaned block therefore yields the clusters that the remaining evidence supports.
\<close>

theorem replay_skips: "Replay ro (filter (\<lambda>e. \<not> skipped e) ev) = Replay ro ev"
  by (intro Replay_scan_cong) (simp_all add: scan_filter)

text \<open>
  Noisy-OR of a single source is not the source's confidence in \<open>float64\<close>: for 0.1 it
  is one unit in the last place off, although the comment on \<open>noisyOR\<close> says that a single
  source passes unchanged.
\<close>

theorem noisyOR_single_source_drifts: "noisyOR [(''t1'', round64 (1 / 10))] \<noteq> round64 (1 / 10)"
  by code_simp

text \<open>
  Noisy-OR over three sources depends on the order in which the map is iterated, since
  floating point multiplication is not associative: two runs over the same evidence can store different
  confidences.
\<close>

theorem noisyOR_order_sensitive:
  "\<exists>bs. noisyOR (rev bs) \<noteq> noisyOR bs \<and> distinct (map fst bs)"
proof -
  have "noisyOR (rev [(''t1'', round64 (2/10)), (''t2'', round64 (6/10)), (''t3'', round64 (8/10))]) \<noteq>
    noisyOR [(''t1'', round64 (2/10)), (''t2'', round64 (6/10)), (''t3'', round64 (8/10))]" by code_simp
  then show ?thesis by (intro exI conjI) (assumption, simp)
qed

end
