(* ===== verification/PgNumeric.thy ===== *)
theory PgNumeric
  imports Domain
begin

text \<open>
  \<open>internal/pgnumeric/pgnumeric.go\<close>: lossless conversion between \<open>pgtype.Numeric\<close> (a
  big integer scaled by a power of ten) and \<open>big.Int\<close>.
\<close>

record Numeric =
  nuInt :: "int option"
  nuExp :: int
  nuValid :: bool

definition ToBigInt :: "Numeric \<Rightarrow> error + int" where
  "ToBigInt n =
     (if \<not> nuValid n then Inl (ErrMsg ''pgnumeric: value is NULL'')
      else case nuInt n of
          None \<Rightarrow> Inl (ErrMsg ''pgnumeric: value is non-finite (NaN/Inf)'')
        | Some i \<Rightarrow>
            if nuExp n = 0 then Inr i
            else if 0 < nuExp n then Inr (i * 10 ^ nat (nuExp n))
            else Inl (ErrMsg (''pgnumeric: fractional scale (exp='' @ itoa (nuExp n) @ ''), expected an integral NUMERIC'')))"

definition FromBigInt :: "int option \<Rightarrow> error + Numeric" where
  "FromBigInt v =
     (case v of
        None \<Rightarrow> Inl (ErrMsg ''pgnumeric: value is required (nil)'')
      | Some i \<Rightarrow> Inr \<lparr>nuInt = Some i, nuExp = 0, nuValid = True\<rparr>)"

text \<open>The value a valid numeric denotes.\<close>

definition denotes :: "Numeric \<Rightarrow> rat \<Rightarrow> bool" where
  "denotes n v \<longleftrightarrow> nuValid n \<and> (\<exists>i. nuInt n = Some i \<and> v = of_int i * 10 powi nuExp n)"

lemma ToBigInt_denotes:
  assumes "denotes n (of_int v)" and "0 \<le> nuExp n"
  shows "ToBigInt n = Inr v"
proof -
  obtain i where i: "nuValid n" "nuInt n = Some i" "(of_int v :: rat) = of_int i * 10 powi nuExp n"
    using assms(1) by (auto simp: denotes_def)
  have "(of_int v :: rat) = of_int (i * 10 ^ nat (nuExp n))"
    using i(3) assms(2) by (simp add: power_int_def)
  then have "v = i * 10 ^ nat (nuExp n)" by (simp only: of_int_eq_iff)
  with i assms(2) show ?thesis by (auto simp: ToBigInt_def)
qed

text \<open>
  The conversion loses nothing. An amount that is encoded decodes to itself, and a numeric decodes
  exactly when it is present, finite and has no fractional scale, to the integer it denotes.
\<close>

theorem pgnumeric_roundtrip:
  "(case FromBigInt (Some v) of Inl e \<Rightarrow> Inl e | Inr n \<Rightarrow> ToBigInt n) = Inr v \<and>
   ((\<exists>i. ToBigInt n = Inr i) \<longleftrightarrow> nuValid n \<and> nuInt n \<noteq> None \<and> 0 \<le> nuExp n) \<and>
   (\<forall>i. ToBigInt n = Inr i \<longrightarrow> denotes n (of_int i))"
  by (auto simp: FromBigInt_def ToBigInt_def denotes_def power_int_def split: option.splits if_splits)

theorem pgnumeric_roundtrip_witness:
  "ToBigInt \<lparr>nuInt = Some 7, nuExp = 3, nuValid = True\<rparr> = Inr 7000 \<and>
   denotes \<lparr>nuInt = Some 7, nuExp = 3, nuValid = True\<rparr> 7000"
proof -
  have 1: "ToBigInt \<lparr>nuInt = Some 7, nuExp = 3, nuValid = True\<rparr> = Inr 7000" by (simp add: ToBigInt_def)
  moreover have "denotes \<lparr>nuInt = Some 7, nuExp = 3, nuValid = True\<rparr> (of_int 7000)"
    using pgnumeric_roundtrip [of 0 "\<lparr>nuInt = Some 7, nuExp = 3, nuValid = True\<rparr>"] 1 by blast
  ultimately show ?thesis by simp
qed

end
