(* ===== verification/Database.thy ===== *)
theory Database
  imports PgNumeric
begin

text \<open>
  The PostgreSQL database behind the stores: the tables of
  \<open>migrations/0001_init.sql\<close> as lists of rows, and the three ways the Go code runs SQL
  (a single statement, an explicit transaction, a batch that is one implicit transaction).

  The database and the driver are not part of the sources. What the code relies on is kept
  abstract: the schedule decides for every statement whether it succeeds, fails without effect, or
  takes effect and loses its reply, and the record \<open>driver\<close> holds the functions by
  which \<open>pgx\<close> and PostgreSQL convert and order values. \<open>driver_ok\<close> states what is
  documented of them.
\<close>

section \<open>State\<close>

datatype outcome = Done | Failed | Lost

record driver =
  numericOf :: "float64 \<Rightarrow> rat option"
  floatOf :: "rat \<Rightarrow> float64"
  scanInteger :: "int \<Rightarrow> Numeric"
  jsonb :: "json \<Rightarrow> json"
  heapEvidence :: "MergeEvidence list \<Rightarrow> MergeEvidence list"
  heapLabels :: "Label list \<Rightarrow> Label list"
  heapSweep :: "SweepTarget list \<Rightarrow> SweepTarget list"
  heapStrings :: "string list \<Rightarrow> string list"
  collateStrings :: "string list \<Rightarrow> string list"

text \<open>
  \<open>numericOf\<close> is the value a \<open>float64\<close> parameter takes in a \<open>NUMERIC(4,3)\<close>
  column, \<open>None\<close> when the column rejects it; \<open>floatOf\<close> scans such a column into a
  \<open>float64\<close>. \<open>scanInteger\<close> is how an integral \<open>NUMERIC\<close> arrives, as a \<open>pgtype.Numeric\<close> of that value,
  and \<open>jsonb\<close> the normal form in which a \<open>JSONB\<close> column keeps a document. The \<open>heap\<close> functions are the row order of a \<open>SELECT\<close> without
  \<open>ORDER BY\<close>, and \<open>collateStrings\<close> is \<open>ORDER BY\<close> on a text column. The column holds
  probabilities as probabilities, and row orders are permutations.
\<close>

definition driver_ok :: "driver \<Rightarrow> bool" where
  "driver_ok d \<longleftrightarrow>
     (\<forall>c. 0 \<le> c \<and> c \<le> 1 \<longrightarrow> (\<exists>q. numericOf d c = Some q \<and> 0 \<le> q \<and> q \<le> 1)) \<and>
     (\<forall>q. 0 \<le> q \<and> q \<le> 1 \<longrightarrow> 0 \<le> floatOf d q \<and> floatOf d q \<le> 1) \<and>
     (\<forall>v. denotes (scanInteger d v) (of_int v) \<and> 0 \<le> nuExp (scanInteger d v)) \<and>
     (\<forall>l. mset (heapEvidence d l) = mset l) \<and> (\<forall>l. mset (heapLabels d l) = mset l) \<and>
     (\<forall>l. mset (heapSweep d l) = mset l) \<and> (\<forall>l. mset (heapStrings d l) = mset l) \<and>
     (\<forall>l. mset (collateStrings d l) = mset l)"

record ChainRow =
  chChainID :: string
  chModelType :: string
  chConfig :: RawMessage
  chEnabled :: bool

record HeuristicRow =
  hrKey :: string
  hrAppliesTo :: string
  hrDefaultConfidence :: rat

record ChainHeuristicRow =
  chhChainID :: string
  chhKey :: string
  chhEnabled :: bool
  chhConfidenceOverride :: "rat option"
  chhParams :: RawMessage

record CursorRow =
  crChainID :: string
  crSource :: string
  crPosition :: string
  crUpdatedAt :: int

record ExcludedRow =
  exChainID :: string
  exTxID :: string
  exReason :: string
  exConfidence :: "rat option"
  exSignal :: "string option"

record AuditRow =
  auEventID :: int
  auActor :: string
  auAction :: string
  auTarget :: json
  auRationale :: string
  auAt :: int

record db =
  schedule :: "outcome list"
  drv :: driver
  clock :: int
  partitions :: "string list"
  tblChain :: "ChainRow list"
  tblHeuristic :: "HeuristicRow list"
  tblChainHeuristic :: "ChainHeuristicRow list"
  tblDelta :: "BalanceDelta list"
  tblCursor :: "CursorRow list"
  tblAddress :: "Address list"
  mergeOpSeq :: int
  tblEvidence :: "MergeEvidence list"
  tblCluster :: "Cluster list"
  tblMembership :: "ClusterMembership list"
  labelSeq :: int
  tblLabel :: "Label list"
  tblSweep :: "SweepTarget list"
  tblExcluded :: "ExcludedRow list"
  auditSeq :: int
  tblAudit :: "AuditRow list"

type_synonym 'a sql = "(db, 'a) io"


section \<open>Statements, transactions and batches\<close>

text \<open>
  A statement maps the state to its reply (a constraint violation is an error) and the new
  state. A sequence value that a failed statement drew stays drawn, so the state of a
  failing statement counts as well.
\<close>

definition advance :: "db \<Rightarrow> db" where
  "advance s = s\<lparr>schedule := tl (schedule s)\<rparr>"

definition next_outcome :: "db \<Rightarrow> outcome" where
  "next_outcome s = (if schedule s = [] then Done else hd (schedule s))"

definition stmt :: "(db \<Rightarrow> (string + 'a) \<times> db) \<Rightarrow> 'a sql" where
  "stmt f s =
     (case next_outcome s of
        Failed \<Rightarrow> (Inl (ErrDb ''statement failed''), advance s)
      | Done \<Rightarrow> (case f (advance s) of (Inl e, s') \<Rightarrow> (Inl (ErrDb e), s') | (Inr x, s') \<Rightarrow> (Inr x, s'))
      | Lost \<Rightarrow> (case f (advance s) of (Inl e, s') \<Rightarrow> (Inl (ErrDb e), s')
                 | (Inr x, s') \<Rightarrow> (Inl (ErrDb ''connection lost''), s')))"

definition query :: "(db \<Rightarrow> 'a) \<Rightarrow> 'a sql" where
  "query f = stmt (\<lambda>s. (Inr (f s), s))"

text \<open>Rolling back restores the tables; the schedule moves on and sequences are not rolled back.\<close>

definition rollback :: "db \<Rightarrow> db \<Rightarrow> db" where
  "rollback s0 s = s0\<lparr>schedule := schedule s, mergeOpSeq := mergeOpSeq s, labelSeq := labelSeq s,
     auditSeq := auditSeq s\<rparr>"

text \<open>
  \<open>tx, err := pool.Begin(ctx)\<close>, \<open>defer tx.Rollback(ctx)\<close>, the body, \<open>tx.Commit(ctx)\<close>:
  an error anywhere before the commit takes the rollback. A commit whose reply is lost has happened.
\<close>

definition transaction :: "string \<Rightarrow> string \<Rightarrow> 'a sql \<Rightarrow> 'a sql" where
  "transaction beginMsg commitMsg body s =
     (case wrap beginMsg (stmt (\<lambda>s. (Inr (), s))) s of
        (Inl e, s1) \<Rightarrow> (Inl e, s1)
      | (Inr _, s1) \<Rightarrow>
          (case body s1 of
             (Inl e, s2) \<Rightarrow> (Inl e, rollback s1 s2)
           | (Inr x, s2) \<Rightarrow>
               (case next_outcome s2 of
                  Done \<Rightarrow> (Inr x, advance s2)
                | Failed \<Rightarrow> (Inl (ErrWrap commitMsg (ErrDb ''commit failed'')), rollback s1 (advance s2))
                | Lost \<Rightarrow> (Inl (ErrWrap commitMsg (ErrDb ''connection lost'')), advance s2))))"

text \<open>
  \<open>pool.SendBatch\<close>: the queued statements run as one implicit transaction and their
  replies are read in order.
\<close>

definition send_batch :: "'a sql \<Rightarrow> 'a sql" where
  "send_batch body s =
     (case body s of (Inl e, s1) \<Rightarrow> (Inl e, rollback s s1) | (Inr x, s1) \<Rightarrow> (Inr x, s1))"


section \<open>Reasoning about statements\<close>

lemma stmt_Inr: "stmt f s = (Inr x, s') \<longleftrightarrow> f (advance s) = (Inr x, s') \<and> next_outcome s = Done"
  by (auto simp: stmt_def split: outcome.splits prod.splits sum.splits)

lemma query_Inr: "query f s = (Inr x, s') \<longleftrightarrow> x = f (advance s) \<and> s' = advance s \<and> next_outcome s = Done"
  by (auto simp: query_def stmt_Inr)

lemma advance_fields [simp]:
  "drv (advance s) = drv s" "clock (advance s) = clock s" "partitions (advance s) = partitions s"
  "tblChain (advance s) = tblChain s" "tblHeuristic (advance s) = tblHeuristic s"
  "tblChainHeuristic (advance s) = tblChainHeuristic s" "tblDelta (advance s) = tblDelta s"
  "tblCursor (advance s) = tblCursor s" "tblAddress (advance s) = tblAddress s"
  "mergeOpSeq (advance s) = mergeOpSeq s" "tblEvidence (advance s) = tblEvidence s"
  "tblCluster (advance s) = tblCluster s" "tblMembership (advance s) = tblMembership s"
  "labelSeq (advance s) = labelSeq s" "tblLabel (advance s) = tblLabel s" "tblSweep (advance s) = tblSweep s"
  "tblExcluded (advance s) = tblExcluded s" "auditSeq (advance s) = auditSeq s" "tblAudit (advance s) = tblAudit s"
  by (simp_all add: advance_def)

text \<open>A predicate that does not look at the schedule.\<close>

definition stable :: "(db \<Rightarrow> bool) \<Rightarrow> bool" where
  "stable I \<longleftrightarrow> (\<forall>s l. I (s\<lparr>schedule := l\<rparr>) = I s)"

lemma stable_advance: "stable I \<Longrightarrow> I (advance s) = I s"
  by (simp add: stable_def advance_def)

lemma keeps_stmt:
  assumes "stable I" and "\<And>s. I s \<Longrightarrow> I (snd (f s))"
  shows "keeps I (stmt f)"
proof (rule keepsI)
  fix s assume "I s"
  then have s1: "I (advance s)" using assms(1) by (simp add: stable_advance)
  then have "I (snd (f (advance s)))" by (rule assms(2))
  with s1 show "I (snd (stmt f s))"
    by (auto simp: stmt_def split: outcome.splits prod.splits sum.splits)
qed

lemma keeps_query [keep_rules]: "stable I \<Longrightarrow> keeps I (query f)"
  unfolding query_def by (rule keeps_stmt) simp_all

text \<open>Code that draws no sequence value: rolling it back leaves only the schedule moved on.\<close>

definition seqs :: "db \<Rightarrow> int \<times> int \<times> int" where
  "seqs s = (mergeOpSeq s, labelSeq s, auditSeq s)"

definition no_draw :: "'a sql \<Rightarrow> bool" where
  "no_draw body \<longleftrightarrow> (\<forall>k. keeps (\<lambda>s. seqs s = k) body)"

lemma rollback_no_draw:
  assumes "no_draw body" and "body s = (r, s2)"
  shows "rollback s s2 = s\<lparr>schedule := schedule s2\<rparr>"
proof -
  have "keeps (\<lambda>t. seqs t = seqs s) body" using assms(1) unfolding no_draw_def by blast
  then have "seqs s2 = seqs s" using assms(2) by (force simp: keeps_def)
  then show ?thesis by (cases s) (simp add: rollback_def seqs_def)
qed

lemma keeps_send_batch:
  assumes "stable I" and "no_draw body" and "keeps I body"
  shows "keeps I (send_batch body)"
proof (rule keepsI)
  fix s assume s: "I s"
  obtain r s1 where 1: "body s = (r, s1)" by fastforce
  with s assms have "I s1" by (metis keepsD)
  with s assms(1) show "I (snd (send_batch body s))"
    by (auto simp: send_batch_def 1 rollback_no_draw [OF assms(2) 1] stable_def split: sum.splits)
qed

text \<open>
  Inside a transaction the tables may pass through states that no invariant covers; what
  counts is the state at a successful end of the body.
\<close>

lemma transaction_not_begun:
  "next_outcome s \<noteq> Done \<Longrightarrow> \<exists>e. transaction b c body s = (Inl e, advance s)"
  by (cases "next_outcome s") (simp_all add: transaction_def stmt_def wrap_def)

lemma transaction_begun:
  assumes "next_outcome s = Done"
  shows "transaction b c body s =
    (case body (advance s) of
       (Inl e, s2) \<Rightarrow> (Inl e, rollback (advance s) s2)
     | (Inr x, s2) \<Rightarrow>
         (case next_outcome s2 of
            Done \<Rightarrow> (Inr x, advance s2)
          | Failed \<Rightarrow> (Inl (ErrWrap c (ErrDb ''commit failed'')), rollback (advance s) (advance s2))
          | Lost \<Rightarrow> (Inl (ErrWrap c (ErrDb ''connection lost'')), advance s2)))"
proof -
  have 1: "wrap b (stmt (\<lambda>s. (Inr (), s))) s = (Inr (), advance s)" using assms by (simp add: stmt_Inr)
  show ?thesis unfolding transaction_def 1 by simp
qed

lemma transaction_cases:
  obtains (begin_failed) e where "transaction b c body s = (Inl e, advance s)"
  | (rolled_back) e r s2 where "body (advance s) = (r, s2)" and
      "transaction b c body s = (Inl e, rollback (advance s) s2) \<or>
       transaction b c body s = (Inl e, rollback (advance s) (advance s2))"
  | (committed) x s2 where "body (advance s) = (Inr x, s2)" and "snd (transaction b c body s) = advance s2"
proof (cases "next_outcome s = Done")
  case False
  then show ?thesis using that(1) transaction_not_begun by blast
next
  case True
  obtain r s2 where 2: "body (advance s) = (r, s2)" by fastforce
  note T = transaction_begun [OF True, of b c body, unfolded 2 prod.case]
  show ?thesis
  proof (cases r)
    case (Inl e)
    then show ?thesis using that(2) [OF 2, of e] T by simp
  next
    case (Inr x)
    with T show ?thesis
      by (cases "next_outcome s2")
        (use that(2) [OF 2, of "ErrWrap c (ErrDb ''commit failed'')"] that(3) 2 in simp_all)
  qed
qed

lemma transaction_Inr:
  "transaction b c body s = (Inr x, s') \<longleftrightarrow>
     next_outcome s = Done \<and>
     (\<exists>s2. body (advance s) = (Inr x, s2) \<and> next_outcome s2 = Done \<and> s' = advance s2)"
proof (cases "next_outcome s = Done")
  case False
  then show ?thesis using transaction_not_begun [of s b c body] by auto
next
  case True
  obtain r s2 where 2: "body (advance s) = (r, s2)" by fastforce
  note T = transaction_begun [OF True, of b c body, unfolded 2 prod.case]
  show ?thesis using True 2 T by (cases r; cases "next_outcome s2") auto
qed

lemma keeps_transaction:
  assumes "stable I" and "no_draw body"
    and body: "\<And>s x s2. I s \<Longrightarrow> body s = (Inr x, s2) \<Longrightarrow> I s2"
  shows "keeps I (transaction b c body)"
proof (rule keepsI)
  fix s assume "I s"
  then have s1: "I (advance s)" using assms(1) by (simp add: stable_advance)
  have rb: "I (rollback (advance s) s2) \<and> I (rollback (advance s) (advance s2))"
    if "body (advance s) = (r, s2)" for r s2
  proof -
    have "rollback (advance s) (advance s2) = (rollback (advance s) s2)\<lparr>schedule := tl (schedule s2)\<rparr>"
      by (simp add: rollback_def advance_def)
    then show ?thesis using s1 assms(1) rollback_no_draw [OF assms(2) that] by (simp add: stable_def)
  qed
  show "I (snd (transaction b c body s))"
  proof (cases rule: transaction_cases [of b c body s])
    case (committed x s2)
    then show ?thesis using body [OF s1] assms(1) by (simp add: stable_advance)
  qed (use s1 rb in auto)
qed

lemma send_batch_Inr: "send_batch body s = (Inr x, s') \<longleftrightarrow> body s = (Inr x, s')"
  by (auto simp: send_batch_def split: sum.splits prod.splits)

text \<open>Without faults a statement is its effect.\<close>

lemma no_faults [simp]: "schedule s = [] \<Longrightarrow> advance s = s \<and> next_outcome s = Done"
  by (simp add: advance_def next_outcome_def)

lemma stmt_no_faults:
  "schedule s = [] \<Longrightarrow> stmt f s = (case f s of (Inl e, s') \<Rightarrow> (Inl (ErrDb e), s') | (Inr x, s') \<Rightarrow> (Inr x, s'))"
  by (simp add: stmt_def)

lemma query_no_faults: "schedule s = [] \<Longrightarrow> query f s = (Inr (f s), s)"
  by (simp add: query_def stmt_no_faults)


section \<open>A sample database\<close>

text \<open>
  A driver that stores probabilities exactly and an empty database with the partitions of one
  chain, on which the properties are instantiated.
\<close>

definition sample_driver :: driver where
  "sample_driver = \<lparr>numericOf = (\<lambda>c. if \<bar>c\<bar> < 10 then Some c else None), floatOf = (\<lambda>q. q),
     scanInteger = (\<lambda>v. if 10000 dvd v then \<lparr>nuInt = Some (v div 10000), nuExp = 4, nuValid = True\<rparr>
        else \<lparr>nuInt = Some v, nuExp = 0, nuValid = True\<rparr>), jsonb = (\<lambda>j. j),
     heapEvidence = rev, heapLabels = rev, heapSweep = rev, heapStrings = rev, collateStrings = sort\<rparr>"

definition empty_db :: db where
  "empty_db = \<lparr>schedule = [], drv = sample_driver, clock = 0, partitions = [''eth''], tblChain = [], tblHeuristic = [],
     tblChainHeuristic = [], tblDelta = [], tblCursor = [], tblAddress = [], mergeOpSeq = 1, tblEvidence = [],
     tblCluster = [], tblMembership = [], labelSeq = 1, tblLabel = [], tblSweep = [], tblExcluded = [],
     auditSeq = 1, tblAudit = []\<rparr>"

lemma driver_ok_sample: "driver_ok sample_driver"
  by (auto simp: driver_ok_def sample_driver_def denotes_def power_int_def elim!: dvdE)

end
