(* ===== verification/AddressStore.thy ===== *)
theory AddressStore
  imports Database
begin

text \<open>
  \<open>internal/address/store.go\<close>: the address registry. Besides the operations, the lookups
  after each write, the uniqueness of registry rows, and that flags are never taken back:
  a hub stays a hub, a dust flag stays set, and the last-seen height never decreases.
\<close>

section \<open>Operations\<close>

definition at_address :: "string \<Rightarrow> string \<Rightarrow> Address \<Rightarrow> bool" where
  "at_address chainID addr a \<longleftrightarrow> adChainID a = chainID \<and> adAddress a = addr"

definition new_address :: "string \<Rightarrow> string \<Rightarrow> int \<Rightarrow> Address" where
  "new_address chainID addr h =
     \<lparr>adChainID = chainID, adAddress = addr, adFirstSeenHeight = Some h, adLastSeenHeight = Some h,
      adIsHub = False, adHubType = None, adHubConfidence = None, adDustFlag = False\<rparr>"

text \<open>\<open>GREATEST\<close> ignores \<open>NULL\<close>.\<close>

definition greatest :: "int option \<Rightarrow> int \<Rightarrow> int option" where
  "greatest old h = (case old of None \<Rightarrow> Some h | Some l \<Rightarrow> Some (max l h))"

definition upsert_row :: "string \<Rightarrow> string \<Rightarrow> int \<Rightarrow> Address list \<Rightarrow> Address list" where
  "upsert_row chainID addr h tbl =
     (if \<exists>a \<in> set tbl. at_address chainID addr a
      then map (\<lambda>a. if at_address chainID addr a then a\<lparr>adLastSeenHeight := greatest (adLastSeenHeight a) h\<rparr> else a) tbl
      else tbl @ [new_address chainID addr h])"

definition Upsert :: "string \<Rightarrow> string \<Rightarrow> int \<Rightarrow> unit sql" where
  "Upsert chainID addr blockHeight = wrap ''address: upsert'' (stmt (\<lambda>s.
     if chainID \<notin> set (partitions s) then (Inl ''no partition of relation address'', s)
     else (Inr (), s\<lparr>tblAddress := upsert_row chainID addr blockHeight (tblAddress s)\<rparr>)))"

definition find_address :: "db \<Rightarrow> string \<Rightarrow> string \<Rightarrow> Address option" where
  "find_address s chainID addr = List.find (at_address chainID addr) (tblAddress s)"

definition Get :: "string \<Rightarrow> string \<Rightarrow> Address option sql" where
  "Get chainID addr = wrap ''address: get'' (query (\<lambda>s.
     map_option (\<lambda>a. a\<lparr>adHubConfidence := map_option (floatOf (drv s)) (adHubConfidence a)\<rparr>)
       (find_address s chainID addr)))"

definition SetHub :: "string \<Rightarrow> string \<Rightarrow> string \<Rightarrow> float64 \<Rightarrow> unit sql" where
  "SetHub chainID addr hubType confidence = wrap ''address: set_hub'' (stmt (\<lambda>s.
     if \<exists>a \<in> set (tblAddress s). at_address chainID addr a
     then case numericOf (drv s) confidence of
         None \<Rightarrow> (Inl ''numeric field overflow'', s)
       | Some q \<Rightarrow> (Inr (), s\<lparr>tblAddress := map (\<lambda>a. if at_address chainID addr a
            then a\<lparr>adIsHub := True, adHubType := Some hubType, adHubConfidence := Some q\<rparr> else a) (tblAddress s)\<rparr>)
     else (Inr (), s)))"

definition SetDustFlag :: "string \<Rightarrow> string \<Rightarrow> unit sql" where
  "SetDustFlag chainID addr = wrap ''address: set_dust_flag'' (stmt (\<lambda>s.
     (Inr (), s\<lparr>tblAddress := map (\<lambda>a. if at_address chainID addr a then a\<lparr>adDustFlag := True\<rparr> else a) (tblAddress s)\<rparr>)))"

definition IsHub :: "string \<Rightarrow> string \<Rightarrow> bool sql" where
  "IsHub chainID addr = bnd (Get chainID addr) (\<lambda>r. case r of None \<Rightarrow> ret False | Some a \<Rightarrow> ret (adIsHub a))"


section \<open>Lookups after writes\<close>

definition hub_in :: "db \<Rightarrow> string \<Rightarrow> string \<Rightarrow> bool" where
  "hub_in s c a \<longleftrightarrow> (case find_address s c a of None \<Rightarrow> False | Some r \<Rightarrow> adIsHub r)"

definition outside_addresses :: "db \<Rightarrow> db" where
  "outside_addresses s = s\<lparr>schedule := [], tblAddress := []\<rparr>"

text \<open>A table rewritten row by row, keeping the keys.\<close>

lemma find_map_key:
  assumes "\<And>a. P (f a) = P a"
  shows "List.find P (map f tbl) = map_option f (List.find P tbl)"
  by (induction tbl) (auto simp: assms)

lemma at_address_eq: "at_address c a r \<Longrightarrow> at_address c' a' r \<longleftrightarrow> c' = c \<and> a' = a"
  by (auto simp: at_address_def)

lemma find_address_key: "List.find (at_address c a) tbl = Some r \<Longrightarrow> at_address c a r"
  by (auto simp: find_Some_iff)

lemma find_upsert_row:
  "List.find (at_address c' a') (upsert_row c a h tbl) =
     (if c' = c \<and> a' = a
      then Some (case List.find (at_address c a) tbl of
                   None \<Rightarrow> new_address c a h
                 | Some r \<Rightarrow> r\<lparr>adLastSeenHeight := greatest (adLastSeenHeight r) h\<rparr>)
      else List.find (at_address c' a') tbl)"
proof (cases "\<exists>r \<in> set tbl. at_address c a r")
  case True
  then obtain r where r: "List.find (at_address c a) tbl = Some r"
    by (metis find_None_iff not_Some_eq)
  have "List.find (at_address c' a') (upsert_row c a h tbl) =
      map_option (\<lambda>r. if at_address c a r then r\<lparr>adLastSeenHeight := greatest (adLastSeenHeight r) h\<rparr> else r)
        (List.find (at_address c' a') tbl)"
    using True unfolding upsert_row_def by (simp add: find_map_key at_address_def)
  moreover have "\<not> at_address c a r2" if "List.find (at_address c' a') tbl = Some r2" "\<not> (c' = c \<and> a' = a)" for r2
    using that by (auto dest!: find_address_key simp: at_address_def)
  ultimately show ?thesis using r find_address_key [OF r]
    by (cases "c' = c \<and> a' = a"; cases "List.find (at_address c' a') tbl") auto
next
  case False
  then have "List.find (at_address c a) tbl = None" by (simp add: find_None_iff)
  moreover have "at_address c' a' (new_address c a h) \<longleftrightarrow> c' = c \<and> a' = a"
    by (auto simp: at_address_def new_address_def)
  moreover have "List.find P (xs @ [y]) = (case List.find P xs of None \<Rightarrow> if P y then Some y else None | Some x \<Rightarrow> Some x)"
    for P :: "Address \<Rightarrow> bool" and xs y by (induction xs) auto
  ultimately show ?thesis using False by (auto simp: upsert_row_def split: option.splits)
qed

lemma Upsert_Inr:
  "Upsert c a h s = (Inr x, s') \<longleftrightarrow> next_outcome s = Done \<and> c \<in> set (partitions s) \<and>
     s' = (advance s)\<lparr>tblAddress := upsert_row c a h (tblAddress s)\<rparr>"
  by (auto simp: Upsert_def stmt_Inr split: if_splits)

lemma Get_Inr:
  "Get c a s = (Inr r, s') \<longleftrightarrow> next_outcome s = Done \<and> s' = advance s \<and>
     r = map_option (\<lambda>a. a\<lparr>adHubConfidence := map_option (floatOf (drv s)) (adHubConfidence a)\<rparr>) (find_address s c a)"
  by (auto simp: Get_def query_Inr find_address_def)

lemma IsHub_Inr: "IsHub c a s = (Inr b, s') \<longleftrightarrow> next_outcome s = Done \<and> s' = advance s \<and> b = hub_in s c a"
  by (auto simp: IsHub_def bnd_Inr Get_Inr hub_in_def split: option.splits)

lemma keeps_address_reads [keep_rules]:
  assumes "stable I"
  shows "keeps I (Get c a)" "keeps I (IsHub c a)"
  unfolding IsHub_def Get_def by (intro keep_rules assms | simp split: option.split)+

lemma stable_outside_addresses: "stable (\<lambda>s. outside_addresses s = k)"
  by (simp add: stable_def outside_addresses_def)

lemma keeps_address_writes [keep_rules]:
  "keeps (\<lambda>s. outside_addresses s = k) (Upsert c a h)"
  "keeps (\<lambda>s. outside_addresses s = k) (SetHub c a t q)"
  "keeps (\<lambda>s. outside_addresses s = k) (SetDustFlag c a)"
proof -
  show "keeps (\<lambda>s. outside_addresses s = k) (Upsert c a h)" unfolding Upsert_def
    by (intro keep_rules keeps_stmt stable_outside_addresses) (auto simp: outside_addresses_def)
  show "keeps (\<lambda>s. outside_addresses s = k) (SetHub c a t q)" unfolding SetHub_def
    by (intro keep_rules keeps_stmt stable_outside_addresses) (auto simp: outside_addresses_def split: option.splits)
  show "keeps (\<lambda>s. outside_addresses s = k) (SetDustFlag c a)" unfolding SetDustFlag_def
    by (intro keep_rules keeps_stmt stable_outside_addresses) (simp add: outside_addresses_def)
qed


section \<open>What is never taken back\<close>

text \<open>
  A registry row grows: keys and first-seen height stay, the last-seen height does not
  decrease, flags are not cleared.
\<close>

definition row_grows :: "Address \<Rightarrow> Address \<Rightarrow> bool" where
  "row_grows a a' \<longleftrightarrow> adChainID a' = adChainID a \<and> adAddress a' = adAddress a \<and>
     adFirstSeenHeight a' = adFirstSeenHeight a \<and>
     (\<forall>l. adLastSeenHeight a = Some l \<longrightarrow> (\<exists>l'. adLastSeenHeight a' = Some l' \<and> l \<le> l')) \<and>
     (adIsHub a \<longrightarrow> adIsHub a') \<and> (adDustFlag a \<longrightarrow> adDustFlag a')"

definition registry_grows :: "Address list \<Rightarrow> Address list \<Rightarrow> bool" where
  "registry_grows t t' \<longleftrightarrow> (\<exists>t1 new. list_all2 row_grows t t1 \<and> t' = t1 @ new)"

definition registry_inv :: "db \<Rightarrow> bool" where
  "registry_inv s \<longleftrightarrow> distinct (map (\<lambda>a. (adChainID a, adAddress a)) (tblAddress s))"

lemma row_grows_refl [simp]: "row_grows a a"
  by (simp add: row_grows_def)

lemma row_grows_trans: "row_grows a b \<Longrightarrow> row_grows b c \<Longrightarrow> row_grows a c"
  unfolding row_grows_def by (metis order_trans)

lemma registry_growsI: "list_all2 row_grows t t1 \<Longrightarrow> registry_grows t (t1 @ new)"
  unfolding registry_grows_def by blast

lemma registry_grows_refl [simp]: "registry_grows t t"
  using registry_growsI [of t t "[]"] by (simp add: list_all2_refl)

lemma registry_grows_trans:
  assumes "registry_grows a b" and "registry_grows b c"
  shows "registry_grows a c"
proof -
  obtain b1 new where b: "list_all2 row_grows a b1" "b = b1 @ new" using assms(1) by (auto simp: registry_grows_def)
  obtain c1 new' where c: "list_all2 row_grows b c1" "c = c1 @ new'" using assms(2) by (auto simp: registry_grows_def)
  obtain c2 c3 where "c1 = c2 @ c3" "list_all2 row_grows b1 c2"
    using c(1) unfolding b(2) by (auto simp: list_all2_append1)
  moreover from this b(1) have "list_all2 row_grows a c2"
    by (blast intro: list_all2_trans row_grows_trans)
  ultimately show ?thesis using c(2) registry_growsI [of a c2 "c3 @ new'"] by simp
qed

lemma registry_grows_map: "(\<And>a. row_grows a (f a)) \<Longrightarrow> registry_grows t (map f t)"
  using registry_growsI [of t "map f t" "[]"] by (simp add: list_all2_map2 list_all2_refl)

lemma registry_grows_append: "registry_grows t (t @ new)"
  by (intro registry_growsI) (simp add: list_all2_refl)

lemma upsert_row_grows: "registry_grows t (upsert_row c a h t)"
  unfolding upsert_row_def
  by (auto intro!: registry_grows_map registry_grows_append simp: row_grows_def greatest_def split: option.split)

lemma map_key_id: "(\<And>a. key (f a) = key a) \<Longrightarrow> map key (map f t) = map key t"
  by simp

lemma upsert_row_distinct:
  assumes "distinct (map (\<lambda>a. (adChainID a, adAddress a)) t)"
  shows "distinct (map (\<lambda>a. (adChainID a, adAddress a)) (upsert_row c a h t))"
proof (cases "\<exists>r \<in> set t. at_address c a r")
  case True
  have "map (\<lambda>a. (adChainID a, adAddress a)) (upsert_row c a h t) = map (\<lambda>a. (adChainID a, adAddress a)) t"
    using True unfolding upsert_row_def by simp
  with assms show ?thesis by simp
qed (use assms in \<open>auto simp: upsert_row_def at_address_def new_address_def\<close>)

lemma stable_registry: "stable registry_inv" "stable (\<lambda>s. registry_grows t (tblAddress s))"
  by (simp_all add: stable_def registry_inv_def)

lemma keeps_registry_inv [keep_rules]:
  "keeps registry_inv (Upsert c a h)" "keeps registry_inv (SetHub c a t q)" "keeps registry_inv (SetDustFlag c a)"
proof -
  have map_keys: "map (\<lambda>a. (adChainID a, adAddress a)) (map f t) = map (\<lambda>a. (adChainID a, adAddress a)) t"
    if "\<And>a. adChainID (f a) = adChainID a \<and> adAddress (f a) = adAddress a" for f :: "Address \<Rightarrow> Address" and t
    using that by simp
  show "keeps registry_inv (Upsert c a h)" unfolding Upsert_def
    by (intro keep_rules keeps_stmt stable_registry) (simp add: registry_inv_def upsert_row_distinct)
  show "keeps registry_inv (SetHub c a t q)" unfolding SetHub_def
    by (intro keep_rules keeps_stmt stable_registry) (auto simp: registry_inv_def map_keys simp del: map_map split: option.splits)
  show "keeps registry_inv (SetDustFlag c a)" unfolding SetDustFlag_def
    by (intro keep_rules keeps_stmt stable_registry) (auto simp: registry_inv_def map_keys simp del: map_map)
qed

lemma keeps_registry_grows [keep_rules]:
  "keeps (\<lambda>s. registry_grows t (tblAddress s)) (Upsert c a h)"
  "keeps (\<lambda>s. registry_grows t (tblAddress s)) (SetHub c a ht q)"
  "keeps (\<lambda>s. registry_grows t (tblAddress s)) (SetDustFlag c a)"
proof -
  let ?I = "\<lambda>s. registry_grows t (tblAddress s)"
  show "keeps ?I (Upsert c a h)" unfolding Upsert_def
    by (intro keep_rules keeps_stmt stable_registry) (auto intro: registry_grows_trans [OF _ upsert_row_grows])
  show "keeps ?I (SetHub c a ht q)" unfolding SetHub_def
    by (intro keep_rules keeps_stmt stable_registry)
      (auto intro!: registry_grows_trans [OF _ registry_grows_map] simp: row_grows_def split: option.splits)
  show "keeps ?I (SetDustFlag c a)" unfolding SetDustFlag_def
    by (intro keep_rules keeps_stmt stable_registry)
      (auto intro!: registry_grows_trans [OF _ registry_grows_map] simp: row_grows_def)
qed

lemma registry_grows_hub:
  assumes "registry_grows (tblAddress s) (tblAddress s')" and "hub_in s c a"
  shows "hub_in s' c a"
proof -
  obtain t1 new where t: "list_all2 row_grows (tblAddress s) t1" "tblAddress s' = t1 @ new"
    using assms(1) by (auto simp: registry_grows_def)
  have "\<exists>r'. List.find (at_address c a) (t1 @ new) = Some r' \<and> adIsHub r'"
    if "List.find (at_address c a) tbl = Some r" "adIsHub r" "list_all2 row_grows tbl t1" for tbl r t1
    using that(3,1,2) by (induction rule: list_all2_induct) (auto simp: row_grows_def at_address_def split: if_splits)
  from this [OF _ _ t(1)] show ?thesis
    using assms(2) t(2) by (auto simp: hub_in_def find_address_def split: option.splits)
qed

end
