(* ===== verification/Ingestor.thy ===== *)
theory Ingestor
  imports AddressStore
begin

text \<open>
  \<open>internal/ingestor/derive.go\<close> and \<open>internal/ingestor/store.go\<close>: grouping of balance deltas
  by transaction, the spent and received sides of a transaction, and the idempotent load of a
  batch into \<open>balance_delta\<close> with the registration of its addresses.
\<close>

section \<open>Derivations\<close>

record TxKey =
  tkChainID :: string
  tkTxID :: string

record TxGroup =
  tgKey :: TxKey
  tgDeltas :: "BalanceDelta list"

definition tx_key :: "BalanceDelta \<Rightarrow> TxKey" where
  "tx_key d = \<lparr>tkChainID = bdChainID d, tkTxID = bdTxID d\<rparr>"

text \<open>The loop state is the map \<open>index\<close> and the slice \<open>groups\<close>.\<close>

definition group_step :: "(TxKey \<times> nat) list \<times> TxGroup list \<Rightarrow> BalanceDelta \<Rightarrow> (TxKey \<times> nat) list \<times> TxGroup list" where
  "group_step = (\<lambda>(index, groups) d.
     case map_of index (tx_key d) of
       Some i \<Rightarrow> (index, groups[i := (groups ! i)\<lparr>tgDeltas := tgDeltas (groups ! i) @ [d]\<rparr>])
     | None \<Rightarrow> (AList.update (tx_key d) (length groups) index, groups @ [\<lparr>tgKey = tx_key d, tgDeltas = [d]\<rparr>]))"

definition GroupByTx :: "BalanceDelta list \<Rightarrow> TxGroup list" where
  "GroupByTx deltas = snd (foldl group_step ([], []) deltas)"

definition spent_step :: "string list \<Rightarrow> BalanceDelta \<Rightarrow> string list" where
  "spent_step out d =
     (case bdAmount d of
        None \<Rightarrow> out
      | Some v \<Rightarrow> if 0 \<le> v then out else if bdAddress d \<in> set out then out else out @ [bdAddress d])"

definition SpentAddresses :: "BalanceDelta list \<Rightarrow> string list" where
  "SpentAddresses txDeltas = foldl spent_step [] txDeltas"

record ReceivedEntry =
  reAddress :: string
  reAmount :: int

definition received_step :: "ReceivedEntry list \<Rightarrow> BalanceDelta \<Rightarrow> ReceivedEntry list" where
  "received_step out d =
     (case bdAmount d of
        None \<Rightarrow> out
      | Some v \<Rightarrow> if v \<le> 0 then out else out @ [\<lparr>reAddress = bdAddress d, reAmount = v\<rparr>])"

definition ReceivedEntries :: "BalanceDelta list \<Rightarrow> ReceivedEntry list" where
  "ReceivedEntries txDeltas = foldl received_step [] txDeltas"


section \<open>The store\<close>

record IngestResult =
  irInserted :: nat
  irSkipped :: nat

definition same_delta :: "BalanceDelta \<Rightarrow> BalanceDelta \<Rightarrow> bool" where
  "same_delta d d' \<longleftrightarrow> bdChainID d = bdChainID d' \<and> bdTxID d = bdTxID d' \<and> bdDeltaIndex d = bdDeltaIndex d'"

text \<open>
  \<open>INSERT ... ON CONFLICT DO NOTHING\<close>: the number of rows affected, or an error. The amount
  column is \<open>NUMERIC(78,0)\<close>; a \<open>NULL\<close> meta is the empty message.
\<close>

definition insert_delta :: "BalanceDelta \<Rightarrow> int \<Rightarrow> db \<Rightarrow> (string + nat) \<times> db" where
  "insert_delta d amount s =
     (if bdMeta d = RawBad then (Inl ''invalid input syntax for type json'', s)
      else if bdChainID d \<notin> set (partitions s) then (Inl ''no partition of relation balance_delta'', s)
      else if 10 ^ 78 \<le> \<bar>amount\<bar> then (Inl ''numeric field overflow'', s)
      else if \<exists>d' \<in> set (tblDelta s). same_delta d d' then (Inr 0, s)
      else (Inr 1, s\<lparr>tblDelta := tblDelta s @ [d\<lparr>bdAmount := Some amount,
             bdMeta := (case bdMeta d of RawDoc j \<Rightarrow> RawDoc (jsonb (drv s) j) | m \<Rightarrow> m)\<rparr>]\<rparr>))"

text \<open>The loop that fills the batch: it stops at a delta without an amount.\<close>

fun queue_deltas :: "BalanceDelta list \<Rightarrow> error + (BalanceDelta \<times> int) list" where
  "queue_deltas [] = Inr []"
| "queue_deltas (d # ds) =
     (case FromBigInt (bdAmount d) of
        Inl e \<Rightarrow> Inl (ErrWrap (''ingestor: ingest: '' @ bdChainID d @ ''/'' @ bdTxID d @ ''#'' @ itoa (bdDeltaIndex d)) e)
      | Inr n \<Rightarrow>
          (case queue_deltas ds of
             Inl e \<Rightarrow> Inl e
           | Inr q \<Rightarrow> Inr ((d, the (nuInt n)) # q)))"

definition read_tag :: "IngestResult \<Rightarrow> BalanceDelta \<times> int \<Rightarrow> IngestResult sql" where
  "read_tag result q =
     bnd (wrap ''ingestor: ingest'' (stmt (insert_delta (fst q) (snd q)))) (\<lambda>rowsAffected.
       ret (if 0 < rowsAffected then result\<lparr>irInserted := irInserted result + 1\<rparr>
            else result\<lparr>irSkipped := irSkipped result + 1\<rparr>))"

type_synonym height_order = "((string \<times> string) \<times> int) list \<Rightarrow> ((string \<times> string) \<times> int) list"

definition max_height_step :: "((string \<times> string) \<times> int) list \<Rightarrow> BalanceDelta \<Rightarrow> ((string \<times> string) \<times> int) list" where
  "max_height_step maxHeight d =
     (let k = (bdChainID d, bdAddress d) in
      case map_of maxHeight k of
        None \<Rightarrow> AList.update k (bdBlockHeight d) maxHeight
      | Some h \<Rightarrow> if h < bdBlockHeight d then AList.update k (bdBlockHeight d) maxHeight else maxHeight)"

definition max_heights :: "BalanceDelta list \<Rightarrow> ((string \<times> string) \<times> int) list" where
  "max_heights deltas = foldl max_height_step [] deltas"

text \<open>The iteration order of the map \<open>maxHeight\<close> is the argument \<open>ho\<close>.\<close>

definition upsertAddresses :: "height_order \<Rightarrow> BalanceDelta list \<Rightarrow> unit sql" where
  "upsertAddresses ho deltas =
     forE (\<lambda>((chainID, address), height).
        wrap (''upsert address '' @ chainID @ ''/'' @ address) (Upsert chainID address height))
       (ho (max_heights deltas))"

definition Ingest :: "height_order \<Rightarrow> BalanceDelta list \<Rightarrow> IngestResult sql" where
  "Ingest ho deltas =
     (if length deltas = 0 then ret \<lparr>irInserted = 0, irSkipped = 0\<rparr>
      else case queue_deltas deltas of
          Inl e \<Rightarrow> throw e
        | Inr q \<Rightarrow>
            bnd (send_batch (foldE read_tag \<lparr>irInserted = 0, irSkipped = 0\<rparr> q)) (\<lambda>result.
            bnd (wrap ''ingestor: ingest'' (upsertAddresses ho deltas)) (\<lambda>_.
              ret result)))"

text \<open>\<open>collect\<close>: scanning delta rows, converting the amount.\<close>

fun collect_deltas :: "db \<Rightarrow> BalanceDelta list \<Rightarrow> error + BalanceDelta list" where
  "collect_deltas s [] = Inr []"
| "collect_deltas s (d # ds) =
     (case ToBigInt (case bdAmount d of Some v \<Rightarrow> scanInteger (drv s) v | None \<Rightarrow> \<lparr>nuInt = None, nuExp = 0, nuValid = False\<rparr>) of
        Inl e \<Rightarrow> Inl (ErrWrap (''ingestor: '' @ bdChainID d @ ''/'' @ bdTxID d @ ''#'' @ itoa (bdDeltaIndex d)) e)
      | Inr v \<Rightarrow>
          (case collect_deltas s ds of Inl e \<Rightarrow> Inl e | Inr out \<Rightarrow> Inr (d\<lparr>bdAmount := Some v\<rparr> # out)))"

definition of_result :: "error + 'a \<Rightarrow> 'a sql" where
  "of_result r = (case r of Inl e \<Rightarrow> throw e | Inr x \<Rightarrow> ret x)"

definition GetDeltasByTx :: "string \<Rightarrow> string \<Rightarrow> BalanceDelta list sql" where
  "GetDeltasByTx chainID txid =
     bnd (wrap ''ingestor: get_deltas_by_tx'' (query (\<lambda>s.
       collect_deltas s (sort_key bdDeltaIndex (filter (\<lambda>d. bdChainID d = chainID \<and> bdTxID d = txid) (tblDelta s)))))) of_result"

definition GetDeltasByBlock :: "string \<Rightarrow> string \<Rightarrow> BalanceDelta list sql" where
  "GetDeltasByBlock chainID blockHash =
     bnd (wrap ''ingestor: get_deltas_by_block'' (query (\<lambda>s.
       let rows = filter (\<lambda>d. bdChainID d = chainID \<and> bdBlockHash d = blockHash) (tblDelta s) in
       collect_deltas s (concat (map (\<lambda>t. sort_key bdDeltaIndex (filter (\<lambda>d. bdTxID d = t) rows))
         (collateStrings (drv s) (remdups (map bdTxID rows)))))))) of_result"

definition GetCursor :: "string \<Rightarrow> string \<Rightarrow> string option sql" where
  "GetCursor chainID source = wrap ''ingestor: get_cursor'' (query (\<lambda>s.
     map_option crPosition (List.find (\<lambda>r. crChainID r = chainID \<and> crSource r = source) (tblCursor s))))"

definition SetCursor :: "string \<Rightarrow> string \<Rightarrow> string \<Rightarrow> unit sql" where
  "SetCursor chainID source position = wrap ''ingestor: set_cursor'' (stmt (\<lambda>s.
     (Inr (), s\<lparr>tblCursor :=
        (if \<exists>r \<in> set (tblCursor s). crChainID r = chainID \<and> crSource r = source
         then map (\<lambda>r. if crChainID r = chainID \<and> crSource r = source
                       then r\<lparr>crPosition := position, crUpdatedAt := clock s\<rparr> else r) (tblCursor s)
         else tblCursor s @ [\<lparr>crChainID = chainID, crSource = source, crPosition = position, crUpdatedAt = clock s\<rparr>])\<rparr>)))"


section \<open>Grouping\<close>

text \<open>The reference: one group per key in order of first appearance, with all its deltas in order.\<close>

definition group_by :: "BalanceDelta list \<Rightarrow> TxGroup list" where
  "group_by ds = map (\<lambda>k. \<lparr>tgKey = k, tgDeltas = filter (\<lambda>d. tx_key d = k) ds\<rparr>) (dedup_loop [] (map tx_key ds))"

definition index_ok :: "(TxKey \<times> nat) list \<Rightarrow> TxGroup list \<Rightarrow> bool" where
  "index_ok index groups \<longleftrightarrow> distinct (map tgKey groups) \<and>
     (\<forall>k. map_of index k = None \<longleftrightarrow> k \<notin> tgKey ` set groups) \<and>
     (\<forall>k i. map_of index k = Some i \<longrightarrow> i < length groups \<and> tgKey (groups ! i) = k)"

lemma dedup_loop_snoc: "dedup_loop [] (xs @ [x]) = (if x \<in> set xs then dedup_loop [] xs else dedup_loop [] xs @ [x])"
  by (simp add: dedup_loop_append)

lemma group_by_snoc:
  "group_by (ds @ [d]) =
     (if tx_key d \<in> tx_key ` set ds
      then map (\<lambda>g. if tgKey g = tx_key d then g\<lparr>tgDeltas := tgDeltas g @ [d]\<rparr> else g) (group_by ds)
      else group_by ds @ [\<lparr>tgKey = tx_key d, tgDeltas = [d]\<rparr>])"
proof (cases "tx_key d \<in> tx_key ` set ds")
  case False
  then have "filter (\<lambda>d'. tx_key d' = tx_key d) ds = []" by (metis (mono_tags, lifting) filter_False image_eqI)
  with False show ?thesis by (auto simp: group_by_def dedup_loop_snoc)
qed (auto simp: group_by_def dedup_loop_snoc)

lemma keys_group_by: "map tgKey (group_by ds) = dedup_loop [] (map tx_key ds)"
  by (simp add: group_by_def comp_def)

lemma update_at_key:
  assumes "distinct (map tgKey gs)" and "i < length gs"
  shows "gs[i := f (gs ! i)] = map (\<lambda>g. if tgKey g = tgKey (gs ! i) then f g else g) gs"
proof (rule nth_equalityI)
  fix j assume "j < length (gs[i := f (gs ! i)])"
  with assms show "gs[i := f (gs ! i)] ! j = map (\<lambda>g. if tgKey g = tgKey (gs ! i) then f g else g) gs ! j"
    using nth_eq_iff_index_eq [of "map tgKey gs" i j] by (cases "i = j") auto
qed simp

lemma group_loop:
  "snd (foldl group_step ([], []) ds) = group_by ds \<and> index_ok (fst (foldl group_step ([], []) ds)) (group_by ds)"
proof (induction ds rule: rev_induct)
  case Nil
  show ?case by (simp add: group_by_def index_ok_def)
next
  case (snoc d ds)
  obtain index groups where F: "foldl group_step ([], []) ds = (index, groups)" by fastforce
  with snoc have g: "groups = group_by ds" and ok: "index_ok index groups" by simp_all
  have keys: "tgKey ` set groups = tx_key ` set ds"
  proof -
    have "tgKey ` set (group_by ds) = set (map tgKey (group_by ds))" by simp
    then show ?thesis by (simp only: g keys_group_by set_dedup_loop) simp
  qed
  show ?case
  proof (cases "map_of index (tx_key d)")
    case None
    then have "tx_key d \<notin> tx_key ` set ds" using ok keys by (simp add: index_ok_def)
    moreover have "index_ok (AList.update (tx_key d) (length groups) index) (groups @ [\<lparr>tgKey = tx_key d, tgDeltas = [d]\<rparr>])"
      using ok None by (auto simp: index_ok_def update_conv' nth_append less_Suc_eq split: if_splits)
    ultimately show ?thesis using F None g by (simp add: group_step_def group_by_snoc)
  next
    case (Some i)
    then have i: "i < length groups" "tgKey (groups ! i) = tx_key d" and D: "distinct (map tgKey groups)"
      using ok by (auto simp: index_ok_def)
    have "tx_key d \<in> tx_key ` set ds" using ok Some keys by (metis index_ok_def option.distinct(1))
    moreover have "groups[i := (groups ! i)\<lparr>tgDeltas := tgDeltas (groups ! i) @ [d]\<rparr>] =
        map (\<lambda>g. if tgKey g = tx_key d then g\<lparr>tgDeltas := tgDeltas g @ [d]\<rparr> else g) groups"
      using update_at_key [OF D i(1), of "\<lambda>g. g\<lparr>tgDeltas := tgDeltas g @ [d]\<rparr>"] i(2) by simp
    moreover have "index_ok index (map (\<lambda>g. if tgKey g = tx_key d then g\<lparr>tgDeltas := tgDeltas g @ [d]\<rparr> else g) groups)"
    proof -
      let ?f = "\<lambda>g. if tgKey g = tx_key d then g\<lparr>tgDeltas := tgDeltas g @ [d]\<rparr> else g"
      have k: "tgKey (?f g) = tgKey g" for g by simp
      have "map tgKey (map ?f groups) = map tgKey groups" by simp
      moreover have "tgKey ` set (map ?f groups) = tgKey ` set groups" unfolding set_map image_image k ..
      ultimately show ?thesis using ok by (simp only: index_ok_def length_map) (auto simp: k)
    qed
    ultimately show ?thesis using F Some g by (simp add: group_step_def group_by_snoc)
  qed
qed

lemma GroupByTx_eq: "GroupByTx ds = group_by ds"
  using group_loop by (simp add: GroupByTx_def)

lemma GroupByTx_nonempty: "g \<in> set (GroupByTx ds) \<Longrightarrow> tgDeltas g \<noteq> [] \<and> set (tgDeltas g) \<subseteq> set ds"
  by (auto simp: GroupByTx_eq group_by_def filter_empty_conv)

lemma GroupByTx_key: "g \<in> set (GroupByTx ds) \<Longrightarrow> d \<in> set (tgDeltas g) \<Longrightarrow> tx_key d = tgKey g"
  by (auto simp: GroupByTx_eq group_by_def)


section \<open>The two sides of a transaction\<close>

definition spends :: "BalanceDelta \<Rightarrow> bool" where
  "spends d \<longleftrightarrow> (\<exists>v. bdAmount d = Some v \<and> v < 0)"

definition receives :: "BalanceDelta \<Rightarrow> bool" where
  "receives d \<longleftrightarrow> (\<exists>v. bdAmount d = Some v \<and> 0 < v)"

lemma spent_loop: "foldl spent_step out ds = dedup_loop out (map bdAddress (filter spends ds))"
  by (induction ds arbitrary: out) (auto simp: spent_step_def spends_def split: option.splits)

lemma SpentAddresses_eq: "SpentAddresses ds = dedup_loop [] (map bdAddress (filter spends ds))"
  by (simp add: SpentAddresses_def spent_loop)

lemma set_SpentAddresses: "set (SpentAddresses ds) = bdAddress ` {d \<in> set ds. spends d}"
  by (simp add: SpentAddresses_eq)

lemma distinct_SpentAddresses: "distinct (SpentAddresses ds)"
  by (simp add: SpentAddresses_eq distinct_dedup_loop)

lemma received_loop:
  "foldl received_step out ds =
     out @ map (\<lambda>d. \<lparr>reAddress = bdAddress d, reAmount = the (bdAmount d)\<rparr>) (filter receives ds)"
  by (induction ds arbitrary: out) (auto simp: received_step_def receives_def split: option.splits)

lemma ReceivedEntries_eq:
  "ReceivedEntries ds = map (\<lambda>d. \<lparr>reAddress = bdAddress d, reAmount = the (bdAmount d)\<rparr>) (filter receives ds)"
  by (simp add: ReceivedEntries_def received_loop)


section \<open>Loading a batch\<close>

definition outside_deltas :: "db \<Rightarrow> db" where
  "outside_deltas s = s\<lparr>schedule := [], tblDelta := []\<rparr>"

definition has_delta :: "db \<Rightarrow> BalanceDelta \<Rightarrow> bool" where
  "has_delta s d \<longleftrightarrow> (\<exists>d' \<in> set (tblDelta s). same_delta d d')"

definition delta_inv :: "db \<Rightarrow> bool" where
  "delta_inv s \<longleftrightarrow> distinct (map (\<lambda>d. (bdChainID d, bdTxID d, bdDeltaIndex d)) (tblDelta s)) \<and>
     (\<forall>d \<in> set (tblDelta s). \<exists>v. bdAmount d = Some v \<and> \<bar>v\<bar> < 10 ^ 78)"

lemma outside_deltas_advance [simp]: "outside_deltas (advance s) = outside_deltas s"
  by (simp add: outside_deltas_def advance_def)

lemma has_delta_advance [simp]: "has_delta (advance s) d = has_delta s d"
  by (simp add: has_delta_def)

lemma insert_delta_cases:
  obtains (failed) e where "insert_delta d v s = (Inl e, s)"
  | (present) "has_delta s d" "insert_delta d v s = (Inr 0, s)"
  | (inserted) row where "\<not> has_delta s d" "same_delta d row" "bdAmount row = Some v" "\<bar>v\<bar> < 10 ^ 78"
      "bdAddress row = bdAddress d" "bdBlockHash row = bdBlockHash d" "bdBlockHeight row = bdBlockHeight d"
      "insert_delta d v s = (Inr 1, s\<lparr>tblDelta := tblDelta s @ [row]\<rparr>)"
proof -
  let ?row = "d\<lparr>bdAmount := Some v, bdMeta := (case bdMeta d of RawDoc j \<Rightarrow> RawDoc (jsonb (drv s) j) | m \<Rightarrow> m)\<rparr>"
  have "(\<exists>e. insert_delta d v s = (Inl e, s)) \<or> has_delta s d \<and> insert_delta d v s = (Inr 0, s) \<or>
      \<not> has_delta s d \<and> \<bar>v\<bar> < 10 ^ 78 \<and> insert_delta d v s = (Inr 1, s\<lparr>tblDelta := tblDelta s @ [?row]\<rparr>)"
    by (simp add: insert_delta_def has_delta_def)
  then show ?thesis
    by (elim disjE exE conjE) (rule failed present inserted [of ?row], assumption | simp add: same_delta_def)+
qed

text \<open>What reading the replies of the whole batch establishes.\<close>

definition batch_done :: "(BalanceDelta \<times> int) list \<Rightarrow> IngestResult \<Rightarrow> db \<Rightarrow> IngestResult \<Rightarrow> db \<Rightarrow> bool" where
  "batch_done q r s r' s' \<longleftrightarrow> outside_deltas s' = outside_deltas s \<and>
     (\<exists>new. tblDelta s' = tblDelta s @ new \<and> irInserted r' = irInserted r + length new \<and>
        irInserted r' + irSkipped r' = irInserted r + irSkipped r + length q) \<and>
     (\<forall>d \<in> fst ` set q. has_delta s' d) \<and>
     ((\<forall>d \<in> fst ` set q. has_delta s d) \<longrightarrow> tblDelta s' = tblDelta s) \<and>
     (delta_inv s \<longrightarrow> delta_inv s')"

lemma delta_inv_insert:
  assumes "delta_inv s" and "\<not> has_delta s d" and "same_delta d row" and "bdAmount row = Some v" and "\<bar>v\<bar> < 10 ^ 78"
  shows "delta_inv ((advance s)\<lparr>tblDelta := tblDelta s @ [row]\<rparr>)"
  using assms by (auto simp: delta_inv_def has_delta_def same_delta_def)

lemma read_tag_done:
  assumes "read_tag r x s = (Inr r1, s1)"
  shows "batch_done [x] r s r1 s1"
proof -
  obtain n where n: "insert_delta (fst x) (snd x) (advance s) = (Inr n, s1)"
    and r1: "r1 = (if 0 < n then r\<lparr>irInserted := irInserted r + 1\<rparr> else r\<lparr>irSkipped := irSkipped r + 1\<rparr>)"
    using assms by (auto simp: read_tag_def bnd_Inr stmt_Inr)
  have inv: "delta_inv (advance s) = delta_inv s" by (simp add: delta_inv_def)
  have "delta_inv s \<longrightarrow> delta_inv s1"
    using n by (cases rule: insert_delta_cases [of "fst x" "snd x" "advance s"]) (auto simp: inv intro: delta_inv_insert)
  then show ?thesis
    using n
    by (cases rule: insert_delta_cases [of "fst x" "snd x" "advance s"])
      (auto simp: batch_done_def r1 has_delta_def outside_deltas_def advance_def)
qed

lemma batch_done_trans:
  assumes "batch_done q1 r s r1 s1" and "batch_done q2 r1 s1 r2 s2"
  shows "batch_done (q1 @ q2) r s r2 s2"
proof -
  have mono: "has_delta s2 d" if "has_delta s1 d" for d
    using that assms(2) by (auto simp: batch_done_def has_delta_def)
  have same: "tblDelta s1 = tblDelta s" if "\<forall>d \<in> fst ` set (q1 @ q2). has_delta s d"
    using that assms(1) by (auto simp: batch_done_def)
  then have "tblDelta s2 = tblDelta s" if "\<forall>d \<in> fst ` set (q1 @ q2). has_delta s d"
    using that assms(2) by (auto simp: batch_done_def has_delta_def)
  with mono assms show ?thesis by (auto simp: batch_done_def)
qed

lemma batch_done_loop:
  assumes "foldE read_tag r q s = (Inr r', s')"
  shows "batch_done q r s r' s'"
  using assms
proof (induction q arbitrary: r s)
  case Nil
  then show ?case by (simp add: batch_done_def)
next
  case (Cons x q)
  then obtain r1 s1 where 1: "read_tag r x s = (Inr r1, s1)" and 2: "foldE read_tag r1 q s1 = (Inr r', s')"
    by (auto simp: bnd_Inr)
  show ?case using batch_done_trans [OF read_tag_done [OF 1] Cons.IH [OF 2]] by simp
qed

lemma queue_deltas_Inr: "queue_deltas ds = Inr q \<Longrightarrow> map fst q = ds \<and> (\<forall>(d, v) \<in> set q. bdAmount d = Some v)"
  by (induction ds arbitrary: q) (auto simp: FromBigInt_def split: option.splits sum.splits)

lemma queue_deltas_error:
  "(\<exists>e. queue_deltas ds = Inl e) \<longleftrightarrow> (\<exists>d \<in> set ds. bdAmount d = None)"
  by (induction ds) (auto simp: FromBigInt_def split: option.splits sum.splits)


subsection \<open>Registering the addresses\<close>

text \<open>
  The interface \<open>AddressUpserter\<close>: an upsert changes the lookup at its key and nowhere
  else. A loop over distinct keys then has the same effect in any order.
\<close>

locale address_upserter =
  fixes upsert :: "string \<Rightarrow> string \<Rightarrow> int \<Rightarrow> unit sql"
    and look :: "db \<Rightarrow> string \<Rightarrow> string \<Rightarrow> Address option"
    and bump :: "Address option \<Rightarrow> string \<Rightarrow> string \<Rightarrow> int \<Rightarrow> Address"
  assumes look_upsert: "upsert c a h s = (Inr x, s') \<Longrightarrow>
    look s' c' a' = (if c' = c \<and> a' = a then Some (bump (look s c a) c a h) else look s c' a')"
begin

lemma look_loop:
  assumes "forE (\<lambda>((c, a), h). wrap (m c a) (upsert c a h)) l s = (Inr x, s')" and "distinct (map fst l)"
  shows "look s' c a = (case map_of l (c, a) of None \<Rightarrow> look s c a | Some h \<Rightarrow> Some (bump (look s c a) c a h))"
  using assms
proof (induction l arbitrary: s)
  case (Cons kh l)
  obtain c1 a1 h1 where kh: "kh = ((c1, a1), h1)" by (metis prod.collapse)
  with Cons.prems obtain s1 where 1: "upsert c1 a1 h1 s = (Inr (), s1)"
    and 2: "forE (\<lambda>((c, a), h). wrap (m c a) (upsert c a h)) l s1 = (Inr x, s')"
    by (auto simp: bnd_Inr)
  have "map_of l (c1, a1) = None" using Cons.prems(2) kh by (simp add: map_of_eq_None_iff)
  with Cons.IH [OF 2] Cons.prems(2) look_upsert [OF 1] kh show ?case by (auto split: option.splits)
qed simp

end

definition bump_address :: "Address option \<Rightarrow> string \<Rightarrow> string \<Rightarrow> int \<Rightarrow> Address" where
  "bump_address old c a h =
     (case old of None \<Rightarrow> new_address c a h | Some r \<Rightarrow> r\<lparr>adLastSeenHeight := greatest (adLastSeenHeight r) h\<rparr>)"

interpretation registry: address_upserter Upsert find_address bump_address
  by unfold_locales (auto simp: Upsert_Inr find_address_def find_upsert_row bump_address_def)

lemma max_heights_keys: "distinct (map fst (max_heights ds)) \<and> fst ` set (max_heights ds) = (\<lambda>d. (bdChainID d, bdAddress d)) ` set ds"
proof (induction ds rule: rev_induct)
  case (snoc d ds)
  have step: "max_heights (ds @ [d]) = max_height_step (max_heights ds) d" by (simp add: max_heights_def)
  show ?case unfolding step using snoc map_of_in_fst [of "max_heights ds" "(bdChainID d, bdAddress d)"]
    by (auto simp: max_height_step_def Let_def distinct_update split: option.splits)
qed (simp add: max_heights_def)

lemma max_heights_ge:
  "d \<in> set ds \<Longrightarrow> \<exists>h. map_of (max_heights ds) (bdChainID d, bdAddress d) = Some h \<and> bdBlockHeight d \<le> h"
proof (induction ds rule: rev_induct)
  case (snoc d' ds)
  have step: "max_heights (ds @ [d']) = max_height_step (max_heights ds) d'" by (simp add: max_heights_def)
  have self: "\<exists>h. map_of (max_height_step l d') (bdChainID d', bdAddress d') = Some h \<and> bdBlockHeight d' \<le> h" for l
    by (auto simp: max_height_step_def Let_def update_conv' split: option.splits)
  have keep: "\<exists>h'. map_of (max_height_step l d') k = Some h' \<and> b \<le> h'" if "map_of l k = Some h" "b \<le> h" for l k h b
    using that by (auto simp: max_height_step_def Let_def update_conv' split: option.splits)
  show ?case unfolding step using snoc self keep by (cases "d = d'") auto
qed simp

definition height_order_ok :: "height_order \<Rightarrow> bool" where
  "height_order_ok ho \<longleftrightarrow> (\<forall>l. mset (ho l) = mset l)"

lemma map_of_reordered:
  assumes "height_order_ok ho" and "distinct (map fst l)"
  shows "distinct (map fst (ho l))" and "map_of (ho l) = map_of l"
proof -
  have m: "mset (ho l) = mset l" using assms(1) by (simp add: height_order_ok_def)
  then show d: "distinct (map fst (ho l))" using assms(2) by (metis mset_eq_imp_distinct_iff mset_map)
  show "map_of (ho l) = map_of l" using d assms(2) m by (metis map_of_inject_set mset_eq_setD)
qed

lemma upsertAddresses_look:
  assumes "height_order_ok ho" and "upsertAddresses ho ds s = (Inr x, s')"
  shows "find_address s' c a =
    (case map_of (max_heights ds) (c, a) of
       None \<Rightarrow> find_address s c a | Some h \<Rightarrow> Some (bump_address (find_address s c a) c a h))"
  using registry.look_loop [OF assms(2) [unfolded upsertAddresses_def]] map_of_reordered [OF assms(1)] max_heights_keys
  by simp


subsection \<open>The whole load\<close>

lemma keeps_frame:
  assumes "\<And>k. keeps (\<lambda>s. frame s = k) m" and "\<And>s s'. frame s = frame s' \<Longrightarrow> I s \<longleftrightarrow> I s'"
  shows "keeps I m"
  using assms unfolding keeps_def by blast

definition outside_ingest :: "db \<Rightarrow> db" where
  "outside_ingest s = s\<lparr>schedule := [], tblDelta := [], tblAddress := []\<rparr>"

lemma stable_outside_ingest: "stable (\<lambda>s. outside_ingest s = k)"
  by (simp add: stable_def outside_ingest_def)

lemma keeps_outside_ingest [keep_rules]: "keeps (\<lambda>s. outside_ingest s = k) (Upsert c a h)"
proof (rule keeps_frame [OF keeps_address_writes(1)])
  fix s s' :: db assume "outside_addresses s = outside_addresses s'"
  moreover have "outside_ingest t = (outside_addresses t)\<lparr>tblDelta := []\<rparr>" for t
    by (simp add: outside_ingest_def outside_addresses_def)
  ultimately show "outside_ingest s = k \<longleftrightarrow> outside_ingest s' = k" by simp
qed

lemma keeps_read_tag:
  assumes "stable I" and "\<And>s row. I s \<Longrightarrow> I (s\<lparr>tblDelta := tblDelta s @ [row]\<rparr>)"
  shows "keeps I (read_tag r x)"
  unfolding read_tag_def
proof (intro keep_rules keeps_stmt assms(1))
  fix s assume "I s"
  then show "I (snd (insert_delta (fst x) (snd x) s))"
    by (cases rule: insert_delta_cases [of "fst x" "snd x" s]) (auto intro: assms(2))
qed

lemma no_draw_batch: "no_draw (foldE read_tag r q)"
  unfolding no_draw_def by (intro allI keep_rules keeps_read_tag) (simp_all add: stable_def seqs_def)

lemma keeps_upsertAddresses:
  assumes "\<And>c a h. keeps I (Upsert c a h)"
  shows "keeps I (upsertAddresses ho ds)"
  unfolding upsertAddresses_def by (rule keeps_forE) (auto intro: keeps_wrap assms split: prod.split)

lemma keeps_Ingest:
  assumes "stable I" and "\<And>s row. I s \<Longrightarrow> I (s\<lparr>tblDelta := tblDelta s @ [row]\<rparr>)" and "\<And>c a h. keeps I (Upsert c a h)"
  shows "keeps I (Ingest ho ds)"
  unfolding Ingest_def
  by (intro keep_rules keeps_send_batch keeps_upsertAddresses keeps_read_tag no_draw_batch assms)

lemma keeps_Ingest_outside [keep_rules]: "keeps (\<lambda>s. outside_ingest s = k) (Ingest ho ds)"
  by (intro keeps_Ingest stable_outside_ingest keep_rules) (simp add: outside_ingest_def)

lemma keeps_Ingest_registry [keep_rules]:
  "keeps (\<lambda>s. registry_grows t (tblAddress s)) (Ingest ho ds)" "keeps registry_inv (Ingest ho ds)"
  by (intro keeps_Ingest stable_registry keep_rules, simp add: registry_inv_def)+

lemma Ingest_Inr:
  assumes "Ingest ho ds s = (Inr r, s')" and "ds \<noteq> []"
  obtains q s1 where "queue_deltas ds = Inr q"
    and "batch_done q \<lparr>irInserted = 0, irSkipped = 0\<rparr> s r s1" and "upsertAddresses ho ds s1 = (Inr (), s')"
    and "tblDelta s' = tblDelta s1" and "\<And>c a. find_address s1 c a = find_address s c a"
proof -
  obtain q where q: "queue_deltas ds = Inr q"
    using assms by (cases "queue_deltas ds") (auto simp: Ingest_def)
  with assms obtain s1 where 1: "foldE read_tag \<lparr>irInserted = 0, irSkipped = 0\<rparr> q s = (Inr r, s1)"
    and 2: "upsertAddresses ho ds s1 = (Inr (), s')"
    by (auto simp: Ingest_def bnd_Inr send_batch_Inr)
  note B = batch_done_loop [OF 1]
  have "keeps (\<lambda>s. tblDelta s = tblDelta s1) (upsertAddresses ho ds)"
  proof (rule keeps_upsertAddresses)
    fix c a h
    show "keeps (\<lambda>s. tblDelta s = tblDelta s1) (Upsert c a h)"
      unfolding Upsert_def by (intro keep_rules keeps_stmt) (auto simp: stable_def)
  qed
  then have t: "tblDelta s' = tblDelta s1" using 2 unfolding keeps_def by force
  have "outside_deltas s1 = outside_deltas s" using B by (simp add: batch_done_def)
  then have "tblAddress (outside_deltas s1) = tblAddress (outside_deltas s)" by simp
  then have "find_address s1 c a = find_address s c a" for c a by (simp add: find_address_def outside_deltas_def)
  with that q B 2 t show ?thesis by blast
qed

lemma bump_twice: "bump_address (Some (bump_address old c a h)) c a h = bump_address old c a h"
  by (auto simp: bump_address_def new_address_def greatest_def split: option.splits)

text \<open>
  C25: a batch that is reported as loaded is loaded. Every delta of the batch is in
  \<open>balance_delta\<close> under its key, its address is registered with a last-seen height that covers
  the delta, and the two counters account for every delta of the batch.
\<close>

theorem ingest_complete:
  assumes "height_order_ok ho" and "Ingest ho ds s = (Inr r, s')"
  shows "(\<forall>d \<in> set ds. has_delta s' d \<and>
      (\<exists>row l. find_address s' (bdChainID d) (bdAddress d) = Some row \<and> adLastSeenHeight row = Some l \<and> bdBlockHeight d \<le> l)) \<and>
    irInserted r + irSkipped r = length ds"
proof (cases "ds = []")
  case True
  then show ?thesis using assms(2) by (simp add: Ingest_def)
next
  case False
  obtain q s1 where q: "queue_deltas ds = Inr q" and B: "batch_done q \<lparr>irInserted = 0, irSkipped = 0\<rparr> s r s1"
    and U: "upsertAddresses ho ds s1 = (Inr (), s')" and t: "tblDelta s' = tblDelta s1"
    using Ingest_Inr [OF assms(2) False] by metis
  have ds: "ds = map fst q" using queue_deltas_Inr [OF q] by simp
  have len: "irInserted r + irSkipped r = length ds"
    using B unfolding ds by (auto simp: batch_done_def)
  have has: "has_delta s' d" if "d \<in> set ds" for d
    using B that unfolding ds by (auto simp: batch_done_def has_delta_def t)
  have "\<exists>row l. find_address s' (bdChainID d) (bdAddress d) = Some row \<and> adLastSeenHeight row = Some l \<and> bdBlockHeight d \<le> l"
    if d: "d \<in> set ds" for d
  proof -
    obtain h where "map_of (max_heights ds) (bdChainID d, bdAddress d) = Some h" "bdBlockHeight d \<le> h"
      using max_heights_ge [OF d] by blast
    then show ?thesis
      by (auto simp: upsertAddresses_look [OF assms(1) U] bump_address_def new_address_def greatest_def split: option.splits)
  qed
  with has len show ?thesis by blast
qed

text \<open>
  C11: loading is idempotent. Loading a batch a second time inserts nothing, leaves
  \<open>balance_delta\<close> as it is, and every registry lookup answers as before, whatever order the
  two runs registered the addresses in.
\<close>

theorem ingest_idempotent:
  assumes "height_order_ok ho" and "height_order_ok ho'" and "Ingest ho ds s = (Inr r, s1)" and "Ingest ho' ds s1 = (Inr r2, s2)"
  shows "tblDelta s2 = tblDelta s1 \<and> irInserted r2 = 0 \<and> irSkipped r2 = length ds \<and>
    (\<forall>c a. find_address s2 c a = find_address s1 c a)"
proof (cases "ds = []")
  case True
  then show ?thesis using assms(4) by (simp add: Ingest_def)
next
  case False
  obtain q t1 where q: "queue_deltas ds = Inr q" and B: "batch_done q \<lparr>irInserted = 0, irSkipped = 0\<rparr> s r t1"
    and U: "upsertAddresses ho ds t1 = (Inr (), s1)" and t: "tblDelta s1 = tblDelta t1"
    using Ingest_Inr [OF assms(3) False] by metis
  obtain t2 where B2: "batch_done q \<lparr>irInserted = 0, irSkipped = 0\<rparr> s1 r2 t2"
    and U2: "upsertAddresses ho' ds t2 = (Inr (), s2)" and t2: "tblDelta s2 = tblDelta t2"
    and f2: "\<And>c a. find_address t2 c a = find_address s1 c a"
    using Ingest_Inr [OF assms(4) False] q by (metis sum.inject(2))
  have "\<forall>d \<in> fst ` set q. has_delta s1 d" using B by (simp add: batch_done_def has_delta_def t)
  then have same: "tblDelta t2 = tblDelta s1" using B2 by (simp add: batch_done_def)
  then have "irInserted r2 = 0 \<and> irSkipped r2 = length q" using B2 by (auto simp: batch_done_def)
  moreover have "length q = length ds" using queue_deltas_Inr [OF q] by (metis length_map)
  moreover have "find_address s2 c a = find_address s1 c a" for c a
    by (simp add: upsertAddresses_look [OF assms(1) U] upsertAddresses_look [OF assms(2) U2] f2 bump_twice split: option.split)
  ultimately show ?thesis using same t2 by simp
qed


text \<open>A transfer of 5 units on the sample chain.\<close>

definition sample_delta :: "string \<Rightarrow> int \<Rightarrow> string \<Rightarrow> int \<Rightarrow> BalanceDelta" where
  "sample_delta tx i a v = \<lparr>bdChainID = ''eth'', bdTxID = tx, bdDeltaIndex = i, bdAddress = a, bdAmount = Some v,
     bdKind = ''native'', bdBlockHeight = 7, bdBlockHash = ''h7'', bdMeta = RawEmpty\<rparr>"

definition sample_batch :: "BalanceDelta list" where
  "sample_batch = [sample_delta ''t1'' 0 ''A'' (- 5), sample_delta ''t1'' 1 ''B'' 5]"

lemma height_order_id: "height_order_ok (\<lambda>l. l)" "height_order_ok rev"
  by (simp_all add: height_order_ok_def)

lemma sample_ingest_ok: "\<exists>r s'. Ingest rev sample_batch empty_db = (Inr r, s')"
proof -
  have "fst (Ingest rev sample_batch empty_db) = Inr \<lparr>irInserted = 2, irSkipped = 0\<rparr>" by code_simp
  then show ?thesis by (metis prod.collapse)
qed


theorem ingest_complete_witness:
  "\<exists>r s'. Ingest rev sample_batch empty_db = (Inr r, s') \<and> irInserted r + irSkipped r = 2"
  using sample_ingest_ok ingest_complete [OF height_order_id(2), of sample_batch empty_db]
  by (fastforce simp: sample_batch_def)

theorem ingest_idempotent_witness:
  "\<exists>r s1 r2 s2. Ingest rev sample_batch empty_db = (Inr r, s1) \<and> Ingest (\<lambda>l. l) sample_batch s1 = (Inr r2, s2) \<and>
     irInserted r2 = 0"
proof -
  obtain r s1 where 1: "Ingest rev sample_batch empty_db = (Inr r, s1)" using sample_ingest_ok by blast
  have "fst (Ingest (\<lambda>l. l) sample_batch (snd (Ingest rev sample_batch empty_db))) = Inr \<lparr>irInserted = 0, irSkipped = 2\<rparr>"
    by code_simp
  then obtain r2 s2 where 2: "Ingest (\<lambda>l. l) sample_batch s1 = (Inr r2, s2)" unfolding 1 by (metis prod.collapse snd_conv)
  with 1 ingest_idempotent [OF height_order_id(2,1) 1 2] show ?thesis by blast
qed

text \<open>
  A batch with a delta that has no amount is rejected as a whole, before the first
  statement: nothing of it reaches the database.
\<close>

theorem ingest_rejects_missing_amount:
  assumes "d \<in> set ds" and "bdAmount d = None"
  shows "\<exists>e. Ingest ho ds s = (Inl e, s)"
proof -
  obtain e where "queue_deltas ds = Inl e" using queue_deltas_error assms by blast
  then show ?thesis using assms(1) by (auto simp: Ingest_def throw_def)
qed

theorem ingest_rejects_missing_amount_witness:
  "\<exists>e. Ingest rev (sample_batch @ [(sample_delta ''t2'' 0 ''A'' 1)\<lparr>bdAmount := None\<rparr>]) empty_db = (Inl e, empty_db)"
  by (rule ingest_rejects_missing_amount [where d = "(sample_delta ''t2'' 0 ''A'' 1)\<lparr>bdAmount := None\<rparr>"]) simp_all

text \<open>
  Grouping by transaction is exact and ordered. The groups are the transactions of the batch in
  order of first appearance, each with all its deltas in their order; this is what makes the order of
  evidence, and with it the anchors, a function of the batch.
\<close>

theorem group_by_tx_reference:
  "GroupByTx ds = map (\<lambda>k. \<lparr>tgKey = k, tgDeltas = filter (\<lambda>d. tx_key d = k) ds\<rparr>) (dedup_loop [] (map tx_key ds))"
  by (simp add: GroupByTx_eq group_by_def)

end
