(* ===== verification/LabelStore.thy ===== *)
theory LabelStore
  imports Database
begin

text \<open>
  \<open>internal/label/store.go\<close> and \<open>internal/label/maintain.go\<close>: label claims, the decay of labels that were
  not verified for a while, and the flagging of contradictory labels. The iteration order
  of the map of conflicts is an argument of \<open>Maintain\<close>.
\<close>

section \<open>Operations\<close>

definition label_row :: "Label \<Rightarrow> string \<Rightarrow> int \<Rightarrow> rat \<Rightarrow> int \<Rightarrow> Label" where
  "label_row l status i q now =
     l\<lparr>lbLabelID := i, lbSourceConfidence := q, lbCollectedAt := now, lbLastVerifiedAt := now, lbStatus := status\<rparr>"

definition label_checks :: "Label \<Rightarrow> bool" where
  "label_checks l \<longleftrightarrow>
     lbTargetType l \<in> {''cluster'', ''address''} \<and>
     lbStatus l \<in> {''active'', ''stale'', ''conflicted'', ''retired''} \<and>
     (lbTargetType l = ''cluster'' \<and> lbTargetClusterID l \<noteq> None \<or> lbTargetType l = ''address'' \<and> lbTargetAddress l \<noteq> None)"

definition insert_label :: "Label \<Rightarrow> string \<Rightarrow> db \<Rightarrow> (string + int) \<times> db" where
  "insert_label l status s =
     (let i = labelSeq s; s1 = s\<lparr>labelSeq := i + 1\<rparr> in
      case numericOf (drv s) (lbSourceConfidence l) of
        None \<Rightarrow> (Inl ''numeric field overflow'', s1)
      | Some q \<Rightarrow>
          let row = label_row l status i q (clock s) in
          if label_checks row then (Inr i, s1\<lparr>tblLabel := tblLabel s @ [row]\<rparr>)
          else (Inl ''violates check constraint on label'', s1))"

definition AddLabel :: "Label \<Rightarrow> int sql" where
  "AddLabel l =
     (if lbTargetType l \<noteq> ''cluster'' \<and> lbTargetType l \<noteq> ''address''
      then throw (ErrMsg (''label: invalid target_type '' @ lbTargetType l))
      else
        let status = (if lbStatus l = [] then ''active'' else lbStatus l)
        in wrap ''label: add'' (stmt (insert_label l status)))"

definition scan_label :: "db \<Rightarrow> Label \<Rightarrow> Label" where
  "scan_label s l = l\<lparr>lbSourceConfidence := floatOf (drv s) (lbSourceConfidence l)\<rparr>"

definition LabelsOf :: "string \<Rightarrow> string \<Rightarrow> string \<Rightarrow> Label list sql" where
  "LabelsOf chainID targetType targetID =
     (if targetType = ''cluster'' then wrap ''label: labels_of'' (query (\<lambda>s.
        map (scan_label s) (heapLabels (drv s) (filter (\<lambda>l. lbChainID l = chainID \<and> lbTargetClusterID l = Some targetID) (tblLabel s)))))
      else if targetType = ''address'' then wrap ''label: labels_of'' (query (\<lambda>s.
        map (scan_label s) (heapLabels (drv s) (filter (\<lambda>l. lbChainID l = chainID \<and> lbTargetAddress l = Some targetID) (tblLabel s)))))
      else throw (ErrMsg (''label: invalid target_type '' @ targetType)))"

record targetKey =
  tkTargetType :: string
  tkTargetChain :: string
  tkTargetID :: string

definition keyOf :: "Label \<Rightarrow> targetKey" where
  "keyOf l =
     (let targetID =
        (if lbTargetType l = ''cluster'' then (case lbTargetClusterID l of Some i \<Rightarrow> i | None \<Rightarrow> [])
         else if lbTargetType l = ''address'' then (case lbTargetAddress l of Some a \<Rightarrow> a | None \<Rightarrow> [])
         else [])
      in \<lparr>tkTargetType = lbTargetType l, tkTargetChain = lbChainID l, tkTargetID = targetID\<rparr>)"

definition considered :: "Label \<Rightarrow> bool" where
  "considered l \<longleftrightarrow> lbStatus l = ''active'' \<or> lbStatus l = ''stale''"

definition by_target_step :: "(targetKey \<times> Label list) list \<Rightarrow> Label \<Rightarrow> (targetKey \<times> Label list) list" where
  "by_target_step byTarget l =
     (if considered l
      then AList.update (keyOf l) ((case map_of byTarget (keyOf l) of None \<Rightarrow> [] | Some ls \<Rightarrow> ls) @ [l]) byTarget
      else byTarget)"

definition conflict_step :: "int list \<Rightarrow> targetKey \<times> Label list \<Rightarrow> int list" where
  "conflict_step conflicted kl =
     (let categories = dedup_loop [] (map lbCategory (snd kl)) in
      if length categories \<le> 1 then conflicted
      else dedup_loop conflicted (map lbLabelID (snd kl)))"

text \<open>The keys of the returned map.\<close>

definition DetectConflicts :: "Label list \<Rightarrow> int list" where
  "DetectConflicts labels = foldl conflict_step [] (foldl by_target_step [] labels)"

record MaintainResult =
  mrDecayed :: nat
  mrConflicted :: nat

definition maintained_rows :: "db \<Rightarrow> string \<Rightarrow> Label list" where
  "maintained_rows s chainID =
     map (scan_label s) (heapLabels (drv s) (filter (\<lambda>l. lbChainID l = chainID \<and> considered l) (tblLabel s)))"

definition decay_label :: "int \<Rightarrow> float64 \<Rightarrow> unit sql" where
  "decay_label labelID decayed = stmt (\<lambda>s.
     if \<exists>l \<in> set (tblLabel s). lbLabelID l = labelID
     then case numericOf (drv s) decayed of
         None \<Rightarrow> (Inl ''numeric field overflow'', s)
       | Some q \<Rightarrow> (Inr (), s\<lparr>tblLabel := map (\<lambda>l. if lbLabelID l = labelID
            then l\<lparr>lbStatus := ''stale'', lbSourceConfidence := q\<rparr> else l) (tblLabel s)\<rparr>)
     else (Inr (), s))"

definition flag_conflict :: "int \<Rightarrow> unit sql" where
  "flag_conflict labelID = stmt (\<lambda>s.
     (Inr (), s\<lparr>tblLabel := map (\<lambda>l. if lbLabelID l = labelID \<and> lbStatus l \<noteq> ''conflicted''
        then l\<lparr>lbStatus := ''conflicted''\<rparr> else l) (tblLabel s)\<rparr>))"

definition decay_loop :: "int \<Rightarrow> int \<Rightarrow> float64 \<Rightarrow> MaintainResult \<Rightarrow> Label list \<Rightarrow> MaintainResult sql" where
  "decay_loop now staleTTL decayFactor = foldE (\<lambda>result l.
     if lbStatus l \<noteq> ''active'' then ret result
     else if now - lbLastVerifiedAt l \<le> staleTTL then ret result
     else
       let decayed = fmul (lbSourceConfidence l) decayFactor in
       bnd (wrap (''label: maintain: decay(label_id='' @ itoa (lbLabelID l) @ '')'') (decay_label (lbLabelID l) decayed)) (\<lambda>_.
         ret (result\<lparr>mrDecayed := mrDecayed result + 1\<rparr>)))"

definition conflict_loop :: "MaintainResult \<Rightarrow> int list \<Rightarrow> MaintainResult sql" where
  "conflict_loop = foldE (\<lambda>result labelID.
     bnd (wrap (''label: maintain: conflict(label_id='' @ itoa labelID @ '')'') (flag_conflict labelID)) (\<lambda>_.
       ret (result\<lparr>mrConflicted := mrConflicted result + 1\<rparr>)))"

definition Maintain :: "(int list \<Rightarrow> int list) \<Rightarrow> string \<Rightarrow> int \<Rightarrow> float64 \<Rightarrow> MaintainResult sql" where
  "Maintain co chainID staleTTL decayFactor = (\<lambda>s0.
     bnd (wrap ''label: maintain: query'' (query (\<lambda>s. maintained_rows s chainID))) (\<lambda>labels.
     bnd (decay_loop (clock s0) staleTTL decayFactor \<lparr>mrDecayed = 0, mrConflicted = 0\<rparr> labels) (\<lambda>result.
       conflict_loop result (co (DetectConflicts labels)))) s0)"


section \<open>Conflict detection\<close>

definition in_conflict :: "Label list \<Rightarrow> Label \<Rightarrow> bool" where
  "in_conflict labels l \<longleftrightarrow> l \<in> set labels \<and> considered l \<and>
     (\<exists>l' \<in> set labels. considered l' \<and> keyOf l' = keyOf l \<and> lbCategory l' \<noteq> lbCategory l)"

definition on_target :: "Label list \<Rightarrow> targetKey \<Rightarrow> Label list" where
  "on_target labels k = filter (\<lambda>l. considered l \<and> keyOf l = k) labels"

lemma by_target_loop:
  "distinct (map fst (foldl by_target_step [] labels)) \<and>
   (\<forall>k. map_of (foldl by_target_step [] labels) k = (if on_target labels k = [] then None else Some (on_target labels k)))"
proof (induction labels rule: rev_induct)
  case (snoc l labels)
  define b where "b = foldl by_target_step [] labels"
  have IH: "distinct (map fst b)" "\<And>k. map_of b k = (if on_target labels k = [] then None else Some (on_target labels k))"
    using snoc unfolding b_def by blast+
  have step: "foldl by_target_step [] (labels @ [l]) = by_target_step b l" by (simp add: b_def)
  have tgt: "on_target (labels @ [l]) k = on_target labels k @ (if considered l \<and> keyOf l = k then [l] else [])" for k
    by (simp add: on_target_def)
  have "(case map_of b (keyOf l) of None \<Rightarrow> [] | Some ls \<Rightarrow> ls) = on_target labels (keyOf l)"
    by (simp add: IH)
  then show ?case unfolding step using IH by (auto simp: by_target_step_def update_conv' distinct_update tgt)
qed (simp add: on_target_def)

definition contradictory :: "Label list \<Rightarrow> bool" where
  "contradictory ls \<longleftrightarrow> (\<exists>l \<in> set ls. \<exists>l' \<in> set ls. lbCategory l \<noteq> lbCategory l')"

lemma contradictory_count: "length (dedup_loop [] (map lbCategory ls)) \<le> 1 \<longleftrightarrow> \<not> contradictory ls"
proof -
  let ?d = "dedup_loop [] (map lbCategory ls)"
  have "distinct ?d" "set ?d = lbCategory ` set ls" by (simp_all add: distinct_dedup_loop)
  then have "length ?d = card (lbCategory ` set ls)" by (metis distinct_card)
  moreover have "card (lbCategory ` set ls) \<le> 1 \<longleftrightarrow> (\<forall>x \<in> lbCategory ` set ls. \<forall>y \<in> lbCategory ` set ls. x = y)"
    using card_le_Suc0_iff_eq [of "lbCategory ` set ls"] by simp
  ultimately show ?thesis by (auto simp: contradictory_def)
qed

lemma conflict_step_set:
  "set (conflict_step acc kl) = set acc \<union> (if contradictory (snd kl) then lbLabelID ` set (snd kl) else {})"
  using contradictory_count [of "snd kl"] by (simp add: conflict_step_def Let_def)

lemma conflict_loop_set:
  "set (foldl conflict_step acc kls) = set acc \<union> (\<Union>kl \<in> {kl \<in> set kls. contradictory (snd kl)}. lbLabelID ` set (snd kl))"
  by (induction kls arbitrary: acc) (auto simp: conflict_step_set)

lemma conflict_loop_distinct: "distinct acc \<Longrightarrow> distinct (foldl conflict_step acc kls)"
  by (induction kls arbitrary: acc) (simp_all add: conflict_step_def Let_def distinct_dedup_loop)

lemma DetectConflicts_set: "set (DetectConflicts labels) = lbLabelID ` {l. in_conflict labels l}"
proof -
  let ?b = "foldl by_target_step [] labels"
  have entries: "(k, ls) \<in> set ?b \<longleftrightarrow> ls = on_target labels k \<and> ls \<noteq> []" for k ls
  proof -
    have "(k, ls) \<in> set ?b \<longleftrightarrow> map_of ?b k = Some ls"
      using by_target_loop [of labels] map_of_eq_Some_iff [of ?b k ls] by blast
    also have "map_of ?b k = (if on_target labels k = [] then None else Some (on_target labels k))"
      using by_target_loop [of labels] by blast
    also have "\<dots> = Some ls \<longleftrightarrow> ls = on_target labels k \<and> ls \<noteq> []" by auto
    finally show ?thesis .
  qed
  show ?thesis
  proof (intro subset_antisym subsetI)
    fix i assume "i \<in> set (DetectConflicts labels)"
    then obtain k ls l where "(k, ls) \<in> set ?b" "contradictory ls" "l \<in> set ls" "i = lbLabelID l"
      by (auto simp: DetectConflicts_def conflict_loop_set)
    then show "i \<in> lbLabelID ` {l. in_conflict labels l}"
      by (auto simp: entries on_target_def in_conflict_def contradictory_def intro!: image_eqI [of _ _ l]) metis
  next
    fix i assume "i \<in> lbLabelID ` {l. in_conflict labels l}"
    then obtain l l' where l: "l \<in> set labels" "considered l" "l' \<in> set labels" "considered l'" "keyOf l' = keyOf l"
      "lbCategory l' \<noteq> lbCategory l" "i = lbLabelID l" by (auto simp: in_conflict_def)
    let ?ls = "on_target labels (keyOf l)"
    have "(keyOf l, ?ls) \<in> set ?b" using l by (auto simp: entries on_target_def filter_empty_conv)
    moreover have "l \<in> set ?ls" "l' \<in> set ?ls" using l by (simp_all add: on_target_def)
    ultimately show "i \<in> set (DetectConflicts labels)"
      unfolding DetectConflicts_def conflict_loop_set using l(6,7)
      by (intro UnI2 UN_I [of "(keyOf l, ?ls)"]) (auto simp: contradictory_def)
  qed
qed

text \<open>
  Conflict detection is exact. The labels it reports are those that are active or stale
  and disagree on the category with another active or stale label of the same target; labels that
  corroborate each other, and retired labels, are never reported.
\<close>

theorem detect_conflicts_exact:
  "set (DetectConflicts labels) = lbLabelID ` {l \<in> set labels. considered l \<and>
     (\<exists>l' \<in> set labels. considered l' \<and> keyOf l' = keyOf l \<and> lbCategory l' \<noteq> lbCategory l)} \<and>
   distinct (DetectConflicts labels)"
  using DetectConflicts_set [of labels] conflict_loop_distinct
  by (simp add: in_conflict_def DetectConflicts_def)


section \<open>What maintenance does to every label\<close>

definition label_inv :: "db \<Rightarrow> bool" where
  "label_inv s \<longleftrightarrow> distinct (map lbLabelID (tblLabel s)) \<and> (\<forall>l \<in> set (tblLabel s). lbLabelID l < labelSeq s \<and> label_checks l)"

definition due :: "int \<Rightarrow> int \<Rightarrow> Label \<Rightarrow> bool" where
  "due now ttl l \<longleftrightarrow> lbStatus l = ''active'' \<and> ttl < now - lbLastVerifiedAt l"

definition decayed_row :: "driver \<Rightarrow> float64 \<Rightarrow> Label \<Rightarrow> Label" where
  "decayed_row d f l = l\<lparr>lbStatus := ''stale'',
     lbSourceConfidence := the (numericOf d (fmul (floatOf d (lbSourceConfidence l)) f))\<rparr>"

definition maintained :: "db \<Rightarrow> string \<Rightarrow> int \<Rightarrow> float64 \<Rightarrow> Label \<Rightarrow> Label" where
  "maintained s c ttl f l =
     (let l1 = (if lbChainID l = c \<and> due (clock s) ttl l then decayed_row (drv s) f l else l) in
      if in_conflict (filter (\<lambda>l. lbChainID l = c \<and> considered l) (tblLabel s)) l
      then l1\<lparr>lbStatus := ''conflicted''\<rparr> else l1)"

definition outside_labels :: "db \<Rightarrow> db" where
  "outside_labels s = s\<lparr>schedule := [], tblLabel := []\<rparr>"

lemma outside_labels_advance [simp]: "outside_labels (advance s) = outside_labels s"
  by (simp add: outside_labels_def advance_def)

lemma decay_label_Inr:
  assumes "decay_label i k s = (Inr x, s')" and "\<exists>l \<in> set (tblLabel s). lbLabelID l = i"
  shows "tblLabel s' = map (\<lambda>l. if lbLabelID l = i then l\<lparr>lbStatus := ''stale'', lbSourceConfidence := the (numericOf (drv s) k)\<rparr> else l) (tblLabel s)
    \<and> outside_labels s' = outside_labels s"
  using assms by (auto simp: decay_label_def stmt_Inr outside_labels_def advance_def split: option.splits)

lemma decayed_row_not_due [simp]: "\<not> due now ttl (decayed_row d f l)"
  by (simp add: due_def decayed_row_def)

lemma decay_loop_Cons:
  "decay_loop now ttl f r (l # L) =
     (if due now ttl l
      then bnd (wrap (''label: maintain: decay(label_id='' @ itoa (lbLabelID l) @ '')'')
        (decay_label (lbLabelID l) (fmul (lbSourceConfidence l) f))) (\<lambda>_. decay_loop now ttl f (r\<lparr>mrDecayed := mrDecayed r + 1\<rparr>) L)
      else decay_loop now ttl f r L)"
  by (simp add: decay_loop_def due_def Let_def bnd_assoc)

lemma decay_loop_Inr:
  assumes "decay_loop now ttl f r L s = (Inr r', s')" and "distinct (map lbLabelID L)"
    and "\<And>l row. l \<in> set L \<Longrightarrow> row \<in> set (tblLabel s) \<Longrightarrow> lbLabelID row = lbLabelID l \<Longrightarrow> l = scan_label s row"
    and "\<And>l. l \<in> set L \<Longrightarrow> lbLabelID l \<in> lbLabelID ` set (tblLabel s)"
  shows "tblLabel s' = map (\<lambda>row. if lbLabelID row \<in> lbLabelID ` set L \<and> due now ttl row then decayed_row (drv s) f row else row) (tblLabel s)
    \<and> outside_labels s' = outside_labels s"
  using assms
proof (induction L arbitrary: r s)
  case Nil
  then show ?case by (simp add: decay_loop_def)
next
  case (Cons l L)
  define g where "g = (\<lambda>row. if lbLabelID row = lbLabelID l \<and> due now ttl row then decayed_row (drv s) f row else row)"
  have l_row: "due now ttl row = due now ttl l \<and> lbSourceConfidence l = floatOf (drv s) (lbSourceConfidence row)"
    if "row \<in> set (tblLabel s)" "lbLabelID row = lbLabelID l" for row
    using Cons.prems(3) [of l row] that by (auto simp: due_def scan_label_def)
  obtain r1 s1 where rest: "decay_loop now ttl f r1 L s1 = (Inr r', s')" and t1: "tblLabel s1 = map g (tblLabel s)"
    and o1: "outside_labels s1 = outside_labels s"
  proof (cases "due now ttl l")
    case True
    with Cons.prems(1) obtain s1 where D: "decay_label (lbLabelID l) (fmul (lbSourceConfidence l) f) s = (Inr (), s1)"
      and rest: "decay_loop now ttl f (r\<lparr>mrDecayed := mrDecayed r + 1\<rparr>) L s1 = (Inr r', s')"
      by (auto simp: decay_loop_Cons bnd_Inr)
    have "\<exists>row \<in> set (tblLabel s). lbLabelID row = lbLabelID l" using Cons.prems(4) [of l] by (auto simp: image_iff)
    note D' = decay_label_Inr [OF D this]
    moreover have "map (\<lambda>row. if lbLabelID row = lbLabelID l then row\<lparr>lbStatus := ''stale'',
        lbSourceConfidence := the (numericOf (drv s) (fmul (lbSourceConfidence l) f))\<rparr> else row) (tblLabel s) = map g (tblLabel s)"
      using True l_row by (simp add: g_def decayed_row_def)
    ultimately show ?thesis using that rest by metis
  next
    case False
    then have rest: "decay_loop now ttl f r L s = (Inr r', s')"
      using Cons.prems(1) by (simp add: decay_loop_Cons)
    moreover have "map g (tblLabel s) = tblLabel s"
      using False l_row by (auto simp: g_def intro!: map_idI)
    ultimately show ?thesis using that by metis
  qed
  have drv: "drv s1 = drv s"
  proof -
    have "drv (outside_labels s1) = drv (outside_labels s)" using o1 by simp
    then show ?thesis by (simp add: outside_labels_def)
  qed
  have gid: "lbLabelID (g row) = lbLabelID row" for row by (simp add: g_def decayed_row_def)
  have gother: "g row = row" if "lbLabelID row \<noteq> lbLabelID l" for row using that by (simp add: g_def)
  have notin: "lbLabelID l \<notin> lbLabelID ` set L" using Cons.prems(2) by auto
  have IH: "tblLabel s' = map (\<lambda>row. if lbLabelID row \<in> lbLabelID ` set L \<and> due now ttl row then decayed_row (drv s1) f row else row) (tblLabel s1)
      \<and> outside_labels s' = outside_labels s1"
  proof (rule Cons.IH [OF rest])
    show "distinct (map lbLabelID L)" using Cons.prems(2) by simp
    show "l' = scan_label s1 row" if "l' \<in> set L" "row \<in> set (tblLabel s1)" "lbLabelID row = lbLabelID l'" for l' row
    proof -
      obtain row0 where r0: "row0 \<in> set (tblLabel s)" "row = g row0" using \<open>row \<in> set (tblLabel s1)\<close> by (auto simp: t1)
      have "lbLabelID row0 \<noteq> lbLabelID l" using notin that r0 gid by (metis image_eqI)
      then have "row = row0" using gother r0 by simp
      then show ?thesis using Cons.prems(3) [of l' row0] that r0(1) by (simp add: scan_label_def drv)
    qed
    show "lbLabelID l' \<in> lbLabelID ` set (tblLabel s1)" if "l' \<in> set L" for l'
      using Cons.prems(4) [of l'] that by (simp add: t1 image_image gid)
  qed
  have "(if lbLabelID (g row) \<in> lbLabelID ` set L \<and> due now ttl (g row) then decayed_row (drv s1) f (g row) else g row) =
      (if lbLabelID row \<in> lbLabelID ` set (l # L) \<and> due now ttl row then decayed_row (drv s) f row else row)" for row
    using notin by (cases "lbLabelID row = lbLabelID l") (auto simp: gid gother drv g_def)
  with IH o1 show ?case by (simp add: t1)
qed

lemma conflict_loop_Inr:
  assumes "conflict_loop r ids s = (Inr r', s')"
  shows "tblLabel s' = map (\<lambda>l. if lbLabelID l \<in> set ids then l\<lparr>lbStatus := ''conflicted''\<rparr> else l) (tblLabel s) \<and>
    outside_labels s' = outside_labels s \<and> mrConflicted r' = mrConflicted r + length ids \<and> mrDecayed r' = mrDecayed r"
  using assms
proof (induction ids arbitrary: r s)
  case Nil
  then show ?case by (simp add: conflict_loop_def)
next
  case (Cons i ids)
  then obtain s1 where F: "flag_conflict i s = (Inr (), s1)"
    and rest: "conflict_loop (r\<lparr>mrConflicted := mrConflicted r + 1\<rparr>) ids s1 = (Inr r', s')"
    by (auto simp: conflict_loop_def bnd_Inr)
  have "tblLabel s1 = map (\<lambda>l. if lbLabelID l = i then l\<lparr>lbStatus := ''conflicted''\<rparr> else l) (tblLabel s)"
    and "outside_labels s1 = outside_labels s"
    using F by (auto simp: flag_conflict_def stmt_Inr outside_labels_def advance_def)
  with Cons.IH [OF rest] show ?case by auto
qed


lemma label_id_scan: "lbLabelID (scan_label s l) = lbLabelID l"
  by (simp add: scan_label_def)

lemma distinct_map_mset: "mset xs = mset ys \<Longrightarrow> distinct (map f xs) \<longleftrightarrow> distinct (map f ys)"
  by (metis mset_eq_imp_distinct_iff mset_map)

lemma label_id_unique:
  "distinct (map lbLabelID t) \<Longrightarrow> x \<in> set t \<Longrightarrow> y \<in> set t \<Longrightarrow> lbLabelID x = lbLabelID y \<Longrightarrow> x = y"
  by (simp add: distinct_map inj_on_def)

lemma conflict_ids:
  assumes "distinct (map lbLabelID tbl)" and "set rows \<subseteq> set tbl" and "l \<in> set tbl"
  shows "lbLabelID l \<in> set (DetectConflicts (map (scan_label s) rows)) \<longleftrightarrow> in_conflict rows l"
proof -
  have proj: "lbLabelID (scan_label s x) = lbLabelID x" "considered (scan_label s x) = considered x"
    "keyOf (scan_label s x) = keyOf x" "lbCategory (scan_label s x) = lbCategory x" for x
    by (simp_all add: scan_label_def considered_def keyOf_def)
  have "{l. in_conflict (map (scan_label s) rows) l} = scan_label s ` {x. in_conflict rows x}"
    by (auto simp: in_conflict_def proj intro!: imageI)
  then have "set (DetectConflicts (map (scan_label s) rows)) = lbLabelID ` {x. in_conflict rows x}"
    by (simp add: DetectConflicts_set image_image proj)
  then have "lbLabelID l \<in> set (DetectConflicts (map (scan_label s) rows)) \<longleftrightarrow>
      (\<exists>x \<in> set rows. lbLabelID x = lbLabelID l \<and> in_conflict rows x)"
    by (auto simp: in_conflict_def image_iff)
  moreover have "x = l" if "x \<in> set rows" "lbLabelID x = lbLabelID l" for x
    using assms that by (metis distinct_map inj_onD subsetD)
  ultimately show ?thesis by (auto simp: in_conflict_def)
qed

text \<open>
  C37: maintenance has exactly its documented effect on every label. A label of the chain that
  is active and was not verified within the time limit becomes stale with its confidence
  decayed; a label in contradiction with another of the same target becomes conflicted (and
  keeps the decayed confidence if it was also due); every other label, and everything else in the database,
  stays as it is. Conflicts are judged on the labels as they were before the decay.
\<close>

theorem maintain_effect:
  assumes "label_inv s" and "driver_ok (drv s)" and "\<forall>l. mset (co l) = mset l"
    and "Maintain co c ttl f s = (Inr r, s')"
  shows "tblLabel s' = map (maintained s c ttl f) (tblLabel s) \<and> outside_labels s' = outside_labels s"
proof -
  let ?rows = "filter (\<lambda>l. lbChainID l = c \<and> considered l) (tblLabel s)"
  let ?heap = "heapLabels (drv s) ?rows"
  let ?labels = "map (scan_label s) ?heap"
  have dist: "distinct (map lbLabelID (tblLabel s))" using assms(1) by (simp add: label_inv_def)
  have heap: "mset ?heap = mset ?rows" using assms(2) by (simp add: driver_ok_def)
  then have heap_set: "set ?heap = set ?rows" by (rule mset_eq_setD)
  have scan_adv: "maintained_rows (advance s) c = ?labels" by (simp add: maintained_rows_def scan_label_def)
  obtain r1 s1 where D: "decay_loop (clock s) ttl f \<lparr>mrDecayed = 0, mrConflicted = 0\<rparr> ?labels (advance s) = (Inr r1, s1)"
    and C: "conflict_loop r1 (co (DetectConflicts ?labels)) s1 = (Inr r, s')"
    using assms(4) unfolding Maintain_def by (auto simp: bnd_Inr query_Inr scan_adv)
  have ids: "map lbLabelID ?labels = map lbLabelID ?heap" by (simp add: scan_label_def)
  have "tblLabel s1 = map (\<lambda>row. if lbLabelID row \<in> lbLabelID ` set ?labels \<and> due (clock s) ttl row
        then decayed_row (drv (advance s)) f row else row) (tblLabel (advance s)) \<and> outside_labels s1 = outside_labels (advance s)"
  proof (rule decay_loop_Inr [OF D])
    have "distinct (map lbLabelID ?rows)" using dist by (simp add: distinct_map_filter)
    then show "distinct (map lbLabelID ?labels)" unfolding ids distinct_map_mset [OF heap] .
    show "l = scan_label (advance s) row"
      if la: "l \<in> set ?labels" and "row \<in> set (tblLabel (advance s))" and "lbLabelID row = lbLabelID l" for l row
    proof -
      obtain row0 where "row0 \<in> set (tblLabel s)" "l = scan_label s row0" using la heap_set by auto
      moreover from this that have "row0 = row"
        by (intro label_id_unique [OF dist]) (simp_all add: label_id_scan)
      ultimately show ?thesis by (simp add: scan_label_def)
    qed
    show "lbLabelID l \<in> lbLabelID ` set (tblLabel (advance s))" if "l \<in> set ?labels" for l
      using that heap_set by (auto simp: scan_label_def)
  qed
  moreover have "lbLabelID row \<in> lbLabelID ` set ?labels \<and> due now ttl row \<longleftrightarrow> lbChainID row = c \<and> due now ttl row"
    if "row \<in> set (tblLabel s)" for row now
  proof -
    have "lbLabelID row \<in> lbLabelID ` set ?labels \<longleftrightarrow> row \<in> set ?rows"
      using that dist heap_set by (auto simp: scan_label_def distinct_map image_iff inj_on_def)
    then show ?thesis using that by (auto simp: due_def considered_def)
  qed
  ultimately have t1: "tblLabel s1 = map (\<lambda>row. if lbChainID row = c \<and> due (clock s) ttl row
      then decayed_row (drv s) f row else row) (tblLabel s)" and o1: "outside_labels s1 = outside_labels s" by auto
  have co: "set (co (DetectConflicts ?labels)) = set (DetectConflicts ?labels)"
    using assms(3) by (metis mset_eq_setD)
  have conf: "lbLabelID row \<in> set (DetectConflicts ?labels) \<longleftrightarrow> in_conflict ?rows row" if "row \<in> set (tblLabel s)" for row
  proof -
    have "lbLabelID row \<in> set (DetectConflicts ?labels) \<longleftrightarrow> in_conflict ?heap row"
      using dist that heap_set by (intro conflict_ids) auto
    then show ?thesis using heap_set by (simp add: in_conflict_def)
  qed
  have "tblLabel s' = map (\<lambda>l. if lbLabelID l \<in> set (DetectConflicts ?labels) then l\<lparr>lbStatus := ''conflicted''\<rparr> else l) (tblLabel s1)"
    and "outside_labels s' = outside_labels s1"
    using conflict_loop_Inr [OF C] co by simp_all
  with t1 o1 conf show ?thesis
    by (auto simp: maintained_def Let_def decayed_row_def)
qed


definition sample_label :: "int \<Rightarrow> string \<Rightarrow> string \<Rightarrow> Label" where
  "sample_label i a cat = \<lparr>lbLabelID = i, lbTargetType = ''address'', lbChainID = ''eth'', lbTargetClusterID = None,
     lbTargetAddress = Some a, lbLabel = ''x'', lbCategory = cat, lbSource = ''operator'', lbSourceConfidence = 1/2,
     lbCollectedAt = 0, lbLastVerifiedAt = 0, lbStatus = ''active''\<rparr>"

definition sample_label_db :: db where
  "sample_label_db = empty_db\<lparr>clock := 100, labelSeq := 4, tblLabel :=
     [sample_label 1 ''A'' ''exchange'', sample_label 2 ''A'' ''mixer'', sample_label 3 ''B'' ''bridge'']\<rparr>"

theorem maintain_effect_witness:
  "\<exists>r s'. Maintain rev ''eth'' 10 (1/2) sample_label_db = (Inr r, s') \<and>
     map lbStatus (tblLabel s') = [''conflicted'', ''conflicted'', ''stale'']"
proof -
  have "fst (Maintain rev ''eth'' 10 (1/2) sample_label_db) = Inr \<lparr>mrDecayed = 3, mrConflicted = 2\<rparr>" by code_simp
  then obtain r s' where M: "Maintain rev ''eth'' 10 (1/2) sample_label_db = (Inr r, s')" by (metis prod.collapse)
  have "label_inv sample_label_db"
    by (simp add: label_inv_def label_checks_def sample_label_db_def empty_db_def sample_label_def)
  moreover have "driver_ok (drv sample_label_db)"
    using driver_ok_sample by (simp add: sample_label_db_def empty_db_def)
  ultimately have "tblLabel s' = map (maintained sample_label_db ''eth'' 10 (1/2)) (tblLabel sample_label_db)"
    using maintain_effect [OF _ _ _ M] by simp
  moreover have "map lbStatus (map (maintained sample_label_db ''eth'' 10 (1/2)) (tblLabel sample_label_db)) =
      [''conflicted'', ''conflicted'', ''stale'']"
    by (simp add: maintained_def Let_def in_conflict_def due_def decayed_row_def considered_def keyOf_def
        sample_label_db_def empty_db_def sample_label_def)
  ultimately show ?thesis using M by auto
qed

lemma keeps_label_reads [keep_rules]: "stable I \<Longrightarrow> keeps I (LabelsOf c t i)"
  unfolding LabelsOf_def by (intro keep_rules)

lemma keeps_label_inv_AddLabel: "keeps label_inv (AddLabel l)"
  unfolding AddLabel_def Let_def
proof (intro keep_rules keeps_stmt)
  show "stable label_inv" by (simp add: stable_def label_inv_def)
  fix s status assume "label_inv s"
  then show "label_inv (snd (insert_label l status s))"
    by (auto simp: insert_label_def Let_def label_inv_def label_row_def split: option.splits)
qed

end
