(* ===== verification/Registry.thy ===== *)
theory Registry
  imports Database
begin

text \<open>
  \<open>internal/registry\<close> (\<open>registry.go\<close>, \<open>chain_config.go\<close>): the configuration of chains and heuristics;
  \<open>internal/audit/store.go\<close>: the audit log; \<open>internal/sweeptarget/store.go\<close>: the known
  collection addresses.
\<close>

section \<open>Heuristic configuration\<close>

text \<open>The join of \<open>chain_heuristic\<close> with \<open>heuristic\<close>; both keys are primary keys.\<close>

definition heuristic_config :: "db \<Rightarrow> string \<Rightarrow> string \<Rightarrow> HeuristicConfig option" where
  "heuristic_config s chainID heuristicKey =
     (case List.find (\<lambda>ch. chhChainID ch = chainID \<and> chhKey ch = heuristicKey) (tblChainHeuristic s) of
        None \<Rightarrow> None
      | Some ch \<Rightarrow>
          (case List.find (\<lambda>h. hrKey h = heuristicKey) (tblHeuristic s) of
             None \<Rightarrow> None
           | Some h \<Rightarrow> Some \<lparr>hcEnabled = chhEnabled ch,
               hcConfidence = floatOf (drv s) (case chhConfidenceOverride ch of Some q \<Rightarrow> q | None \<Rightarrow> hrDefaultConfidence h),
               hcParams = chhParams ch\<rparr>))"

definition ConfigFor :: "string \<Rightarrow> string \<Rightarrow> HeuristicConfig option sql" where
  "ConfigFor chainID heuristicKey = wrap ''registry: config_for'' (query (\<lambda>s. heuristic_config s chainID heuristicKey))"

definition ConfidenceFor :: "string \<Rightarrow> string \<Rightarrow> (float64 \<times> bool) sql" where
  "ConfidenceFor chainID heuristicKey =
     bnd (ConfigFor chainID heuristicKey) (\<lambda>r. case r of
       None \<Rightarrow> ret (0, False)
     | Some cfg \<Rightarrow> ret (hcConfidence cfg, hcEnabled cfg))"

definition ListChains :: "string list sql" where
  "ListChains = wrap ''registry: list_chains'' (query (\<lambda>s.
     heapStrings (drv s) (map chChainID (filter chEnabled (tblChain s)))))"


section \<open>Preprocessing parameters\<close>

definition defaultPreprocessingParams :: PreprocessingParams where
  "defaultPreprocessingParams =
     \<lparr>ppHubThreshold = round64 (5 / 10), ppHubDegreeSaturation = 50, ppDustThreshold = 546,
      ppCoinjoinConfidence = round64 (8 / 10), ppDustExclusionConfidence = round64 (8 / 10),
      ppEqualOutputMin = 3, ppCollabInputMin = 3, ppCollabOutputMin = 3\<rparr>"

record preprocessingParamsOverrides =
  ovHubThreshold :: "float64 option"
  ovHubDegreeSaturation :: "float64 option"
  ovDustThreshold :: "string option"
  ovCoinjoinConfidence :: "float64 option"
  ovDustExclusionConfidence :: "float64 option"
  ovEqualOutputMin :: "int option"
  ovCollabInputMin :: "int option"
  ovCollabOutputMin :: "int option"

text \<open>\<open>json.Unmarshal\<close> into the overrides: it fails when the document is no object or a member has the wrong type.\<close>

definition decode_overrides :: "RawMessage \<Rightarrow> preprocessingParamsOverrides option" where
  "decode_overrides raw =
     Option.bind (json_members raw) (\<lambda>ms.
     Option.bind (json_ptr dec_float ''hub_threshold'' ms None) (\<lambda>a.
     Option.bind (json_ptr dec_float ''hub_degree_saturation'' ms None) (\<lambda>b.
     Option.bind (json_ptr dec_string ''dust_threshold'' ms None) (\<lambda>c.
     Option.bind (json_ptr dec_float ''coinjoin_confidence'' ms None) (\<lambda>d.
     Option.bind (json_ptr dec_float ''dust_exclusion_confidence'' ms None) (\<lambda>e.
     Option.bind (json_ptr dec_int ''equal_output_min'' ms None) (\<lambda>f.
     Option.bind (json_ptr dec_int ''collab_input_min'' ms None) (\<lambda>g.
     Option.bind (json_ptr dec_int ''collab_output_min'' ms None) (\<lambda>h.
       Some \<lparr>ovHubThreshold = a, ovHubDegreeSaturation = b, ovDustThreshold = c, ovCoinjoinConfidence = d,
         ovDustExclusionConfidence = e, ovEqualOutputMin = f, ovCollabInputMin = g, ovCollabOutputMin = h\<rparr>)))))))))"

definition override :: "'a option \<Rightarrow> 'a \<Rightarrow> 'a" where
  "override new old = (case new of None \<Rightarrow> old | Some v \<Rightarrow> v)"

definition apply_overrides :: "preprocessingParamsOverrides \<Rightarrow> PreprocessingParams \<Rightarrow> error + PreprocessingParams" where
  "apply_overrides ov p =
     (case (case ovDustThreshold ov of None \<Rightarrow> Some (ppDustThreshold p) | Some t \<Rightarrow> SetString10 t) of
        None \<Rightarrow> Inl (ErrMsg (''registry: invalid dust_threshold '' @ override (ovDustThreshold ov) [] @ '' in chain.config''))
      | Some dust \<Rightarrow> Inr
          \<lparr>ppHubThreshold = override (ovHubThreshold ov) (ppHubThreshold p),
           ppHubDegreeSaturation = override (ovHubDegreeSaturation ov) (ppHubDegreeSaturation p),
           ppDustThreshold = dust,
           ppCoinjoinConfidence = override (ovCoinjoinConfidence ov) (ppCoinjoinConfidence p),
           ppDustExclusionConfidence = override (ovDustExclusionConfidence ov) (ppDustExclusionConfidence p),
           ppEqualOutputMin = override (ovEqualOutputMin ov) (ppEqualOutputMin p),
           ppCollabInputMin = override (ovCollabInputMin ov) (ppCollabInputMin p),
           ppCollabOutputMin = override (ovCollabOutputMin ov) (ppCollabOutputMin p)\<rparr>)"

definition parse_config :: "RawMessage \<Rightarrow> error + PreprocessingParams" where
  "parse_config raw =
     (if raw = RawEmpty then Inr defaultPreprocessingParams
      else case decode_overrides raw of
          None \<Rightarrow> Inl (ErrWrap ''registry: parse chain.config'' (ErrMsg ''json''))
        | Some ov \<Rightarrow> apply_overrides ov defaultPreprocessingParams)"

definition PreprocessingParamsFor :: "string \<Rightarrow> PreprocessingParams sql" where
  "PreprocessingParamsFor chainID =
     bnd (wrap ''registry: preprocessing_params_for'' (query (\<lambda>s.
       map_option chConfig (List.find (\<lambda>c. chChainID c = chainID) (tblChain s))))) (\<lambda>r. case r of
         None \<Rightarrow> throw (ErrMsg (''registry: chain '' @ chainID @ '' is not registered''))
       | Some raw \<Rightarrow> (case parse_config raw of Inl e \<Rightarrow> throw e | Inr p \<Rightarrow> ret p))"

lemma keeps_registry_reads [keep_rules]:
  assumes "stable I"
  shows "keeps I (ConfigFor c k)" "keeps I (ConfidenceFor c k)" "keeps I ListChains" "keeps I (PreprocessingParamsFor c)"
  unfolding ConfidenceFor_def ConfigFor_def ListChains_def PreprocessingParamsFor_def
  by (intro keep_rules assms)+

lemma heuristic_config_advance [simp]: "heuristic_config (advance s) c k = heuristic_config s c k"
  unfolding heuristic_config_def advance_fields ..

lemma ConfigFor_Inr:
  "ConfigFor c k s = (Inr r, s') \<longleftrightarrow> next_outcome s = Done \<and> s' = advance s \<and> r = heuristic_config s c k"
  by (auto simp: ConfigFor_def query_Inr)

text \<open>
  Parameters default field by field. A chain whose configuration is empty runs with the
  defaults, and every key that a configuration document leaves out keeps its default.
\<close>

theorem params_default_per_field:
  "parse_config RawEmpty = Inr defaultPreprocessingParams \<and>
   parse_config (RawDoc (JObj [])) = Inr defaultPreprocessingParams \<and>
   (\<forall>t n. SetString10 t = Some n \<longrightarrow>
      parse_config (RawDoc (JObj [(''dust_threshold'', JStr t)])) = Inr (defaultPreprocessingParams\<lparr>ppDustThreshold := n\<rparr>)) \<and>
   (\<forall>t. SetString10 t = None \<longrightarrow> (\<exists>e. parse_config (RawDoc (JObj [(''dust_threshold'', JStr t)])) = Inl e))"
  by (simp add: parse_config_def decode_overrides_def apply_overrides_def override_def defaultPreprocessingParams_def
      ToLower_def lower_char_def)

theorem params_default_per_field_witness:
  "parse_config (RawDoc (JObj [(''dust_threshold'', JStr ''1000'')])) = Inr (defaultPreprocessingParams\<lparr>ppDustThreshold := 1000\<rparr>)"
proof -
  have "SetString10 ''1000'' = Some 1000" by code_simp
  then show ?thesis using params_default_per_field by blast
qed


section \<open>Audit log\<close>

text \<open>\<open>json.Marshal\<close> of the target is done by the caller's encoder, which cannot fail on the targets used.\<close>

definition Log :: "string \<Rightarrow> string \<Rightarrow> json \<Rightarrow> string \<Rightarrow> unit sql" where
  "Log actor action target rationale = wrap ''audit: log'' (stmt (\<lambda>s.
     (Inr (), s\<lparr>auditSeq := auditSeq s + 1, tblAudit := tblAudit s @
        [\<lparr>auEventID = auditSeq s, auActor = actor, auAction = action, auTarget = jsonb (drv s) target,
          auRationale = rationale, auAt = clock s\<rparr>]\<rparr>)))"

definition outside_audit :: "db \<Rightarrow> db" where
  "outside_audit s = s\<lparr>schedule := [], auditSeq := 0, tblAudit := []\<rparr>"

lemma keeps_Log [keep_rules]: "keeps (\<lambda>s. outside_audit s = k) (Log a b t r)"
  unfolding Log_def by (intro keep_rules keeps_stmt) (simp_all add: stable_def outside_audit_def)


section \<open>Sweep targets\<close>

definition at_target :: "string \<Rightarrow> string \<Rightarrow> SweepTarget \<Rightarrow> bool" where
  "at_target chainID address t \<longleftrightarrow> stChainID t = chainID \<and> stAddress t = address"

definition Add :: "SweepTarget \<Rightarrow> unit sql" where
  "Add target = wrap ''sweeptarget: add'' (stmt (\<lambda>s.
     case numericOf (drv s) (stConfidence target) of
       None \<Rightarrow> (Inl ''numeric field overflow'', s)
     | Some q \<Rightarrow> (Inr (), s\<lparr>tblSweep :=
         (if \<exists>t \<in> set (tblSweep s). at_target (stChainID target) (stAddress target) t
          then map (\<lambda>t. if at_target (stChainID target) (stAddress target) t
                        then t\<lparr>stEntityHint := stEntityHint target, stSource := stSource target, stConfidence := q\<rparr>
                        else t) (tblSweep s)
          else tblSweep s @ [target\<lparr>stConfidence := q\<rparr>])\<rparr>)))"

definition sweep_target :: "db \<Rightarrow> string \<Rightarrow> string \<Rightarrow> SweepTarget option" where
  "sweep_target s chainID address =
     map_option (\<lambda>t. t\<lparr>stConfidence := floatOf (drv s) (stConfidence t)\<rparr>)
       (List.find (at_target chainID address) (tblSweep s))"

definition GetTarget :: "string \<Rightarrow> string \<Rightarrow> SweepTarget option sql" where
  "GetTarget chainID address = wrap ''sweeptarget: get'' (query (\<lambda>s. sweep_target s chainID address))"

definition ListAll :: "string \<Rightarrow> SweepTarget list sql" where
  "ListAll chainID = wrap ''sweeptarget: list_all'' (query (\<lambda>s.
     map (\<lambda>t. t\<lparr>stConfidence := floatOf (drv s) (stConfidence t)\<rparr>)
       (heapSweep (drv s) (filter (\<lambda>t. stChainID t = chainID) (tblSweep s)))))"

lemma keeps_sweep_reads [keep_rules]:
  assumes "stable I"
  shows "keeps I (GetTarget c a)" "keeps I (ListAll c)"
  unfolding GetTarget_def ListAll_def by (intro keep_rules assms)+

end
