(* ===== verification/Preprocessor.thy ===== *)
theory Preprocessor
  imports Ingestor LabelStore Registry
begin

text \<open>
  \<open>internal/preprocessor\<close> (\<open>detect.go\<close>, \<open>hub.go\<close>, \<open>store.go\<close>): what is marked before any
  heuristic runs. Hubs by label or by counterparty degree, collaborative transactions by
  their equal outputs, and dust.
\<close>

section \<open>Detection\<close>

record CollaborativeTxDetection =
  cdChainID :: string
  cdTxID :: string
  cdConfidence :: float64

definition count_step :: "(string \<times> nat) list \<times> nat \<Rightarrow> ReceivedEntry \<Rightarrow> (string \<times> nat) list \<times> nat" where
  "count_step = (\<lambda>(counts, mx) e.
     let key = itoa (reAmount e);
         n = (case map_of counts key of None \<Rightarrow> 0 | Some k \<Rightarrow> k) + 1
     in (AList.update key n counts, if mx < n then n else mx))"

definition maxEqualAmountGroup :: "ReceivedEntry list \<Rightarrow> nat" where
  "maxEqualAmountGroup outs = snd (foldl count_step ([], 0) outs)"

definition is_collaborative :: "PreprocessingParams \<Rightarrow> TxGroup \<Rightarrow> bool" where
  "is_collaborative params tx \<longleftrightarrow>
     (let ins = SpentAddresses (tgDeltas tx); outs = ReceivedEntries (tgDeltas tx) in
      ppEqualOutputMin params \<le> int (maxEqualAmountGroup outs) \<and>
      ppCollabInputMin params \<le> int (length ins) \<and>
      ppCollabOutputMin params \<le> int (length outs))"

definition DetectCollaborativeTx :: "BalanceDelta list \<Rightarrow> PreprocessingParams \<Rightarrow> CollaborativeTxDetection list" where
  "DetectCollaborativeTx deltas params =
     foldl (\<lambda>out tx. if is_collaborative params tx
        then out @ [\<lparr>cdChainID = tkChainID (tgKey tx), cdTxID = tkTxID (tgKey tx), cdConfidence = ppCoinjoinConfidence params\<rparr>]
        else out) [] (GroupByTx deltas)"

record AddressRef =
  arChainID :: string
  arAddress :: string

definition dust_step :: "int \<Rightarrow> AddressRef list \<Rightarrow> BalanceDelta \<Rightarrow> AddressRef list" where
  "dust_step dustThreshold out d =
     (case bdAmount d of
        None \<Rightarrow> out
      | Some v \<Rightarrow>
          if v \<le> 0 then out
          else if dustThreshold < v then out
          else let ref = \<lparr>arChainID = bdChainID d, arAddress = bdAddress d\<rparr> in
               if ref \<in> set out then out else out @ [ref])"

definition DustInflows :: "BalanceDelta list \<Rightarrow> int \<Rightarrow> AddressRef list" where
  "DustInflows deltas dustThreshold = foldl (dust_step dustThreshold) [] deltas"


section \<open>Hubs\<close>

definition hubLabelCategories :: "(string \<times> string) list" where
  "hubLabelCategories = [(''exchange'', ''exchange''), (''mixer'', ''mixer''), (''bridge'', ''bridge'')]"

fun hubTypeFromLabels :: "Label list \<Rightarrow> string option" where
  "hubTypeFromLabels [] = None"
| "hubTypeFromLabels (l # ls) =
     (if lbStatus l \<noteq> ''active'' then hubTypeFromLabels ls
      else case map_of hubLabelCategories (lbCategory l) of
          Some hubType \<Rightarrow> Some hubType
        | None \<Rightarrow> hubTypeFromLabels ls)"

definition dedupeStrings :: "string list \<Rightarrow> string list" where
  "dedupeStrings xs = dedup_loop [] xs"

definition degree_in :: "db \<Rightarrow> string \<Rightarrow> string \<Rightarrow> nat" where
  "degree_in s chainID address =
     length (remdups (concat (map (\<lambda>self.
       map bdAddress (filter (\<lambda>other. bdChainID other = bdChainID self \<and> bdTxID other = bdTxID self \<and>
         bdAddress other \<noteq> bdAddress self) (tblDelta s)))
       (filter (\<lambda>self. bdChainID self = chainID \<and> bdAddress self = address) (tblDelta s)))))"

definition counterpartyDegree :: "string \<Rightarrow> string \<Rightarrow> nat sql" where
  "counterpartyDegree chainID address = query (\<lambda>s. degree_in s chainID address)"

definition hubScoreFromDegree :: "nat \<Rightarrow> float64 \<Rightarrow> float64" where
  "hubScoreFromDegree degree saturation =
     (if saturation \<le> 0 then 0
      else let score = fdiv (float_of_int (int degree)) saturation in if 1 < score then 1 else score)"

definition mark_hub :: "string \<Rightarrow> PreprocessingParams \<Rightarrow> string \<Rightarrow> unit sql" where
  "mark_hub chainID params addr =
     bnd (wrap (''preprocessor: mark_hubs: labels_of('' @ addr @ '')'') (LabelsOf chainID ''address'' addr)) (\<lambda>labels.
     case hubTypeFromLabels labels of
       Some hubType \<Rightarrow> wrap (''preprocessor: mark_hubs: set_hub('' @ addr @ '')'')
         (SetHub chainID addr hubType (round64 (99 / 100)))
     | None \<Rightarrow>
         bnd (wrap (''preprocessor: mark_hubs: counterparty_degree('' @ addr @ '')'') (counterpartyDegree chainID addr)) (\<lambda>degree.
         let score = hubScoreFromDegree degree (ppHubDegreeSaturation params) in
         if ppHubThreshold params \<le> score
         then wrap (''preprocessor: mark_hubs: set_hub('' @ addr @ '')'') (SetHub chainID addr ''unknown'' score)
         else ret ()))"

definition MarkHubs :: "string \<Rightarrow> string list \<Rightarrow> PreprocessingParams \<Rightarrow> unit sql" where
  "MarkHubs chainID addresses params = forE (mark_hub chainID params) (dedupeStrings addresses)"


section \<open>Excluded transactions\<close>

definition at_tx :: "string \<Rightarrow> string \<Rightarrow> ExcludedRow \<Rightarrow> bool" where
  "at_tx chainID txid r \<longleftrightarrow> exChainID r = chainID \<and> exTxID r = txid"

definition excluded_in :: "db \<Rightarrow> string \<Rightarrow> string \<Rightarrow> bool" where
  "excluded_in s chainID txid \<longleftrightarrow> (\<exists>r \<in> set (tblExcluded s). at_tx chainID txid r)"

definition IsExcluded :: "string \<Rightarrow> string \<Rightarrow> bool sql" where
  "IsExcluded chainID txid = wrap ''preprocessor: is_excluded'' (query (\<lambda>s. excluded_in s chainID txid))"

definition exclude_rows :: "string \<Rightarrow> string \<Rightarrow> string \<Rightarrow> rat \<Rightarrow> string option \<Rightarrow> ExcludedRow list \<Rightarrow> ExcludedRow list" where
  "exclude_rows chainID txid reason q signal tbl =
     (if \<exists>r \<in> set tbl. at_tx chainID txid r
      then map (\<lambda>r. if at_tx chainID txid r then r\<lparr>exReason := reason, exConfidence := Some q, exSignal := signal\<rparr> else r) tbl
      else tbl @ [\<lparr>exChainID = chainID, exTxID = txid, exReason = reason, exConfidence = Some q, exSignal = signal\<rparr>])"

definition Exclude :: "string \<Rightarrow> string \<Rightarrow> string \<Rightarrow> float64 \<Rightarrow> string option \<Rightarrow> unit sql" where
  "Exclude chainID txid reason detectorConfidence signal = wrap ''preprocessor: exclude'' (stmt (\<lambda>s.
     case numericOf (drv s) detectorConfidence of
       None \<Rightarrow> (Inl ''numeric field overflow'', s)
     | Some q \<Rightarrow> (Inr (), s\<lparr>tblExcluded := exclude_rows chainID txid reason q signal (tblExcluded s)\<rparr>)))"

definition MarkCollaborativeTx :: "BalanceDelta list \<Rightarrow> PreprocessingParams \<Rightarrow> unit sql" where
  "MarkCollaborativeTx deltas params =
     forE (\<lambda>det. wrap (''preprocessor: mark_collaborative_tx('' @ cdTxID det @ '')'')
        (Exclude (cdChainID det) (cdTxID det) ''coinjoin'' (cdConfidence det) None))
       (DetectCollaborativeTx deltas params)"

text \<open>The loop over the spenders stops at the first that is not tainted.\<close>

fun all_tainted :: "string \<Rightarrow> string list \<Rightarrow> bool sql" where
  "all_tainted chainID [] = ret True"
| "all_tainted chainID (addr # ins) =
     bnd (wrap (''preprocessor: mark_dust: get('' @ addr @ '')'') (Get chainID addr)) (\<lambda>r. case r of
       None \<Rightarrow> ret False
     | Some a \<Rightarrow> if \<not> adDustFlag a then ret False else all_tainted chainID ins)"

definition mark_dust_tx :: "PreprocessingParams \<Rightarrow> TxGroup \<Rightarrow> unit sql" where
  "mark_dust_tx params tx =
     (let ins = SpentAddresses (tgDeltas tx) in
      if length ins = 0 then ret ()
      else bnd (all_tainted (tkChainID (tgKey tx)) ins) (\<lambda>allTainted.
        if allTainted
        then wrap (''preprocessor: mark_dust: exclude('' @ tkTxID (tgKey tx) @ '')'')
          (Exclude (tkChainID (tgKey tx)) (tkTxID (tgKey tx)) ''dust-only'' (ppDustExclusionConfidence params) None)
        else ret ()))"

definition MarkDust :: "BalanceDelta list \<Rightarrow> PreprocessingParams \<Rightarrow> unit sql" where
  "MarkDust deltas params =
     bnd (forE (\<lambda>ref. wrap (''preprocessor: mark_dust: set_dust_flag('' @ arAddress ref @ '')'')
        (SetDustFlag (arChainID ref) (arAddress ref))) (DustInflows deltas (ppDustThreshold params))) (\<lambda>_.
      forE (mark_dust_tx params) (GroupByTx deltas))"


section \<open>What detection computes\<close>

lemma itoa_inj: "itoa i = itoa j \<longleftrightarrow> i = j"
  by (metis SetString10_itoa option.inject)

definition equal_outputs :: "ReceivedEntry list \<Rightarrow> int \<Rightarrow> nat" where
  "equal_outputs outs v = length (filter (\<lambda>e. reAmount e = v) outs)"

lemma count_loop:
  "(\<forall>v. (case map_of (fst (foldl count_step ([], 0) outs)) (itoa v) of None \<Rightarrow> 0 | Some n \<Rightarrow> n) = equal_outputs outs v) \<and>
   (\<forall>v. equal_outputs outs v \<le> snd (foldl count_step ([], 0) outs)) \<and>
   (outs \<noteq> [] \<longrightarrow> (\<exists>e \<in> set outs. snd (foldl count_step ([], 0) outs) = equal_outputs outs (reAmount e)))"
proof (induction outs rule: rev_induct)
  case Nil
  show ?case by (simp add: equal_outputs_def)
next
  case (snoc e outs)
  obtain counts mx where F: "foldl count_step ([], 0) outs = (counts, mx)" by fastforce
  have snoc_count: "equal_outputs (outs @ [e]) v = equal_outputs outs v + (if v = reAmount e then 1 else 0)" for v
    by (simp add: equal_outputs_def)
  have c: "\<And>v. (case map_of counts (itoa v) of None \<Rightarrow> 0 | Some n \<Rightarrow> n) = equal_outputs outs v"
    and le: "\<And>v. equal_outputs outs v \<le> mx"
    and ex: "outs \<noteq> [] \<Longrightarrow> \<exists>e \<in> set outs. mx = equal_outputs outs (reAmount e)"
    using snoc F by auto
  let ?n = "equal_outputs outs (reAmount e) + 1"
  have "foldl count_step ([], 0) (outs @ [e]) = count_step (counts, mx) e" by (simp add: F)
  also have "\<dots> = (AList.update (itoa (reAmount e)) ?n counts, max mx ?n)"
    using c [of "reAmount e"] by (auto simp: count_step_def Let_def max_def)
  finally have G: "foldl count_step ([], 0) (outs @ [e]) = (AList.update (itoa (reAmount e)) ?n counts, max mx ?n)" .
  have 1: "(case map_of (AList.update (itoa (reAmount e)) ?n counts) (itoa v) of None \<Rightarrow> 0 | Some n \<Rightarrow> n) = equal_outputs (outs @ [e]) v" for v
    using c [of v] by (simp add: update_conv' itoa_inj snoc_count)
  have 2: "equal_outputs (outs @ [e]) v \<le> max mx ?n" for v
    using le [of v] by (auto simp: snoc_count)
  have 3: "\<exists>e' \<in> set (outs @ [e]). max mx ?n = equal_outputs (outs @ [e]) (reAmount e')"
  proof (cases "mx < ?n")
    case True
    then show ?thesis by (auto simp: snoc_count)
  next
    case False
    then have "outs \<noteq> []" using F by auto
    then obtain e' where "e' \<in> set outs" "mx = equal_outputs outs (reAmount e')" using ex by blast
    moreover from this False have "reAmount e' \<noteq> reAmount e" by auto
    ultimately show ?thesis using False by (intro bexI [of _ e']) (auto simp: snoc_count)
  qed
  show ?case unfolding G using 1 2 3 by simp
qed

lemma maxEqualAmountGroup_max:
  "equal_outputs outs v \<le> maxEqualAmountGroup outs"
  "outs \<noteq> [] \<Longrightarrow> \<exists>e \<in> set outs. maxEqualAmountGroup outs = equal_outputs outs (reAmount e)"
  using count_loop [of outs] by (simp_all add: maxEqualAmountGroup_def)

lemma maxEqualAmountGroup_ge:
  "0 < k \<Longrightarrow> k \<le> maxEqualAmountGroup outs \<longleftrightarrow> (\<exists>v. k \<le> equal_outputs outs v)"
proof
  assume "0 < k" "k \<le> maxEqualAmountGroup outs"
  then have "outs \<noteq> []" by (auto simp: maxEqualAmountGroup_def)
  then show "\<exists>v. k \<le> equal_outputs outs v" using maxEqualAmountGroup_max(2) \<open>k \<le> maxEqualAmountGroup outs\<close> by metis
qed (use maxEqualAmountGroup_max(1) order_trans in blast)

lemma foldl_append_if: "foldl (\<lambda>out x. if P x then out @ [f x] else out) acc xs = acc @ map f (filter P xs)"
  by (induction xs arbitrary: acc) simp_all

lemma DetectCollaborativeTx_eq:
  "DetectCollaborativeTx ds p =
     map (\<lambda>tx. \<lparr>cdChainID = tkChainID (tgKey tx), cdTxID = tkTxID (tgKey tx), cdConfidence = ppCoinjoinConfidence p\<rparr>)
       (filter (is_collaborative p) (GroupByTx ds))"
  by (simp add: DetectCollaborativeTx_def foldl_append_if)

definition dust_inflow :: "int \<Rightarrow> BalanceDelta \<Rightarrow> bool" where
  "dust_inflow t d \<longleftrightarrow> (\<exists>v. bdAmount d = Some v \<and> 0 < v \<and> v \<le> t)"

lemma DustInflows_eq:
  "DustInflows ds t = dedup_loop [] (map (\<lambda>d. \<lparr>arChainID = bdChainID d, arAddress = bdAddress d\<rparr>) (filter (dust_inflow t) ds))"
proof -
  have "foldl (dust_step t) out ds =
      dedup_loop out (map (\<lambda>d. \<lparr>arChainID = bdChainID d, arAddress = bdAddress d\<rparr>) (filter (dust_inflow t) ds))" for out
    by (induction ds arbitrary: out) (auto simp: dust_step_def dust_inflow_def Let_def split: option.splits)
  then show ?thesis by (simp add: DustInflows_def)
qed

text \<open>
  A transaction is judged collaborative exactly when some amount is received at least
  \<open>EqualOutputMin\<close> times in it and it has enough distinct spenders and enough outputs. Counting by the
  decimal rendering of the amount is counting by the amount.
\<close>

theorem collaborative_exact:
  assumes "0 < ppEqualOutputMin p"
  shows "is_collaborative p tx \<longleftrightarrow>
    (\<exists>v. ppEqualOutputMin p \<le> int (length (filter (\<lambda>e. reAmount e = v) (ReceivedEntries (tgDeltas tx))))) \<and>
    ppCollabInputMin p \<le> int (card (bdAddress ` {d \<in> set (tgDeltas tx). spends d})) \<and>
    ppCollabOutputMin p \<le> int (length (filter receives (tgDeltas tx)))"
proof -
  let ?outs = "ReceivedEntries (tgDeltas tx)"
  have "length (SpentAddresses (tgDeltas tx)) = card (bdAddress ` {d \<in> set (tgDeltas tx). spends d})"
    by (metis distinct_SpentAddresses distinct_card set_SpentAddresses)
  moreover have "ppEqualOutputMin p \<le> int (maxEqualAmountGroup ?outs) \<longleftrightarrow> (\<exists>v. ppEqualOutputMin p \<le> int (equal_outputs ?outs v))"
    using maxEqualAmountGroup_ge [of "nat (ppEqualOutputMin p)" ?outs] assms by (simp add: nat_le_iff)
  moreover have "length ?outs = length (filter receives (tgDeltas tx))" by (simp add: ReceivedEntries_eq)
  ultimately show ?thesis by (simp add: is_collaborative_def Let_def equal_outputs_def)
qed

theorem collaborative_exact_witness:
  "0 < ppEqualOutputMin defaultPreprocessingParams \<and>
   \<not> is_collaborative defaultPreprocessingParams \<lparr>tgKey = \<lparr>tkChainID = ''eth'', tkTxID = ''t1''\<rparr>, tgDeltas = sample_batch\<rparr>"
proof -
  have "0 < ppEqualOutputMin defaultPreprocessingParams" by (simp add: defaultPreprocessingParams_def)
  then show ?thesis using collaborative_exact [of defaultPreprocessingParams]
    by (simp add: sample_batch_def sample_delta_def spends_def receives_def defaultPreprocessingParams_def)
qed


section \<open>Frames and monotonicity\<close>

definition outside_pre :: "db \<Rightarrow> db" where
  "outside_pre s = s\<lparr>schedule := [], tblAddress := [], tblExcluded := []\<rparr>"

text \<open>
  A predicate that tolerates registry growth and new exclusions is kept by the whole
  preprocessing.
\<close>

locale preprocessing_invariant =
  fixes I :: "db \<Rightarrow> bool"
  assumes st: "stable I"
    and hub: "\<And>c a t q. keeps I (SetHub c a t q)"
    and dust: "\<And>c a. keeps I (SetDustFlag c a)"
    and exclude: "\<And>c t r q g. keeps I (Exclude c t r q g)"
begin

lemma keeps_all_tainted: "keeps I (all_tainted c ins)"
  by (induction ins) (auto intro!: keep_rules st)

lemma keeps_MarkHubs: "keeps I (MarkHubs c as p)"
  unfolding MarkHubs_def mark_hub_def counterpartyDegree_def by (intro keep_rules st hub)

lemma keeps_MarkCollaborativeTx: "keeps I (MarkCollaborativeTx ds p)"
  unfolding MarkCollaborativeTx_def by (intro keep_rules exclude)

lemma keeps_MarkDust: "keeps I (MarkDust ds p)"
  unfolding MarkDust_def mark_dust_tx_def by (intro keep_rules dust exclude keeps_all_tainted)

lemmas keeps_preprocessing = keeps_MarkHubs keeps_MarkCollaborativeTx keeps_MarkDust

end

lemma keeps_Exclude:
  assumes "stable I" and "\<And>s t. I s \<Longrightarrow> I (s\<lparr>tblExcluded := t\<rparr>)"
  shows "keeps I (Exclude c t r q g)"
  unfolding Exclude_def by (intro keep_rules keeps_stmt assms(1)) (auto intro: assms(2) split: option.splits)

lemma exclude_rows_at:
  "(\<exists>x \<in> set (exclude_rows c' t' r q g T). at_tx c t x) \<longleftrightarrow> (\<exists>x \<in> set T. at_tx c t x) \<or> c = c' \<and> t = t'"
proof (cases "\<exists>x \<in> set T. at_tx c' t' x")
  case True
  have "(\<exists>x \<in> set (map f T). at_tx c t x) \<longleftrightarrow> (\<exists>x \<in> set T. at_tx c t x)" if "\<And>x. at_tx c t (f x) = at_tx c t x" for f
    using that by auto
  then have "(\<exists>x \<in> set (exclude_rows c' t' r q g T). at_tx c t x) \<longleftrightarrow> (\<exists>x \<in> set T. at_tx c t x)"
    using True unfolding exclude_rows_def by (simp add: at_tx_def del: set_map)
  with True show ?thesis by auto
qed (auto simp: exclude_rows_def at_tx_def)

lemma Exclude_Inr:
  "Exclude c t r q g s = (Inr x, s') \<longleftrightarrow> next_outcome s = Done \<and>
     (\<exists>k. numericOf (drv s) q = Some k \<and> s' = (advance s)\<lparr>tblExcluded := exclude_rows c t r k g (tblExcluded s)\<rparr>)"
  by (auto simp: Exclude_def stmt_Inr split: option.splits)

lemma Exclude_excludes:
  "Exclude c' t' r q g s = (Inr x, s') \<Longrightarrow> excluded_in s' c t \<longleftrightarrow> excluded_in s c t \<or> c = c' \<and> t = t'"
proof -
  assume "Exclude c' t' r q g s = (Inr x, s')"
  then obtain k where "s' = (advance s)\<lparr>tblExcluded := exclude_rows c' t' r k g (tblExcluded s)\<rparr>"
    unfolding Exclude_Inr by blast
  then show ?thesis unfolding excluded_in_def by (simp add: exclude_rows_at)
qed

lemma keeps_Exclude_mono: "keeps (\<lambda>s. excluded_in s c t) (Exclude c' t' r q g)"
  unfolding Exclude_def
  by (intro keep_rules keeps_stmt) (auto simp: stable_def excluded_in_def exclude_rows_at split: option.split)

interpretation pre_frame: preprocessing_invariant "\<lambda>s. outside_pre s = k" for k
proof
  have fr: "outside_pre t = (outside_addresses t)\<lparr>tblExcluded := []\<rparr>" for t
    by (simp add: outside_pre_def outside_addresses_def)
  show "stable (\<lambda>s. outside_pre s = k)" by (simp add: stable_def outside_pre_def)
  then show "keeps (\<lambda>s. outside_pre s = k) (Exclude c t r q g)" for c t r q g
    by (rule keeps_Exclude) (simp add: outside_pre_def)
  show "keeps (\<lambda>s. outside_pre s = k) (SetHub c a t q)" for c a t q
    by (rule keeps_frame [OF keeps_address_writes(2)]) (simp add: fr)
  show "keeps (\<lambda>s. outside_pre s = k) (SetDustFlag c a)" for c a
    by (rule keeps_frame [OF keeps_address_writes(3)]) (simp add: fr)
qed

interpretation pre_registry: preprocessing_invariant registry_inv
proof
  show "keeps registry_inv (Exclude c t r q g)" for c t r q g
    by (rule keeps_Exclude) (simp_all add: stable_registry registry_inv_def)
qed (intro stable_registry keep_rules)+

interpretation pre_grows: preprocessing_invariant "\<lambda>s. registry_grows t (tblAddress s)" for t
proof
  show "keeps (\<lambda>s. registry_grows t (tblAddress s)) (Exclude c t' r q g)" for c t' r q g
    by (rule keeps_Exclude) (simp_all add: stable_registry)
qed (intro stable_registry keep_rules)+

interpretation pre_excluded: preprocessing_invariant "\<lambda>s. excluded_in s c t" for c t
proof
  show "stable (\<lambda>s. excluded_in s c t)" by (simp add: stable_def excluded_in_def)
  have fr: "excluded_in s c t = excluded_in s' c t" if "outside_addresses s = outside_addresses s'" for s s'
  proof -
    have "tblExcluded (outside_addresses s) = tblExcluded (outside_addresses s')" using that by simp
    then show ?thesis by (simp add: excluded_in_def outside_addresses_def)
  qed
  show "keeps (\<lambda>s. excluded_in s c t) (SetHub c' a ty q)" for c' a ty q
    by (rule keeps_frame [OF keeps_address_writes(2)]) (rule fr)
  show "keeps (\<lambda>s. excluded_in s c t) (SetDustFlag c' a)" for c' a
    by (rule keeps_frame [OF keeps_address_writes(3)]) (rule fr)
qed (rule keeps_Exclude_mono)


section \<open>What the marks say\<close>

definition registered :: "db \<Rightarrow> string \<Rightarrow> string \<Rightarrow> bool" where
  "registered s c a \<longleftrightarrow> (\<exists>r \<in> set (tblAddress s). at_address c a r)"

definition dust_in :: "db \<Rightarrow> string \<Rightarrow> string \<Rightarrow> bool" where
  "dust_in s c a \<longleftrightarrow> (case find_address s c a of None \<Rightarrow> False | Some r \<Rightarrow> adDustFlag r)"

definition hub_labelled :: "db \<Rightarrow> string \<Rightarrow> string \<Rightarrow> bool" where
  "hub_labelled s c a \<longleftrightarrow> (\<exists>l \<in> set (tblLabel s). lbChainID l = c \<and> lbTargetAddress l = Some a \<and>
     lbStatus l = ''active'' \<and> lbCategory l \<in> {''exchange'', ''mixer'', ''bridge''})"

lemma hubTypeFromLabels_None:
  "hubTypeFromLabels ls = None \<longleftrightarrow> (\<forall>l \<in> set ls. lbStatus l = ''active'' \<longrightarrow> lbCategory l \<notin> {''exchange'', ''mixer'', ''bridge''})"
  by (induction ls) (auto simp: hubLabelCategories_def)

lemma LabelsOf_address_Inr:
  "LabelsOf c ''address'' a s = (Inr ls, s') \<longleftrightarrow> next_outcome s = Done \<and> s' = advance s \<and>
     ls = map (scan_label s) (heapLabels (drv s) (filter (\<lambda>l. lbChainID l = c \<and> lbTargetAddress l = Some a) (tblLabel s)))"
  by (auto simp: LabelsOf_def query_Inr scan_label_def [abs_def])

lemma LabelsOf_hub:
  assumes "driver_ok (drv s)" and "LabelsOf c ''address'' a s = (Inr ls, s')"
  shows "hubTypeFromLabels ls \<noteq> None \<longleftrightarrow> hub_labelled s c a"
proof -
  let ?fl = "filter (\<lambda>l. lbChainID l = c \<and> lbTargetAddress l = Some a) (tblLabel s)"
  have "mset (heapLabels (drv s) ?fl) = mset ?fl" using assms(1) by (simp add: driver_ok_def)
  then have fl: "set (heapLabels (drv s) ?fl) = set ?fl" by (rule mset_eq_setD)
  have ls: "ls = map (scan_label s) (heapLabels (drv s) ?fl)" using assms(2) unfolding LabelsOf_address_Inr by blast
  have "set ls = scan_label s ` {l \<in> set (tblLabel s). lbChainID l = c \<and> lbTargetAddress l = Some a}"
    unfolding ls set_map fl by simp
  then have "hubTypeFromLabels ls = None \<longleftrightarrow> \<not> hub_labelled s c a"
    unfolding hubTypeFromLabels_None hub_labelled_def by (simp add: scan_label_def) blast
  then show ?thesis by simp
qed

lemma find_flagged:
  assumes "\<And>r. adChainID (f r) = adChainID r \<and> adAddress (f r) = adAddress r"
  shows "List.find (at_address c' b) (map (\<lambda>r. if at_address c a r then f r else r) tbl) =
     map_option (\<lambda>r. if c' = c \<and> b = a then f r else r) (List.find (at_address c' b) tbl)"
proof -
  have "List.find (at_address c' b) (map (\<lambda>r. if at_address c a r then f r else r) tbl) =
      map_option (\<lambda>r. if at_address c a r then f r else r) (List.find (at_address c' b) tbl)"
    by (rule find_map_key) (simp add: at_address_def assms)
  then show ?thesis
    by (cases "List.find (at_address c' b) tbl") (auto dest!: find_address_key simp: at_address_def)
qed

lemma registered_find: "registered s c a \<longleftrightarrow> find_address s c a \<noteq> None"
  by (auto simp: registered_def find_address_def find_None_iff)

lemma SetHub_Inr:
  assumes "SetHub c a ty q s = (Inr x, s')"
  shows "find_address s' c' b \<noteq> None \<longleftrightarrow> find_address s c' b \<noteq> None"
    and "hub_in s' c' b \<longleftrightarrow> hub_in s c' b \<or> c' = c \<and> b = a \<and> registered s c a"
proof -
  have "find_address s' c' b = (if registered s c a then map_option (\<lambda>r. if c' = c \<and> b = a
      then r\<lparr>adIsHub := True, adHubType := Some ty, adHubConfidence := numericOf (drv s) q\<rparr> else r) (find_address s c' b)
     else find_address s c' b)"
    using assms by (auto simp: SetHub_def stmt_Inr find_address_def find_flagged registered_def split: if_splits option.splits cong: if_cong)
  then show "find_address s' c' b \<noteq> None \<longleftrightarrow> find_address s c' b \<noteq> None"
    and "hub_in s' c' b \<longleftrightarrow> hub_in s c' b \<or> c' = c \<and> b = a \<and> registered s c a"
    by (auto simp: hub_in_def registered_find split: option.splits)
qed

lemma SetDustFlag_Inr:
  assumes "SetDustFlag c a s = (Inr x, s')"
  shows "find_address s' c' b \<noteq> None \<longleftrightarrow> find_address s c' b \<noteq> None"
    and "dust_in s' c' b \<longleftrightarrow> dust_in s c' b \<or> c' = c \<and> b = a \<and> registered s c a"
proof -
  have "find_address s' c' b = map_option (\<lambda>r. if c' = c \<and> b = a then r\<lparr>adDustFlag := True\<rparr> else r) (find_address s c' b)"
    using assms by (auto simp: SetDustFlag_def stmt_Inr find_address_def find_flagged)
  then show "find_address s' c' b \<noteq> None \<longleftrightarrow> find_address s c' b \<noteq> None"
    and "dust_in s' c' b \<longleftrightarrow> dust_in s c' b \<or> c' = c \<and> b = a \<and> registered s c a"
    by (auto simp: dust_in_def registered_find split: option.splits)
qed

definition hub_qualified :: "db \<Rightarrow> PreprocessingParams \<Rightarrow> string \<Rightarrow> string \<Rightarrow> bool" where
  "hub_qualified s p c a \<longleftrightarrow>
     hub_labelled s c a \<or> ppHubThreshold p \<le> hubScoreFromDegree (degree_in s c a) (ppHubDegreeSaturation p)"

lemma hub_qualified_outside:
  assumes "outside_pre s = outside_pre s'"
  shows "hub_qualified s p c a = hub_qualified s' p c a"
proof -
  have "tblLabel (outside_pre s) = tblLabel (outside_pre s')" "tblDelta (outside_pre s) = tblDelta (outside_pre s')"
    using assms by simp_all
  then have "tblLabel s = tblLabel s'" "tblDelta s = tblDelta s'" by (simp_all add: outside_pre_def)
  then show ?thesis by (simp add: hub_qualified_def hub_labelled_def degree_in_def)
qed

lemma find_address_advance [simp]: "find_address (advance s) c a = find_address s c a"
  unfolding find_address_def advance_fields ..

lemma mark_hub_Inr:
  assumes "driver_ok (drv s)" and "mark_hub c p a s = (Inr (), s')"
  shows "find_address s' c' b \<noteq> None \<longleftrightarrow> find_address s c' b \<noteq> None"
    and "hub_in s' c' b \<longleftrightarrow> hub_in s c' b \<or> c' = c \<and> b = a \<and> registered s c a \<and> hub_qualified s p c a"
proof -
  obtain ls where ls: "LabelsOf c ''address'' a s = (Inr ls, advance s)"
    and rest: "(case hubTypeFromLabels ls of
       Some hubType \<Rightarrow> wrap (''preprocessor: mark_hubs: set_hub('' @ a @ '')'') (SetHub c a hubType (round64 (99 / 100)))
     | None \<Rightarrow>
         bnd (wrap (''preprocessor: mark_hubs: counterparty_degree('' @ a @ '')'') (counterpartyDegree c a)) (\<lambda>degree.
         let score = hubScoreFromDegree degree (ppHubDegreeSaturation p) in
         if ppHubThreshold p \<le> score
         then wrap (''preprocessor: mark_hubs: set_hub('' @ a @ '')'') (SetHub c a ''unknown'' score)
         else ret ())) (advance s) = (Inr (), s')"
    using assms(2) unfolding mark_hub_def bnd_Inr wrap_Inr LabelsOf_address_Inr by blast
  have adv: "degree_in (advance s) c a = degree_in s c a" "hub_in (advance s) c' b = hub_in s c' b"
    "registered (advance s) c a = registered s c a" "degree_in (advance (advance s)) c a = degree_in s c a"
    by (simp_all add: degree_in_def hub_in_def registered_def)
  have adv2: "hub_in (advance (advance s)) c' b = hub_in s c' b" "registered (advance (advance s)) c a = registered s c a"
    by (simp_all add: hub_in_def registered_def)
  have "(\<exists>ty q t. find_address t = find_address s \<and> hub_in t c' b = hub_in s c' b \<and> registered t c a = registered s c a \<and>
        hub_qualified s p c a \<and> SetHub c a ty q t = (Inr (), s')) \<or>
      (\<not> hub_qualified s p c a \<and> s' = advance (advance s))"
  proof (cases "hubTypeFromLabels ls")
    case None
    then have nl: "\<not> hub_labelled s c a" using LabelsOf_hub [OF assms(1) ls] by simp
    show ?thesis
    proof (cases "ppHubThreshold p \<le> hubScoreFromDegree (degree_in s c a) (ppHubDegreeSaturation p)")
      case True
      then have "SetHub c a ''unknown'' (hubScoreFromDegree (degree_in s c a) (ppHubDegreeSaturation p)) (advance (advance s)) = (Inr (), s')"
        using rest None by (auto simp: bnd_Inr counterpartyDegree_def query_Inr Let_def adv)
      moreover have "find_address (advance (advance s)) = find_address s" by (intro ext) simp
      ultimately show ?thesis using True adv2 unfolding hub_qualified_def by blast
    next
      case False
      then show ?thesis using rest None nl by (auto simp: bnd_Inr counterpartyDegree_def query_Inr Let_def adv hub_qualified_def)
    qed
  next
    case (Some ty)
    then have "hub_qualified s p c a" using LabelsOf_hub [OF assms(1) ls] by (simp add: hub_qualified_def)
    moreover have "SetHub c a ty (round64 (99 / 100)) (advance s) = (Inr (), s')" using rest Some by simp
    moreover have "find_address (advance s) = find_address s" by (intro ext) simp
    ultimately show ?thesis using adv by blast
  qed
  then show "find_address s' c' b \<noteq> None \<longleftrightarrow> find_address s c' b \<noteq> None"
    and "hub_in s' c' b \<longleftrightarrow> hub_in s c' b \<or> c' = c \<and> b = a \<and> registered s c a \<and> hub_qualified s p c a"
    using SetHub_Inr adv2 by (metis find_address_advance)+
qed

text \<open>
  C33: after \<open>MarkHubs\<close> succeeds, the hubs of the chain are exactly those from before and the
  registered addresses of the batch that carry an active exchange, mixer or bridge label or whose
  degree score reaches the threshold.
\<close>

theorem mark_hubs_exact:
  assumes "driver_ok (drv s)" and "MarkHubs c addrs p s = (Inr (), s')"
  shows "hub_in s' c a \<longleftrightarrow> hub_in s c a \<or> a \<in> set addrs \<and> registered s c a \<and> hub_qualified s p c a"
proof -
  let ?J = "\<lambda>t. outside_pre t = outside_pre s \<and> (find_address t c a \<noteq> None \<longleftrightarrow> find_address s c a \<noteq> None)"
  let ?Q = "\<lambda>x. a = x \<and> registered s c a \<and> hub_qualified s p c a"
  have "?J s' \<and> (hub_in s' c a \<longleftrightarrow> hub_in s c a \<or> (\<exists>x \<in> set (dedupeStrings addrs). ?Q x))"
  proof (rule forE_effect [where J = ?J])
    show "forE (mark_hub c p) (dedupeStrings addrs) s = (Inr (), s')" using assms(2) by (simp add: MarkHubs_def)
    fix x t t'
    assume J: "?J t" and t: "mark_hub c p x t = (Inr (), t')"
    have "drv (outside_pre t) = drv (outside_pre s)" using J by simp
    then have d: "driver_ok (drv t)" using assms(1) by (simp add: outside_pre_def)
    have k: "keeps (\<lambda>u. outside_pre u = outside_pre s) (mark_hub c p x)"
      unfolding mark_hub_def counterpartyDegree_def by (intro keep_rules pre_frame.st pre_frame.hub)
    have "outside_pre t' = outside_pre s" by (rule keepsD [OF k _ t]) (rule J [THEN conjunct1])
    moreover have "hub_qualified t p c x = hub_qualified s p c x" using J hub_qualified_outside by blast
    ultimately show "?J t' \<and> (hub_in t' c a \<longleftrightarrow> hub_in t c a \<or> ?Q x)"
      using mark_hub_Inr [OF d t, of c a] J by (auto simp: registered_find)
  qed simp
  then show ?thesis by (auto simp: dedupeStrings_def)
qed

definition sample_hub_label :: "string \<Rightarrow> string \<Rightarrow> Label" where
  "sample_hub_label a category = \<lparr>lbLabelID = 1, lbTargetType = ''address'', lbChainID = ''eth'', lbTargetClusterID = None,
     lbTargetAddress = Some a, lbLabel = ''Kraken'', lbCategory = category, lbSource = ''manual'',
     lbSourceConfidence = 9 / 10, lbCollectedAt = 0, lbLastVerifiedAt = 0, lbStatus = ''active''\<rparr>"

definition sample_marks_db :: db where
  "sample_marks_db = empty_db\<lparr>tblAddress := [new_address ''eth'' ''A'' 1, new_address ''eth'' ''B'' 1],
     tblLabel := [sample_hub_label ''A'' ''exchange'']\<rparr>"

lemma driver_sample_marks: "driver_ok (drv sample_marks_db)"
  by (simp add: sample_marks_db_def empty_db_def driver_ok_sample)

theorem mark_hubs_exact_witness:
  "\<exists>s'. MarkHubs ''eth'' [''A'', ''B'', ''A''] defaultPreprocessingParams sample_marks_db = (Inr (), s') \<and> hub_in s' ''eth'' ''A''"
proof -
  have "fst (MarkHubs ''eth'' [''A'', ''B'', ''A''] defaultPreprocessingParams sample_marks_db) = Inr ()" by code_simp
  then obtain s' where s': "MarkHubs ''eth'' [''A'', ''B'', ''A''] defaultPreprocessingParams sample_marks_db = (Inr (), s')"
    by (metis prod.collapse)
  have "registered sample_marks_db ''eth'' ''A''" "hub_labelled sample_marks_db ''eth'' ''A''"
    by (simp_all add: registered_def hub_labelled_def sample_marks_db_def sample_hub_label_def at_address_def new_address_def)
  with mark_hubs_exact [OF driver_sample_marks s', of "''A''"] s' show ?thesis by (auto simp: hub_qualified_def)
qed

lemma Exclude_loop:
  assumes "forE f xs s = (Inr (), s')"
    and step: "\<And>x t t'. x \<in> set xs \<Longrightarrow> R t \<Longrightarrow> f x t = (Inr (), t') \<Longrightarrow>
      R t' \<and> (if g x then \<exists>r q u. excluded_in u c t0 = excluded_in t c t0 \<and> Exclude (kc x) (kt x) r q None u = (Inr (), t')
              else excluded_in t' c t0 = excluded_in t c t0)"
    and "R s"
  shows "R s' \<and> (excluded_in s' c t0 \<longleftrightarrow> excluded_in s c t0 \<or> (\<exists>x \<in> set xs. g x \<and> kc x = c \<and> kt x = t0))"
proof (rule forE_effect [where J = R, OF assms(1,3)])
  fix x t t'
  assume "x \<in> set xs" "R t" "f x t = (Inr (), t')"
  from step [OF this] show "R t' \<and> (excluded_in t' c t0 \<longleftrightarrow> excluded_in t c t0 \<or> g x \<and> kc x = c \<and> kt x = t0)"
    using Exclude_excludes by (auto split: if_splits)
qed

text \<open>
  After \<open>MarkCollaborativeTx\<close> succeeds, the excluded transactions are exactly those from
  before and the collaborative ones of the batch.
\<close>

theorem mark_collaborative_exact:
  assumes "MarkCollaborativeTx ds p s = (Inr (), s')"
  shows "excluded_in s' c t \<longleftrightarrow> excluded_in s c t \<or>
    (\<exists>tx \<in> set (GroupByTx ds). is_collaborative p tx \<and> tkChainID (tgKey tx) = c \<and> tkTxID (tgKey tx) = t)"
proof -
  have "True \<and> (excluded_in s' c t \<longleftrightarrow> excluded_in s c t \<or>
      (\<exists>x \<in> set (DetectCollaborativeTx ds p). True \<and> cdChainID x = c \<and> cdTxID x = t))"
    by (rule Exclude_loop [OF assms [unfolded MarkCollaborativeTx_def], where R = "\<lambda>_. True"]) auto
  then show ?thesis by (auto simp: DetectCollaborativeTx_eq)
qed

lemma all_tainted_Inr:
  "all_tainted c ins s = (Inr b, s') \<Longrightarrow>
     outside_addresses s' = outside_addresses s \<and> tblAddress s' = tblAddress s \<and> (b \<longleftrightarrow> (\<forall>a \<in> set ins. dust_in s c a))"
proof (induction ins arbitrary: s)
  case (Cons a ins)
  have adv: "outside_addresses (advance s) = outside_addresses s" "dust_in (advance s) = dust_in s"
    by (simp add: outside_addresses_def advance_def) (intro ext, simp add: dust_in_def)
  from Cons.prems Cons.IH [of "advance s"] show ?case
    by (auto simp: bnd_Inr Get_Inr adv dust_in_def split: option.splits if_splits)
qed simp

lemma mark_dust_tx_Inr:
  assumes "mark_dust_tx p tx s = (Inr (), s')"
  shows "tblAddress s' = tblAddress s"
    and "if SpentAddresses (tgDeltas tx) \<noteq> [] \<and> (\<forall>a \<in> set (SpentAddresses (tgDeltas tx)). dust_in s (tkChainID (tgKey tx)) a)
      then \<exists>r q u. excluded_in u c t = excluded_in s c t \<and> Exclude (tkChainID (tgKey tx)) (tkTxID (tgKey tx)) r q None u = (Inr (), s')
      else excluded_in s' c t = excluded_in s c t"
proof -
  have frame: "tblAddress u' = tblAddress u" if "Exclude k l r q None u = (Inr (), u')" for k l r q u u'
    using that by (auto simp: Exclude_Inr)
  have same: "excluded_in u c t = excluded_in s c t" if "outside_addresses u = outside_addresses s" for u
  proof -
    have "tblExcluded (outside_addresses u) = tblExcluded (outside_addresses s)" using that by simp
    then show ?thesis by (simp add: excluded_in_def outside_addresses_def)
  qed
  let ?ins = "SpentAddresses (tgDeltas tx)"
  consider "?ins = []" "s' = s"
    | b u where "?ins \<noteq> []" "all_tainted (tkChainID (tgKey tx)) ?ins s = (Inr b, u)"
        "(if b then Exclude (tkChainID (tgKey tx)) (tkTxID (tgKey tx)) ''dust-only'' (ppDustExclusionConfidence p) None else ret ()) u = (Inr (), s')"
    using assms by (auto simp: mark_dust_tx_def Let_def bnd_Inr split: if_splits)
  note C = this
  show "tblAddress s' = tblAddress s"
    using C by (cases) (auto split: if_splits dest!: frame dest: all_tainted_Inr)
  show "if ?ins \<noteq> [] \<and> (\<forall>a \<in> set ?ins. dust_in s (tkChainID (tgKey tx)) a)
      then \<exists>r q u. excluded_in u c t = excluded_in s c t \<and> Exclude (tkChainID (tgKey tx)) (tkTxID (tgKey tx)) r q None u = (Inr (), s')
      else excluded_in s' c t = excluded_in s c t"
  proof (rule C)
    fix b u
    assume u: "?ins \<noteq> []" "all_tainted (tkChainID (tgKey tx)) ?ins s = (Inr b, u)"
      "(if b then Exclude (tkChainID (tgKey tx)) (tkTxID (tgKey tx)) ''dust-only'' (ppDustExclusionConfidence p) None else ret ()) u = (Inr (), s')"
    note all_tainted_Inr [OF u(2)]
    moreover from this have "excluded_in u c t = excluded_in s c t" by (intro same) blast
    ultimately show ?thesis using u(1,3) by (cases b) auto
  qed simp
qed

text \<open>
  C34: \<open>MarkDust\<close> flags exactly the registered receivers of dust of the batch, and excludes
  exactly the transactions whose spenders, at least one, all carry the flag by then.
\<close>

theorem mark_dust_exact:
  assumes "MarkDust ds p s = (Inr (), s')"
  shows "(dust_in s' c a \<longleftrightarrow> dust_in s c a \<or> registered s c a \<and> \<lparr>arChainID = c, arAddress = a\<rparr> \<in> set (DustInflows ds (ppDustThreshold p))) \<and>
    (excluded_in s' c t \<longleftrightarrow> excluded_in s c t \<or>
      (\<exists>tx \<in> set (GroupByTx ds). tgKey tx = \<lparr>tkChainID = c, tkTxID = t\<rparr> \<and> SpentAddresses (tgDeltas tx) \<noteq> [] \<and>
         (\<forall>x \<in> set (SpentAddresses (tgDeltas tx)). dust_in s' c x)))"
proof -
  obtain u where u: "forE (\<lambda>ref. wrap (''preprocessor: mark_dust: set_dust_flag('' @ arAddress ref @ '')'')
        (SetDustFlag (arChainID ref) (arAddress ref))) (DustInflows ds (ppDustThreshold p)) s = (Inr (), u)"
    and s': "forE (mark_dust_tx p) (GroupByTx ds) u = (Inr (), s')"
    using assms by (auto simp: MarkDust_def bnd_Inr)
  let ?J = "\<lambda>v. (find_address v c a \<noteq> None \<longleftrightarrow> find_address s c a \<noteq> None) \<and> excluded_in v c t = excluded_in s c t"
  have ex: "excluded_in v' c t = excluded_in v c t" if "SetDustFlag k l v = (Inr (), v')" for k l v v'
    using that by (auto simp: SetDustFlag_def stmt_Inr excluded_in_def)
  have 1: "?J u \<and> (dust_in u c a \<longleftrightarrow> dust_in s c a \<or> (\<exists>x \<in> set (DustInflows ds (ppDustThreshold p)).
      c = arChainID x \<and> a = arAddress x \<and> find_address s c a \<noteq> None))"
  proof (rule forE_effect [where J = ?J, OF u])
    fix x v v'
    assume J: "?J v" and "wrap (''preprocessor: mark_dust: set_dust_flag('' @ arAddress x @ '')'')
      (SetDustFlag (arChainID x) (arAddress x)) v = (Inr (), v')"
    then have v': "SetDustFlag (arChainID x) (arAddress x) v = (Inr (), v')" by simp
    show "?J v' \<and> (dust_in v' c a \<longleftrightarrow> dust_in v c a \<or> c = arChainID x \<and> a = arAddress x \<and> find_address s c a \<noteq> None)"
      using SetDustFlag_Inr [OF v', of c a] ex [OF v'] J by (auto simp: registered_find)
  qed simp
  have dust_same: "dust_in v = dust_in u" if "tblAddress v = tblAddress u" for v
    using that by (intro ext) (simp add: dust_in_def find_address_def)
  let ?g = "\<lambda>tx. SpentAddresses (tgDeltas tx) \<noteq> [] \<and> (\<forall>a \<in> set (SpentAddresses (tgDeltas tx)). dust_in u (tkChainID (tgKey tx)) a)"
  have 2: "tblAddress s' = tblAddress u \<and> (excluded_in s' c t \<longleftrightarrow> excluded_in u c t \<or>
      (\<exists>x \<in> set (GroupByTx ds). ?g x \<and> tkChainID (tgKey x) = c \<and> tkTxID (tgKey x) = t))"
  proof (rule Exclude_loop [where R = "\<lambda>v. tblAddress v = tblAddress u", OF s'])
    fix x v v'
    assume v: "tblAddress v = tblAddress u" and v': "mark_dust_tx p x v = (Inr (), v')"
    show "tblAddress v' = tblAddress u \<and> (if ?g x
        then \<exists>r q w. excluded_in w c t = excluded_in v c t \<and> Exclude (tkChainID (tgKey x)) (tkTxID (tgKey x)) r q None w = (Inr (), v')
        else excluded_in v' c t = excluded_in v c t)"
      using mark_dust_tx_Inr(1) [OF v'] mark_dust_tx_Inr(2) [OF v', of c t] v unfolding dust_same [OF v] by simp
  qed simp
  from 2 have d: "dust_in s' = dust_in u" by (intro dust_same) blast
  have key: "(\<exists>x \<in> X. c = arChainID x \<and> a = arAddress x \<and> B) \<longleftrightarrow> B \<and> \<lparr>arChainID = c, arAddress = a\<rparr> \<in> X" for X :: "AddressRef set" and B
  proof
    assume "\<exists>x \<in> X. c = arChainID x \<and> a = arAddress x \<and> B"
    then obtain x :: AddressRef where "x \<in> X" "c = arChainID x" "a = arAddress x" B by blast
    then show "B \<and> \<lparr>arChainID = c, arAddress = a\<rparr> \<in> X" by (cases x) simp
  qed force
  have txkey: "tkChainID k = c \<and> tkTxID k = t \<longleftrightarrow> k = \<lparr>tkChainID = c, tkTxID = t\<rparr>" for k :: TxKey by (cases k) simp
  have "dust_in s' c a \<longleftrightarrow> dust_in s c a \<or> registered s c a \<and> \<lparr>arChainID = c, arAddress = a\<rparr> \<in> set (DustInflows ds (ppDustThreshold p))"
    using 1 unfolding key d registered_find by blast
  moreover have "excluded_in s' c t \<longleftrightarrow> excluded_in s c t \<or>
      (\<exists>tx \<in> set (GroupByTx ds). tgKey tx = \<lparr>tkChainID = c, tkTxID = t\<rparr> \<and> SpentAddresses (tgDeltas tx) \<noteq> [] \<and>
         (\<forall>x \<in> set (SpentAddresses (tgDeltas tx)). dust_in s' c x))"
    using 1 2 unfolding d txkey [symmetric] by metis
  ultimately show ?thesis by blast
qed

theorem mark_collaborative_exact_witness:
  "\<exists>s'. MarkCollaborativeTx sample_batch defaultPreprocessingParams sample_marks_db = (Inr (), s') \<and> \<not> excluded_in s' ''eth'' ''t1''"
proof -
  let ?p = "defaultPreprocessingParams"
  have "fst (MarkCollaborativeTx sample_batch ?p sample_marks_db) = Inr ()" by code_simp
  then obtain s' where s': "MarkCollaborativeTx sample_batch ?p sample_marks_db = (Inr (), s')" by (metis prod.collapse)
  have "list_all (\<lambda>tx. \<not> is_collaborative ?p tx) (GroupByTx sample_batch)" by code_simp
  moreover have "\<not> excluded_in sample_marks_db ''eth'' ''t1''" by code_simp
  ultimately show ?thesis using s' mark_collaborative_exact [OF s', of "''eth''" "''t1''"] by (auto simp: list_all_iff)
qed

theorem mark_dust_exact_witness:
  "\<exists>s'. MarkDust [sample_delta ''t1'' 0 ''A'' 3, sample_delta ''t2'' 0 ''A'' (- 3)] (defaultPreprocessingParams\<lparr>ppDustThreshold := 5\<rparr>) sample_marks_db = (Inr (), s') \<and>
     dust_in s' ''eth'' ''A''"
proof -
  let ?ds = "[sample_delta ''t1'' 0 ''A'' 3, sample_delta ''t2'' 0 ''A'' (- 3)]"
  let ?p = "defaultPreprocessingParams\<lparr>ppDustThreshold := 5\<rparr>"
  have "fst (MarkDust ?ds ?p sample_marks_db) = Inr ()" by code_simp
  then obtain s' where s': "MarkDust ?ds ?p sample_marks_db = (Inr (), s')" by (metis prod.collapse)
  have "registered sample_marks_db ''eth'' ''A''" by code_simp
  moreover have "\<lparr>arChainID = ''eth'', arAddress = ''A''\<rparr> \<in> set (DustInflows ?ds (ppDustThreshold ?p))" by code_simp
  ultimately show ?thesis using s' mark_dust_exact [OF s', of "''eth''" "''A''"] by blast
qed

end
