(* ===== verification/Reads.thy ===== *)
theory Reads
  imports Preprocessor
begin

text \<open>
  Code that only reads: its value is a function of the tables, it leaves the tables as they
  are, and without faults it succeeds. The composition rules let a heuristic that reads the
  registry, the exclusions and the deltas in a loop be replaced by a list expression over the tables.
\<close>

section \<open>The calculus\<close>

named_theorems reads

definition table_fun :: "(db \<Rightarrow> 'a) \<Rightarrow> bool" where
  "table_fun v \<longleftrightarrow> (\<forall>s l. v (s\<lparr>schedule := l\<rparr>) = v s)"

definition moved :: "db \<Rightarrow> db \<Rightarrow> bool" where
  "moved s s' \<longleftrightarrow> (\<exists>l. s' = s\<lparr>schedule := l\<rparr>)"

lemma moved_refl [simp]: "moved s s"
  unfolding moved_def by (rule exI [of _ "schedule s"]) simp

lemma moved_trans: "moved s t \<Longrightarrow> moved t u \<Longrightarrow> moved s u"
  unfolding moved_def by (elim exE) (simp, blast)

lemma moved_advance [simp]: "moved s (advance s)"
  unfolding moved_def advance_def by blast

lemma moved_table: "moved s s' \<Longrightarrow> table_fun v \<Longrightarrow> v s' = v s"
  unfolding moved_def table_fun_def by (elim exE) simp

lemma moved_drv: "moved s s' \<Longrightarrow> drv s' = drv s"
  unfolding moved_def by (elim exE) simp

text \<open>The driver conditions are needed where a value is converted on its way in.\<close>

definition computes :: "'a sql \<Rightarrow> (db \<Rightarrow> 'a) \<Rightarrow> bool" where
  "computes m v \<longleftrightarrow> table_fun v \<and> (\<forall>s. driver_ok (drv s) \<longrightarrow>
     (\<forall>x s'. m s = (Inr x, s') \<longrightarrow> x = v s \<and> moved s s') \<and>
     (schedule s = [] \<longrightarrow> m s = (Inr (v s), s)))"

lemma computesI:
  assumes "table_fun v"
    and "\<And>s x s'. driver_ok (drv s) \<Longrightarrow> m s = (Inr x, s') \<Longrightarrow> x = v s \<and> moved s s'"
    and "\<And>s. driver_ok (drv s) \<Longrightarrow> schedule s = [] \<Longrightarrow> m s = (Inr (v s), s)"
  shows "computes m v"
  using assms unfolding computes_def by blast

lemma computesD:
  assumes "computes m v" and "driver_ok (drv s)" and "m s = (Inr x, s')"
  shows "x = v s" and "moved s s'"
  using assms unfolding computes_def by blast+

lemma computes_table: "computes m v \<Longrightarrow> table_fun v"
  by (simp add: computes_def)

lemma computes_succeeds: "computes m v \<Longrightarrow> driver_ok (drv s) \<Longrightarrow> schedule s = [] \<Longrightarrow> m s = (Inr (v s), s)"
  unfolding computes_def by blast

lemma computes_ret [reads]: "computes (ret x) (\<lambda>_. x)"
  by (rule computesI) (auto simp: table_fun_def ret_def)

lemma computes_wrap [reads]: "computes m v \<Longrightarrow> computes (wrap p m) v"
proof (rule computesI)
  assume m: "computes m v"
  show "table_fun v" using m by (rule computes_table)
  show "x = v s \<and> moved s s'" if "driver_ok (drv s)" "wrap p m s = (Inr x, s')" for s x s'
    using that computesD [OF m that(1)] by simp
  show "wrap p m s = (Inr (v s), s)" if "driver_ok (drv s)" "schedule s = []" for s
    using computes_succeeds [OF m that] by simp
qed

lemma computes_query [reads]:
  assumes "\<And>s l. v (s\<lparr>schedule := l\<rparr>) = v s"
  shows "computes (query v) v"
proof (rule computesI)
  show t: "table_fun v" by (simp add: table_fun_def assms)
  show "x = v s \<and> moved s s'" if "query v s = (Inr x, s')" for s x s'
    using that moved_table [OF moved_advance t] by (simp add: query_Inr)
qed (simp add: query_no_faults)

lemma computes_bnd [reads]:
  assumes m: "computes m v" and f: "\<And>x. computes (f x) (w x)"
  shows "computes (bnd m f) (\<lambda>s. w (v s) s)"
proof (rule computesI)
  show "table_fun (\<lambda>s. w (v s) s)"
    using computes_table [OF m] computes_table [OF f] by (simp add: table_fun_def)
next
  fix s y s'
  assume d: "driver_ok (drv s)" and "bnd m f s = (Inr y, s')"
  then obtain x t where x: "m s = (Inr x, t)" and y: "f x t = (Inr y, s')" by (auto simp: bnd_Inr)
  note mt = computesD [OF m d x]
  have "driver_ok (drv t)" using d moved_drv [OF mt(2)] by simp
  note ft = computesD [OF f this y]
  show "y = w (v s) s \<and> moved s s'"
    using ft(1) mt moved_table [OF mt(2) computes_table [OF f]] moved_trans [OF mt(2) ft(2)] by simp
next
  fix s :: db assume "driver_ok (drv s)" "schedule s = []"
  then show "bnd m f s = (Inr (w (v s) s), s)"
    using computes_succeeds [OF m] computes_succeeds [OF f] by (simp add: bnd_def)
qed

lemma computes_if [reads]:
  "computes m v \<Longrightarrow> computes n w \<Longrightarrow> computes (if b then m else n) (\<lambda>s. if b then v s else w s)"
  by simp

lemma computes_case_option [reads]:
  "computes m v \<Longrightarrow> (\<And>y. computes (f y) (g y)) \<Longrightarrow>
     computes (case_option m f x) (\<lambda>s. case x of None \<Rightarrow> v s | Some y \<Rightarrow> g y s)"
  by (cases x) simp_all

lemma computes_case_prod [reads]:
  "(\<And>a b. computes (f a b) (g a b)) \<Longrightarrow> computes (case_prod f x) (\<lambda>s. g (fst x) (snd x) s)"
  by (cases x) simp

lemma computes_Let [reads]: "computes (f x) (g x) \<Longrightarrow> computes (Let x f) (\<lambda>s. g x s)"
  by simp

lemma computes_foldE [reads]:
  assumes "\<And>a x. computes (f a x) (g a x)"
  shows "computes (foldE f acc xs) (\<lambda>s. foldl (\<lambda>a x. g a x s) acc xs)"
proof (induction xs arbitrary: acc)
  case Nil
  show ?case using computes_ret [of acc] by simp
next
  case (Cons x xs)
  from computes_bnd [OF assms Cons.IH] show ?case by simp
qed

lemma computes_cong: "computes m v \<Longrightarrow> (\<And>s. v s = w s) \<Longrightarrow> computes m w"
  by (simp add: ext [of v w])

lemma foldl_concat: "foldl (\<lambda>a x. a @ f x) acc xs = acc @ concat (map f xs)"
  by (induction xs arbitrary: acc) simp_all


section \<open>The reads of the stores\<close>

lemma find_address_schedule [simp]: "find_address (s\<lparr>schedule := l\<rparr>) c a = find_address s c a"
  unfolding find_address_def by simp

lemma heuristic_config_schedule [simp]: "heuristic_config (s\<lparr>schedule := l\<rparr>) c k = heuristic_config s c k"
  unfolding heuristic_config_def by (simp cong: option.case_cong)

lemma sweep_target_schedule [simp]: "sweep_target (s\<lparr>schedule := l\<rparr>) c a = sweep_target s c a"
  unfolding sweep_target_def by simp

lemma excluded_in_schedule [simp]: "excluded_in (s\<lparr>schedule := l\<rparr>) c a = excluded_in s c a"
  unfolding excluded_in_def by simp

definition registry_entry :: "db \<Rightarrow> string \<Rightarrow> string \<Rightarrow> Address option" where
  "registry_entry s c a =
     map_option (\<lambda>r. r\<lparr>adHubConfidence := map_option (floatOf (drv s)) (adHubConfidence r)\<rparr>) (find_address s c a)"

lemma computes_Get [reads]: "computes (Get c a) (\<lambda>s. registry_entry s c a)"
  unfolding Get_def registry_entry_def by (intro reads) simp

lemma computes_IsHub [reads]: "computes (IsHub c a) (\<lambda>s. hub_in s c a)"
proof (rule computes_cong)
  show "computes (IsHub c a) (\<lambda>s. case registry_entry s c a of None \<Rightarrow> False | Some r \<Rightarrow> adIsHub r)"
    unfolding IsHub_def by (intro reads)
qed (simp add: registry_entry_def hub_in_def split: option.split)

lemma computes_IsExcluded [reads]: "computes (IsExcluded c t) (\<lambda>s. excluded_in s c t)"
  unfolding IsExcluded_def by (intro reads) simp

lemma computes_ConfigFor [reads]: "computes (ConfigFor c k) (\<lambda>s. heuristic_config s c k)"
  unfolding ConfigFor_def by (intro reads) simp

lemma computes_ConfidenceFor [reads]:
  "computes (ConfidenceFor c k) (\<lambda>s. case heuristic_config s c k of None \<Rightarrow> (0, False) | Some g \<Rightarrow> (hcConfidence g, hcEnabled g))"
  unfolding ConfidenceFor_def by (intro reads)

lemma computes_GetTarget [reads]: "computes (GetTarget c a) (\<lambda>s. sweep_target s c a)"
  unfolding GetTarget_def by (intro reads) simp

end
