(* ===== verification/Heuristics.thy ===== *)
theory Heuristics
  imports Reads
begin

text \<open>
  \<open>internal/heuristic\<close>: the engines that turn a batch of deltas into merge candidates
  (\<open>commoninput.go\<close>, \<open>change.go\<close>, \<open>account.go\<close>, \<open>sweep.go\<close>), each as the loop the code
  has. Every engine only reads, and its candidates are a list expression over the tables.
\<close>

section \<open>Common input\<close>

definition HeuristicKeyCommonInput :: string where
  "HeuristicKeyCommonInput = ''common-input''"

text \<open>The literal every engine fills in: the source is the transaction and the block of its first delta.\<close>

definition candidate :: "TxGroup \<Rightarrow> string \<Rightarrow> string \<Rightarrow> string \<Rightarrow> float64 \<Rightarrow> MergeCandidate" where
  "candidate tx key a b conf =
     \<lparr>mcChainID = tkChainID (tgKey tx), mcAddressA = a, mcAddressB = b, mcHeuristicKey = key,
      mcSourceTxID = Some (tkTxID (tgKey tx)), mcSourceBlockHash = Some (bdBlockHash (hd (tgDeltas tx))),
      mcSourceBlockHeight = Some (bdBlockHeight (hd (tgDeltas tx))), mcConfidence = conf\<rparr>"

definition common_input_tx :: "float64 \<Rightarrow> MergeCandidate list \<Rightarrow> TxGroup \<Rightarrow> MergeCandidate list sql" where
  "common_input_tx confidence candidates tx =
     bnd (wrap (''common-input: is_excluded('' @ tkTxID (tgKey tx) @ '')'') (IsExcluded (tkChainID (tgKey tx)) (tkTxID (tgKey tx)))) (\<lambda>excluded.
     if excluded then ret candidates
     else bnd (foldE (\<lambda>ins addr.
            bnd (wrap (''common-input: is_hub('' @ addr @ '')'') (IsHub (tkChainID (tgKey tx)) addr)) (\<lambda>isHub.
            ret (if \<not> isHub then ins @ [addr] else ins))) [] (SpentAddresses (tgDeltas tx))) (\<lambda>ins.
       if length ins < 2 then ret candidates
       else ret (foldl (\<lambda>cs a. cs @ [candidate tx HeuristicKeyCommonInput (hd ins) a confidence]) candidates (tl ins))))"

definition CommonInput_Generate :: "BalanceDelta list \<Rightarrow> MergeCandidate list sql" where
  "CommonInput_Generate deltas =
     (if length deltas = 0 then ret []
      else bnd (wrap ''common-input: confidence lookup'' (ConfidenceFor (bdChainID (hd deltas)) HeuristicKeyCommonInput)) (\<lambda>(confidence, enabled).
        if \<not> enabled then ret []
        else foldE (common_input_tx confidence) [] (GroupByTx deltas)))"


section \<open>Change\<close>

definition HeuristicKeyChange :: string where
  "HeuristicKeyChange = ''change''"

record changeParams =
  cpChangeMin :: float64
  cpNewAddressWeight :: float64
  cpNotRoundAmountWeight :: float64
  cpRespentWeight :: float64

definition defaultChangeParams :: changeParams where
  "defaultChangeParams = \<lparr>cpChangeMin = round64 (3 / 10), cpNewAddressWeight = round64 (5 / 10),
     cpNotRoundAmountWeight = round64 (2 / 10), cpRespentWeight = round64 (3 / 10)\<rparr>"

definition parseChangeParams :: "RawMessage \<Rightarrow> changeParams" where
  "parseChangeParams raw =
     (if raw = RawEmpty then defaultChangeParams
      else case
        Option.bind (json_members raw) (\<lambda>ms.
        Option.bind (json_ptr dec_float ''change_min'' ms None) (\<lambda>a.
        Option.bind (json_ptr dec_float ''new_address_weight'' ms None) (\<lambda>b.
        Option.bind (json_ptr dec_float ''not_round_amount_weight'' ms None) (\<lambda>c.
        Option.bind (json_ptr dec_float ''respent_weight'' ms None) (\<lambda>d.
          Some \<lparr>cpChangeMin = override a (cpChangeMin defaultChangeParams),
            cpNewAddressWeight = override b (cpNewAddressWeight defaultChangeParams),
            cpNotRoundAmountWeight = override c (cpNotRoundAmountWeight defaultChangeParams),
            cpRespentWeight = override d (cpRespentWeight defaultChangeParams)\<rparr>)))))
        of None \<Rightarrow> defaultChangeParams | Some p \<Rightarrow> p)"

text \<open>\<open>big.Int.Mod\<close> by a positive modulus is the mathematical one.\<close>

definition isRoundAmount :: "int \<Rightarrow> bool" where
  "isRoundAmount amount \<longleftrightarrow> amount mod 1000 = 0"

definition negative :: "BalanceDelta \<Rightarrow> bool" where
  "negative d = (case bdAmount d of None \<Rightarrow> False | Some v \<Rightarrow> v < 0)"

definition positive :: "BalanceDelta \<Rightarrow> bool" where
  "positive d = (case bdAmount d of None \<Rightarrow> False | Some v \<Rightarrow> 0 < v)"

definition respent_in :: "db \<Rightarrow> string \<Rightarrow> string \<Rightarrow> int \<Rightarrow> bool" where
  "respent_in s chainID address h = (\<exists>d \<in> set (tblDelta s).
     bdChainID d = chainID \<and> bdAddress d = address \<and> negative d \<and> h < bdBlockHeight d)"

definition wasRespentAfter :: "string \<Rightarrow> string \<Rightarrow> int \<Rightarrow> bool sql" where
  "wasRespentAfter chainID address blockHeight = wrap ''was_respent_after'' (query (\<lambda>s. respent_in s chainID address blockHeight))"

definition first_seen_at :: "Address option \<Rightarrow> int \<Rightarrow> bool" where
  "first_seen_at r h = (case r of None \<Rightarrow> False | Some a \<Rightarrow> adFirstSeenHeight a = Some h)"

definition scoreChangeCandidate :: "string \<Rightarrow> int \<Rightarrow> ReceivedEntry \<Rightarrow> changeParams \<Rightarrow> float64 sql" where
  "scoreChangeCandidate chainID txBlockHeight out params =
     bnd (Get chainID (reAddress out)) (\<lambda>addr.
     let score1 = (if first_seen_at addr txBlockHeight then fadd 0 (cpNewAddressWeight params) else 0);
         score2 = (if \<not> isRoundAmount (reAmount out) then fadd score1 (cpNotRoundAmountWeight params) else score1)
     in bnd (wasRespentAfter chainID (reAddress out) txBlockHeight) (\<lambda>respent.
        ret (if respent then fadd score2 (cpRespentWeight params) else score2)))"

text \<open>A loop with \<open>return true\<close> inside: it stops at the first hub.\<close>

fun any_hub :: "string \<Rightarrow> string list \<Rightarrow> bool sql" where
  "any_hub chainID [] = ret False"
| "any_hub chainID (a # as) = bnd (IsHub chainID a) (\<lambda>isHub. if isHub then ret True else any_hub chainID as)"

definition touchesHub :: "string \<Rightarrow> string list \<Rightarrow> ReceivedEntry list \<Rightarrow> bool sql" where
  "touchesHub chainID ins outs =
     bnd (any_hub chainID ins) (\<lambda>h. if h then ret True else any_hub chainID (map reAddress outs))"

definition change_tx :: "HeuristicConfig \<Rightarrow> changeParams \<Rightarrow> MergeCandidate list \<Rightarrow> TxGroup \<Rightarrow> MergeCandidate list sql" where
  "change_tx cfg params candidates tx =
     bnd (wrap (''change: is_excluded('' @ tkTxID (tgKey tx) @ '')'') (IsExcluded (tkChainID (tgKey tx)) (tkTxID (tgKey tx)))) (\<lambda>excluded.
     if excluded then ret candidates
     else let ins = SpentAddresses (tgDeltas tx); outs = ReceivedEntries (tgDeltas tx) in
       if length ins = 0 \<or> length outs = 0 then ret candidates
       else bnd (wrap (''change: touches_hub('' @ tkTxID (tgKey tx) @ '')'') (touchesHub (tkChainID (tgKey tx)) ins outs)) (\<lambda>hubTouch.
         if hubTouch then ret candidates
         else let blockHeight = bdBlockHeight (hd (tgDeltas tx)) in
           bnd (foldE (\<lambda>best out.
              bnd (wrap (''change: score('' @ reAddress out @ '')'') (scoreChangeCandidate (tkChainID (tgKey tx)) blockHeight out params)) (\<lambda>score.
              ret (case best of None \<Rightarrow> Some (out, score)
                   | Some (b, bestScore) \<Rightarrow> if bestScore < score then Some (out, score) else best))) None outs) (\<lambda>best.
           case best of
             None \<Rightarrow> ret candidates
           | Some (b, bestScore) \<Rightarrow>
               if bestScore < cpChangeMin params then ret candidates
               else ret (candidates @ [candidate tx HeuristicKeyChange (hd ins) (reAddress b)
                 (if hcConfidence cfg < bestScore then hcConfidence cfg else bestScore)]))))"

text \<open>The configuration lookup that the engines other than common input begin with.\<close>

definition with_config :: "string \<Rightarrow> string \<Rightarrow> BalanceDelta list \<Rightarrow> (HeuristicConfig \<Rightarrow> MergeCandidate list sql) \<Rightarrow> MergeCandidate list sql" where
  "with_config name key deltas body =
     (if length deltas = 0 then ret []
      else bnd (wrap (name @ '': config lookup'') (ConfigFor (bdChainID (hd deltas)) key)) (\<lambda>r. case r of
          None \<Rightarrow> ret []
        | Some cfg \<Rightarrow> if \<not> hcEnabled cfg then ret [] else body cfg))"

definition Change_Generate :: "BalanceDelta list \<Rightarrow> MergeCandidate list sql" where
  "Change_Generate deltas = with_config ''change'' HeuristicKeyChange deltas (\<lambda>cfg.
     foldE (change_tx cfg (parseChangeParams (hcParams cfg))) [] (GroupByTx deltas))"


section \<open>Account model: funding, deployer, behavioral\<close>

definition HeuristicKeyFunding :: string where
  "HeuristicKeyFunding = ''funding''"

definition HeuristicKeyDeployer :: string where
  "HeuristicKeyDeployer = ''deployer''"

definition HeuristicKeyBehavioral :: string where
  "HeuristicKeyBehavioral = ''behavioral''"

definition isContractCreationDelta :: "BalanceDelta \<Rightarrow> bool" where
  "isContractCreationDelta d =
     (if bdMeta d = RawEmpty then False
      else case Option.bind (json_members (bdMeta d)) (\<lambda>ms. json_val dec_bool ''contract_creation'' ms False) of
          None \<Rightarrow> False
        | Some b \<Rightarrow> b)"

definition isNewAddress :: "string \<Rightarrow> string \<Rightarrow> int \<Rightarrow> bool sql" where
  "isNewAddress chainID address blockHeight =
     bnd (Get chainID address) (\<lambda>r. case r of
       None \<Rightarrow> ret False
     | Some a \<Rightarrow> (case adFirstSeenHeight a of None \<Rightarrow> ret False | Some h \<Rightarrow> ret (h = blockHeight)))"

definition funding_delta :: "HeuristicConfig \<Rightarrow> TxGroup \<Rightarrow> string \<Rightarrow> MergeCandidate list \<Rightarrow> BalanceDelta \<Rightarrow> MergeCandidate list sql" where
  "funding_delta cfg tx funder candidates delta =
     (if \<not> positive delta then ret candidates
      else let recipient = bdAddress delta in
        if recipient = funder then ret candidates
        else if isContractCreationDelta delta then ret candidates
        else bnd (wrap (''funding: is_new_address('' @ recipient @ '')'')
             (isNewAddress (tkChainID (tgKey tx)) recipient (bdBlockHeight (hd (tgDeltas tx))))) (\<lambda>isNew.
          if \<not> isNew then ret candidates
          else bnd (wrap (''funding: is_hub('' @ funder @ '')'') (IsHub (tkChainID (tgKey tx)) funder)) (\<lambda>isHub.
            if isHub then ret candidates
            else ret (candidates @ [candidate tx HeuristicKeyFunding funder recipient (hcConfidence cfg)]))))"

definition funding_tx :: "HeuristicConfig \<Rightarrow> MergeCandidate list \<Rightarrow> TxGroup \<Rightarrow> MergeCandidate list sql" where
  "funding_tx cfg candidates tx =
     (let spenders = SpentAddresses (tgDeltas tx) in
      if length spenders = 0 then ret candidates
      else foldE (funding_delta cfg tx (hd spenders)) candidates (tgDeltas tx))"

definition Funding_Generate :: "BalanceDelta list \<Rightarrow> MergeCandidate list sql" where
  "Funding_Generate deltas = with_config ''funding'' HeuristicKeyFunding deltas (\<lambda>cfg.
     foldE (funding_tx cfg) [] (GroupByTx deltas))"

definition deployer_delta :: "HeuristicConfig \<Rightarrow> TxGroup \<Rightarrow> string \<Rightarrow> MergeCandidate list \<Rightarrow> BalanceDelta \<Rightarrow> MergeCandidate list sql" where
  "deployer_delta cfg tx deployer candidates delta =
     (if \<not> positive delta then ret candidates
      else if \<not> isContractCreationDelta delta then ret candidates
      else let contractAddr = bdAddress delta in
        if contractAddr = deployer then ret candidates
        else bnd (wrap (''deployer: is_hub('' @ deployer @ '')'') (IsHub (tkChainID (tgKey tx)) deployer)) (\<lambda>isHub.
          if isHub then ret candidates
          else ret (candidates @ [candidate tx HeuristicKeyDeployer deployer contractAddr (hcConfidence cfg)])))"

definition deployer_tx :: "HeuristicConfig \<Rightarrow> MergeCandidate list \<Rightarrow> TxGroup \<Rightarrow> MergeCandidate list sql" where
  "deployer_tx cfg candidates tx =
     (let spenders = SpentAddresses (tgDeltas tx) in
      if length spenders = 0 then ret candidates
      else foldE (deployer_delta cfg tx (hd spenders)) candidates (tgDeltas tx))"

definition Deployer_Generate :: "BalanceDelta list \<Rightarrow> MergeCandidate list sql" where
  "Deployer_Generate deltas = with_config ''deployer'' HeuristicKeyDeployer deltas (\<lambda>cfg.
     foldE (deployer_tx cfg) [] (GroupByTx deltas))"

definition normalizeAccountPair :: "string \<Rightarrow> string \<Rightarrow> string \<times> string" where
  "normalizeAccountPair a b = (if a \<le> b then (a, b) else (b, a))"

definition defaultMinInteractions :: int where
  "defaultMinInteractions = 3"

definition parseBehavioralParams :: "RawMessage \<Rightarrow> int" where
  "parseBehavioralParams raw =
     (if raw = RawEmpty then defaultMinInteractions
      else case Option.bind (json_members raw) (\<lambda>ms. json_ptr dec_int ''min_interactions'' ms None) of
          None \<Rightarrow> defaultMinInteractions
        | Some n \<Rightarrow> override n defaultMinInteractions)"

definition shared_txs :: "db \<Rightarrow> string \<Rightarrow> string \<Rightarrow> string \<Rightarrow> nat" where
  "shared_txs s chainID a b =
     length (remdups (map bdTxID (filter (\<lambda>t1. bdChainID t1 = chainID \<and> bdAddress t1 = a \<and>
       (\<exists>t2 \<in> set (tblDelta s). bdChainID t2 = bdChainID t1 \<and> bdTxID t2 = bdTxID t1 \<and> bdAddress t2 = b)) (tblDelta s))))"

definition SharedTransactionCount :: "string \<Rightarrow> string \<Rightarrow> string \<Rightarrow> nat sql" where
  "SharedTransactionCount chainID a b =
     wrap ''interaction_counter: shared_transaction_count'' (query (\<lambda>s. shared_txs s chainID a b))"

definition txAddresses :: "BalanceDelta list \<Rightarrow> string list" where
  "txAddresses txDeltas = dedup_loop [] (map bdAddress txDeltas)"

text \<open>The pairs the two nested index loops visit, in their order.\<close>

fun index_pairs :: "'a list \<Rightarrow> ('a \<times> 'a) list" where
  "index_pairs [] = []"
| "index_pairs (x # xs) = map (Pair x) xs @ index_pairs xs"

type_synonym behavioral_state = "(string \<times> string) list \<times> MergeCandidate list"

definition behavioral_pair :: "HeuristicConfig \<Rightarrow> int \<Rightarrow> TxGroup \<Rightarrow> behavioral_state \<Rightarrow> string \<times> string \<Rightarrow> behavioral_state sql" where
  "behavioral_pair cfg minInteractions tx = (\<lambda>(seen, candidates) (x, y).
     let key = normalizeAccountPair x y; ka = fst key; kb = snd key in
     if key \<in> set seen then ret (seen, candidates)
     else let seen' = seen @ [key] in
       bnd (wrap (''behavioral: shared_transaction_count('' @ ka @ '','' @ kb @ '')'')
            (SharedTransactionCount (tkChainID (tgKey tx)) ka kb)) (\<lambda>count.
       if int count < minInteractions then ret (seen', candidates)
       else bnd (wrap (''behavioral: is_hub('' @ ka @ '')'') (IsHub (tkChainID (tgKey tx)) ka)) (\<lambda>hubA.
         bnd (wrap (''behavioral: is_hub('' @ kb @ '')'') (IsHub (tkChainID (tgKey tx)) kb)) (\<lambda>hubB.
         if hubA \<or> hubB then ret (seen', candidates)
         else ret (seen', candidates @ [candidate tx HeuristicKeyBehavioral ka kb (hcConfidence cfg)])))))"

definition Behavioral_Generate :: "BalanceDelta list \<Rightarrow> MergeCandidate list sql" where
  "Behavioral_Generate deltas = with_config ''behavioral'' HeuristicKeyBehavioral deltas (\<lambda>cfg.
     bnd (foldE (\<lambda>st tx. foldE (behavioral_pair cfg (parseBehavioralParams (hcParams cfg)) tx) st (index_pairs (txAddresses (tgDeltas tx))))
       ([], []) (GroupByTx deltas)) (\<lambda>st. ret (snd st)))"


section \<open>Sweep\<close>

definition HeuristicKeySweepSeed :: string where
  "HeuristicKeySweepSeed = ''sweep-seed''"

record sweepParams =
  spCompletenessMin :: float64
  spRecurrenceMin :: int

definition defaultSweepParams :: sweepParams where
  "defaultSweepParams = \<lparr>spCompletenessMin = round64 (9 / 10), spRecurrenceMin = 2\<rparr>"

definition parseSweepParams :: "RawMessage \<Rightarrow> sweepParams" where
  "parseSweepParams raw =
     (if raw = RawEmpty then defaultSweepParams
      else case
        Option.bind (json_members raw) (\<lambda>ms.
        Option.bind (json_ptr dec_float ''completeness_min'' ms None) (\<lambda>a.
        Option.bind (json_ptr dec_int ''recurrence_min'' ms None) (\<lambda>b.
          Some \<lparr>spCompletenessMin = override a (spCompletenessMin defaultSweepParams),
            spRecurrenceMin = override b (spRecurrenceMin defaultSweepParams)\<rparr>)))
        of None \<Rightarrow> defaultSweepParams | Some p \<Rightarrow> p)"

definition received_total :: "db \<Rightarrow> string \<Rightarrow> string \<Rightarrow> int" where
  "received_total s chainID address =
     sum_list (map (\<lambda>d. case bdAmount d of None \<Rightarrow> 0 | Some v \<Rightarrow> v)
       (filter (\<lambda>d. bdChainID d = chainID \<and> bdAddress d = address \<and> positive d) (tblDelta s)))"

definition cumulativeReceived :: "string \<Rightarrow> string \<Rightarrow> int sql" where
  "cumulativeReceived chainID address =
     bnd (wrap ''cumulative_received'' (query (\<lambda>s. scanInteger (drv s) (received_total s chainID address)))) (\<lambda>n.
     wrap ''cumulative_received'' (of_result (ToBigInt n)))"

definition sources_to :: "db \<Rightarrow> string \<Rightarrow> string \<Rightarrow> nat" where
  "sources_to s chainID target =
     length (remdups (map bdAddress (filter (\<lambda>sp. negative sp \<and>
       (\<exists>rc \<in> set (tblDelta s). bdChainID rc = chainID \<and> bdAddress rc = target \<and> positive rc \<and>
          bdChainID sp = bdChainID rc \<and> bdTxID sp = bdTxID rc \<and> bdAddress sp \<noteq> bdAddress rc)) (tblDelta s))))"

definition distinctSourcesToTarget :: "string \<Rightarrow> string \<Rightarrow> nat sql" where
  "distinctSourcesToTarget chainID target =
     wrap ''distinct_sources_to_target'' (query (\<lambda>s. sources_to s chainID target))"

text \<open>
  \<open>big.Float\<close>: \<open>SetInt\<close> takes the larger of 64 and the bit length as precision, so it is exact, and
  \<open>Quo\<close> rounds to the larger of the two precisions.
\<close>

definition big_quo :: "int \<Rightarrow> int \<Rightarrow> rat" where
  "big_quo x y = round_fl (nat (max 64 (max (bitlen \<bar>x\<bar>) (bitlen \<bar>y\<bar>)))) None (of_int x / of_int y)"

definition spent_in_tx :: "BalanceDelta list \<Rightarrow> string \<Rightarrow> int" where
  "spent_in_tx txDeltas src =
     foldl (\<lambda>spentInTx d. case bdAmount d of None \<Rightarrow> spentInTx
        | Some v \<Rightarrow> if bdAddress d = src \<and> v < 0 then spentInTx - v else spentInTx) 0 txDeltas"

definition looksLikeSweep :: "string \<Rightarrow> BalanceDelta list \<Rightarrow> string \<Rightarrow> string \<Rightarrow> sweepParams \<Rightarrow> bool sql" where
  "looksLikeSweep chainID txDeltas src dst params =
     (let spentInTx = spent_in_tx txDeltas src in
      if spentInTx \<le> 0 then ret False
      else bnd (cumulativeReceived chainID src) (\<lambda>cumulative.
        if cumulative \<le> 0 then ret False
        else if \<not> spCompletenessMin params \<le> big_quo spentInTx cumulative then ret False
        else bnd (distinctSourcesToTarget chainID dst) (\<lambda>recurrence.
          ret (spRecurrenceMin params \<le> int recurrence))))"

definition sweep_src :: "HeuristicConfig \<Rightarrow> sweepParams \<Rightarrow> TxGroup \<Rightarrow> ReceivedEntry \<Rightarrow> SweepTarget \<Rightarrow> MergeCandidate list \<Rightarrow> string \<Rightarrow> MergeCandidate list sql" where
  "sweep_src cfg params tx out target candidates src =
     (if src = reAddress out then ret candidates
      else bnd (wrap (''sweep: looks_like_sweep('' @ src @ '','' @ reAddress out @ '')'')
           (looksLikeSweep (tkChainID (tgKey tx)) (tgDeltas tx) src (reAddress out) params)) (\<lambda>ok.
        if \<not> ok then ret candidates
        else ret (candidates @ [candidate tx HeuristicKeySweepSeed (reAddress out) src
          (if stConfidence target < hcConfidence cfg then stConfidence target else hcConfidence cfg)])))"

definition sweep_tx :: "HeuristicConfig \<Rightarrow> sweepParams \<Rightarrow> MergeCandidate list \<Rightarrow> TxGroup \<Rightarrow> MergeCandidate list sql" where
  "sweep_tx cfg params candidates tx =
     (let outs = ReceivedEntries (tgDeltas tx); ins = SpentAddresses (tgDeltas tx) in
      if length ins = 0 \<or> length outs = 0 then ret candidates
      else foldE (\<lambda>cs out.
        bnd (wrap (''sweep: is_known_target('' @ reAddress out @ '')'') (GetTarget (tkChainID (tgKey tx)) (reAddress out))) (\<lambda>r. case r of
          None \<Rightarrow> ret cs
        | Some target \<Rightarrow> foldE (sweep_src cfg params tx out target) cs ins)) candidates outs)"

definition Sweep_Generate :: "BalanceDelta list \<Rightarrow> MergeCandidate list sql" where
  "Sweep_Generate deltas = with_config ''sweep'' HeuristicKeySweepSeed deltas (\<lambda>cfg.
     foldE (sweep_tx cfg (parseSweepParams (hcParams cfg))) [] (GroupByTx deltas))"


section \<open>The engines as list expressions\<close>

lemma computes_collect:
  assumes "\<And>acc x. x \<in> set xs \<Longrightarrow> computes (f acc x) (\<lambda>s. acc @ g x s)"
  shows "computes (foldE f acc xs) (\<lambda>s. acc @ concat (map (\<lambda>x. g x s) xs))"
  using assms
proof (induction xs arbitrary: acc)
  case Nil
  show ?case using computes_ret [of acc] by simp
next
  case (Cons x xs)
  have IH: "computes (foldE f acc' xs) (\<lambda>s. acc' @ concat (map (\<lambda>x. g x s) xs))" for acc'
    by (rule Cons.IH) (simp add: Cons.prems)
  have "computes (bnd (f acc x) (\<lambda>acc'. foldE f acc' xs)) (\<lambda>s. (acc @ g x s) @ concat (map (\<lambda>x. g x s) xs))"
    by (rule computes_bnd [where w = "\<lambda>a s. a @ concat (map (\<lambda>x. g x s) xs)"]) (simp_all add: Cons.prems IH)
  then show ?case by simp
qed

lemma computes_filter:
  assumes "\<And>x. computes (q x) (p x)"
  shows "computes (foldE (\<lambda>acc x. bnd (q x) (\<lambda>b. ret (if \<not> b then acc @ [x] else acc))) acc xs) (\<lambda>s. acc @ filter (\<lambda>x. \<not> p x s) xs)"
proof (rule computes_cong)
  show "computes (foldE (\<lambda>acc x. bnd (q x) (\<lambda>b. ret (if \<not> b then acc @ [x] else acc))) acc xs)
      (\<lambda>s. acc @ concat (map (\<lambda>x. if \<not> p x s then [x] else []) xs))"
  proof (rule computes_collect)
    fix acc x
    show "computes (bnd (q x) (\<lambda>b. ret (if \<not> b then acc @ [x] else acc))) (\<lambda>s. acc @ (if \<not> p x s then [x] else []))"
      by (rule computes_cong, (rule assms reads)+) simp
  qed
  show "acc @ concat (map (\<lambda>x. if \<not> p x s then [x] else []) xs) = acc @ filter (\<lambda>x. \<not> p x s) xs" for s
    by (induction xs) simp_all
qed

definition configured :: "db \<Rightarrow> string \<Rightarrow> BalanceDelta list \<Rightarrow> (HeuristicConfig \<Rightarrow> 'a list) \<Rightarrow> 'a list" where
  "configured s key ds body =
     (case heuristic_config s (bdChainID (hd ds)) key of
        None \<Rightarrow> []
      | Some cfg \<Rightarrow> if hcEnabled cfg then body cfg else [])"

lemma configured_mem:
  "x \<in> set (configured s key ds body) \<longleftrightarrow>
     (\<exists>cfg. heuristic_config s (bdChainID (hd ds)) key = Some cfg \<and> hcEnabled cfg \<and> x \<in> set (body cfg))"
  by (cases "heuristic_config s (bdChainID (hd ds)) key") (auto simp: configured_def)

lemma computes_with_config:
  assumes "\<And>cfg. computes (body cfg) (v cfg)" and "\<And>cfg s. ds = [] \<Longrightarrow> v cfg s = []"
  shows "computes (with_config name key ds body) (\<lambda>s. configured s key ds (\<lambda>cfg. v cfg s))"
  unfolding with_config_def
  by (rule computes_cong, (rule assms(1) reads)+) (auto simp: configured_def assms(2) split: option.split)

definition common_input_of :: "db \<Rightarrow> float64 \<Rightarrow> TxGroup \<Rightarrow> MergeCandidate list" where
  "common_input_of s conf tx =
     (if excluded_in s (tkChainID (tgKey tx)) (tkTxID (tgKey tx)) then []
      else let ins = filter (\<lambda>a. \<not> hub_in s (tkChainID (tgKey tx)) a) (SpentAddresses (tgDeltas tx))
           in map (\<lambda>a. candidate tx HeuristicKeyCommonInput (hd ins) a conf) (tl ins))"

definition common_input_spec :: "db \<Rightarrow> BalanceDelta list \<Rightarrow> MergeCandidate list" where
  "common_input_spec s ds = configured s HeuristicKeyCommonInput ds (\<lambda>cfg.
     concat (map (common_input_of s (hcConfidence cfg)) (GroupByTx ds)))"

lemma GroupByTx_Nil [simp]: "GroupByTx [] = []"
  by (simp add: GroupByTx_def)

lemma foldl_append_map: "foldl (\<lambda>cs a. cs @ [f a]) acc xs = acc @ map f xs"
  by (induction xs arbitrary: acc) simp_all

lemma computes_common_input_tx: "computes (common_input_tx conf cs tx) (\<lambda>s. cs @ common_input_of s conf tx)"
proof -
  have "tl ins = []" if "length ins < 2" for ins :: "string list" using that by (cases ins) simp_all
  then show ?thesis unfolding common_input_tx_def
    by (intro computes_cong [OF computes_bnd [OF computes_wrap [OF computes_IsExcluded] computes_if [OF computes_ret
          computes_bnd [OF computes_filter [OF computes_wrap [OF computes_IsHub]] computes_if [OF computes_ret computes_ret]]]]])
      (simp add: common_input_of_def Let_def foldl_append_map)
qed

lemma computes_CommonInput: "computes (CommonInput_Generate ds) (\<lambda>s. common_input_spec s ds)"
  unfolding CommonInput_Generate_def
  by (rule computes_cong, (rule computes_common_input_tx computes_collect reads)+)
    (auto simp: common_input_spec_def configured_def split: option.split)

text \<open>Change: the first output of the highest score.\<close>

definition change_score :: "db \<Rightarrow> string \<Rightarrow> int \<Rightarrow> changeParams \<Rightarrow> ReceivedEntry \<Rightarrow> float64" where
  "change_score s c h p out =
     (let new = (if first_seen_at (find_address s c (reAddress out)) h then fadd 0 (cpNewAddressWeight p) else 0);
          odd_amount = (if \<not> isRoundAmount (reAmount out) then fadd new (cpNotRoundAmountWeight p) else new)
      in if respent_in s c (reAddress out) h then fadd odd_amount (cpRespentWeight p) else odd_amount)"

definition best_step :: "('a \<Rightarrow> rat) \<Rightarrow> ('a \<times> rat) option \<Rightarrow> 'a \<Rightarrow> ('a \<times> rat) option" where
  "best_step score best out =
     (case best of None \<Rightarrow> Some (out, score out)
      | Some (b, sc) \<Rightarrow> if sc < score out then Some (out, score out) else best)"

definition best_of :: "('a \<Rightarrow> rat) \<Rightarrow> 'a list \<Rightarrow> ('a \<times> rat) option" where
  "best_of score outs = foldl (best_step score) None outs"

lemma best_of_max:
  "outs \<noteq> [] \<Longrightarrow> \<exists>b. best_of score outs = Some (b, score b) \<and> b \<in> set outs \<and> (\<forall>x \<in> set outs. score x \<le> score b)"
proof (induction outs rule: rev_induct)
  case (snoc x xs)
  have step: "best_of score (xs @ [x]) = best_step score (best_of score xs) x" by (simp add: best_of_def)
  show ?case
  proof (cases "xs = []")
    case True
    then show ?thesis unfolding step by (simp add: best_of_def best_step_def)
  next
    case False
    then obtain b where b: "best_of score xs = Some (b, score b)" "b \<in> set xs" "\<forall>x \<in> set xs. score x \<le> score b"
      using snoc.IH by blast
    show ?thesis unfolding step using b by (cases "score b < score x") (auto simp: best_step_def intro: order_trans)
  qed
qed simp

lemma table_respent [simp]: "respent_in (s\<lparr>schedule := l\<rparr>) c a h = respent_in s c a h"
  by (simp add: respent_in_def)

lemma computes_wasRespentAfter: "computes (wasRespentAfter c a h) (\<lambda>s. respent_in s c a h)"
  unfolding wasRespentAfter_def by (rule reads)+ simp

lemma first_seen_registry [simp]: "first_seen_at (registry_entry s c a) h = first_seen_at (find_address s c a) h"
  by (simp add: first_seen_at_def registry_entry_def split: option.split)

lemma computes_score: "computes (scoreChangeCandidate c h out p) (\<lambda>s. change_score s c h p out)"
  unfolding scoreChangeCandidate_def
  by (rule computes_cong, (rule computes_wasRespentAfter reads)+) (simp add: change_score_def Let_def)

lemma computes_any_hub: "computes (any_hub c as) (\<lambda>s. \<exists>a \<in> set as. hub_in s c a)"
proof (induction as)
  case Nil
  show ?case using computes_ret [of False] by simp
next
  case (Cons a as)
  show ?case unfolding any_hub.simps
    by (rule computes_cong, (rule Cons.IH reads)+) simp
qed

lemma computes_touchesHub:
  "computes (touchesHub c ins outs) (\<lambda>s. (\<exists>a \<in> set ins. hub_in s c a) \<or> (\<exists>x \<in> set outs. hub_in s c (reAddress x)))"
  unfolding touchesHub_def by (rule computes_cong, (rule computes_any_hub reads)+) simp

definition change_of :: "db \<Rightarrow> HeuristicConfig \<Rightarrow> TxGroup \<Rightarrow> MergeCandidate list" where
  "change_of s cfg tx =
     (let c = tkChainID (tgKey tx); ins = SpentAddresses (tgDeltas tx); outs = ReceivedEntries (tgDeltas tx);
          p = parseChangeParams (hcParams cfg) in
      if excluded_in s c (tkTxID (tgKey tx)) \<or> ins = [] \<or> outs = [] \<or>
         (\<exists>a \<in> set ins. hub_in s c a) \<or> (\<exists>x \<in> set outs. hub_in s c (reAddress x)) then []
      else case best_of (change_score s c (bdBlockHeight (hd (tgDeltas tx))) p) outs of
          None \<Rightarrow> []
        | Some (b, sc) \<Rightarrow> if sc < cpChangeMin p then []
            else [candidate tx HeuristicKeyChange (hd ins) (reAddress b) (min (hcConfidence cfg) sc)])"

definition change_spec :: "db \<Rightarrow> BalanceDelta list \<Rightarrow> MergeCandidate list" where
  "change_spec s ds = configured s HeuristicKeyChange ds (\<lambda>cfg. concat (map (change_of s cfg) (GroupByTx ds)))"

lemma computes_change_tx:
  "computes (change_tx cfg (parseChangeParams (hcParams cfg)) cs tx) (\<lambda>s. cs @ change_of s cfg tx)"
  unfolding change_tx_def
  by (rule computes_cong, (rule computes_touchesHub computes_score reads)+)
    (auto simp: change_of_def Let_def best_of_def best_step_def [abs_def] min_def split: option.split)

lemma computes_Change: "computes (Change_Generate ds) (\<lambda>s. change_spec s ds)"
  unfolding Change_Generate_def change_spec_def
  by (rule computes_with_config, rule computes_cong, (rule computes_change_tx computes_collect)+) simp_all

text \<open>Funding and deployer: the first spender and each fresh recipient, or each created contract.\<close>

lemma computes_isNewAddress: "computes (isNewAddress c a h) (\<lambda>s. first_seen_at (find_address s c a) h)"
  unfolding isNewAddress_def
  by (rule computes_cong, (rule reads)+)
    (simp add: first_seen_at_def registry_entry_def split: option.split)

definition funding_of :: "db \<Rightarrow> HeuristicConfig \<Rightarrow> TxGroup \<Rightarrow> MergeCandidate list" where
  "funding_of s cfg tx =
     (let c = tkChainID (tgKey tx); ins = SpentAddresses (tgDeltas tx) in
      if ins = [] then []
      else map (\<lambda>d. candidate tx HeuristicKeyFunding (hd ins) (bdAddress d) (hcConfidence cfg))
        (filter (\<lambda>d. positive d \<and> bdAddress d \<noteq> hd ins \<and> \<not> isContractCreationDelta d \<and>
           first_seen_at (find_address s c (bdAddress d)) (bdBlockHeight (hd (tgDeltas tx))) \<and> \<not> hub_in s c (hd ins)) (tgDeltas tx)))"

definition deployer_of :: "db \<Rightarrow> HeuristicConfig \<Rightarrow> TxGroup \<Rightarrow> MergeCandidate list" where
  "deployer_of s cfg tx =
     (let c = tkChainID (tgKey tx); ins = SpentAddresses (tgDeltas tx) in
      if ins = [] then []
      else map (\<lambda>d. candidate tx HeuristicKeyDeployer (hd ins) (bdAddress d) (hcConfidence cfg))
        (filter (\<lambda>d. positive d \<and> isContractCreationDelta d \<and> bdAddress d \<noteq> hd ins \<and> \<not> hub_in s c (hd ins)) (tgDeltas tx)))"

definition funding_spec :: "db \<Rightarrow> BalanceDelta list \<Rightarrow> MergeCandidate list" where
  "funding_spec s ds = configured s HeuristicKeyFunding ds (\<lambda>cfg. concat (map (funding_of s cfg) (GroupByTx ds)))"

definition deployer_spec :: "db \<Rightarrow> BalanceDelta list \<Rightarrow> MergeCandidate list" where
  "deployer_spec s ds = configured s HeuristicKeyDeployer ds (\<lambda>cfg. concat (map (deployer_of s cfg) (GroupByTx ds)))"

lemma concat_if: "concat (map (\<lambda>x. if P x then [f x] else []) xs) = map f (filter P xs)"
  by (induction xs) simp_all

lemma computes_funding_delta:
  "computes (funding_delta cfg tx a cs d) (\<lambda>s. cs @ (if positive d \<and> bdAddress d \<noteq> a \<and> \<not> isContractCreationDelta d \<and>
     first_seen_at (find_address s (tkChainID (tgKey tx)) (bdAddress d)) (bdBlockHeight (hd (tgDeltas tx))) \<and>
     \<not> hub_in s (tkChainID (tgKey tx)) a then [candidate tx HeuristicKeyFunding a (bdAddress d) (hcConfidence cfg)] else []))"
  unfolding funding_delta_def
  by (rule computes_cong, (rule computes_isNewAddress reads)+) (simp add: Let_def)

lemma computes_deployer_delta:
  "computes (deployer_delta cfg tx a cs d) (\<lambda>s. cs @ (if positive d \<and> isContractCreationDelta d \<and> bdAddress d \<noteq> a \<and>
     \<not> hub_in s (tkChainID (tgKey tx)) a then [candidate tx HeuristicKeyDeployer a (bdAddress d) (hcConfidence cfg)] else []))"
  unfolding deployer_delta_def
  by (rule computes_cong, (rule reads)+) (simp add: Let_def)

lemma computes_funding_tx: "computes (funding_tx cfg cs tx) (\<lambda>s. cs @ funding_of s cfg tx)"
  unfolding funding_tx_def
  by (rule computes_cong, (rule computes_funding_delta computes_collect reads)+)
    (simp add: funding_of_def Let_def concat_if)

lemma computes_deployer_tx: "computes (deployer_tx cfg cs tx) (\<lambda>s. cs @ deployer_of s cfg tx)"
  unfolding deployer_tx_def
  by (rule computes_cong, (rule computes_deployer_delta computes_collect reads)+)
    (simp add: deployer_of_def Let_def concat_if)

lemma computes_Funding: "computes (Funding_Generate ds) (\<lambda>s. funding_spec s ds)"
  unfolding Funding_Generate_def funding_spec_def
  by (rule computes_with_config, rule computes_cong, (rule computes_funding_tx computes_collect)+) simp_all

lemma computes_Deployer: "computes (Deployer_Generate ds) (\<lambda>s. deployer_spec s ds)"
  unfolding Deployer_Generate_def deployer_spec_def
  by (rule computes_with_config, rule computes_cong, (rule computes_deployer_tx computes_collect)+) simp_all


text \<open>Behavioral: every unordered pair once, at the first transaction that shows it.\<close>

fun fresh_pairs :: "'k list \<Rightarrow> ('t \<times> 'k) list \<Rightarrow> ('t \<times> 'k) list" where
  "fresh_pairs seen [] = []"
| "fresh_pairs seen ((tx, k) # xs) =
     (if k \<in> set seen then fresh_pairs seen xs else (tx, k) # fresh_pairs (seen @ [k]) xs)"

definition tx_pairs :: "BalanceDelta list \<Rightarrow> (TxGroup \<times> string \<times> string) list" where
  "tx_pairs ds = concat (map (\<lambda>tx. map (\<lambda>(x, y). (tx, normalizeAccountPair x y)) (index_pairs (txAddresses (tgDeltas tx)))) (GroupByTx ds))"

definition behavioral_of :: "db \<Rightarrow> HeuristicConfig \<Rightarrow> TxGroup \<times> string \<times> string \<Rightarrow> MergeCandidate list" where
  "behavioral_of s cfg = (\<lambda>(tx, x, y). let c = tkChainID (tgKey tx) in
     if parseBehavioralParams (hcParams cfg) \<le> int (shared_txs s c x y) \<and> \<not> hub_in s c x \<and> \<not> hub_in s c y
     then [candidate tx HeuristicKeyBehavioral x y (hcConfidence cfg)] else [])"

definition behavioral_spec :: "db \<Rightarrow> BalanceDelta list \<Rightarrow> MergeCandidate list" where
  "behavioral_spec s ds = configured s HeuristicKeyBehavioral ds (\<lambda>cfg.
     concat (map (behavioral_of s cfg) (fresh_pairs [] (tx_pairs ds))))"

lemma fresh_pairs_subset: "set (fresh_pairs seen xs) \<subseteq> set xs"
  by (induction seen xs rule: fresh_pairs.induct) auto

lemma fresh_pairs_new: "k \<in> snd ` set (fresh_pairs seen xs) \<Longrightarrow> k \<notin> set seen"
  by (induction seen xs rule: fresh_pairs.induct) (auto split: if_splits)

lemma fresh_pairs_distinct: "distinct (map snd (fresh_pairs seen xs))"
proof (induction seen xs rule: fresh_pairs.induct)
  case (2 seen tx k xs)
  then show ?case using fresh_pairs_new [of k "seen @ [k]" xs] by auto
qed simp

definition pair_step :: "db \<Rightarrow> HeuristicConfig \<Rightarrow> behavioral_state \<Rightarrow> TxGroup \<times> string \<times> string \<Rightarrow> behavioral_state" where
  "pair_step s cfg st k = (if snd k \<in> set (fst st) then st else (fst st @ [snd k], snd st @ behavioral_of s cfg k))"

lemma pair_loop: "snd (foldl (pair_step s cfg) st ks) = snd st @ concat (map (behavioral_of s cfg) (fresh_pairs (fst st) ks))"
  by (induction ks arbitrary: st) (auto simp: pair_step_def)

lemma table_shared [simp]: "shared_txs (s\<lparr>schedule := l\<rparr>) c a b = shared_txs s c a b"
  by (simp add: shared_txs_def)

lemma computes_SharedTransactionCount: "computes (SharedTransactionCount c a b) (\<lambda>s. shared_txs s c a b)"
  unfolding SharedTransactionCount_def by (rule reads)+ simp

lemma computes_behavioral_pair:
  "computes (behavioral_pair cfg (parseBehavioralParams (hcParams cfg)) tx st p)
     (\<lambda>s. pair_step s cfg st (tx, normalizeAccountPair (fst p) (snd p)))"
proof (cases st, cases p)
  fix seen cs x y
  assume st: "st = (seen, cs)" and p: "p = (x, y)"
  show ?thesis unfolding st p behavioral_pair_def prod.case
    by (rule computes_cong, (rule computes_SharedTransactionCount reads)+)
      (auto simp: pair_step_def behavioral_of_def Let_def case_prod_unfold)
qed

lemma foldl_nested: "foldl (\<lambda>st x. foldl (g x) st (h x)) st xs = foldl (\<lambda>st p. g (fst p) st (snd p)) st (concat (map (\<lambda>x. map (Pair x) (h x)) xs))"
proof (induction xs arbitrary: st)
  case (Cons x xs)
  have "foldl (g x) st (h x) = foldl (\<lambda>st p. g (fst p) st (snd p)) st (map (Pair x) (h x))" for st
    by (simp add: foldl_map)
  with Cons show ?case by simp
qed simp

lemma computes_Behavioral: "computes (Behavioral_Generate ds) (\<lambda>s. behavioral_spec s ds)"
  unfolding Behavioral_Generate_def behavioral_spec_def
proof (rule computes_with_config)
  fix cfg
  show "computes (bnd (foldE (\<lambda>st tx. foldE (behavioral_pair cfg (parseBehavioralParams (hcParams cfg)) tx) st (index_pairs (txAddresses (tgDeltas tx))))
       ([], []) (GroupByTx ds)) (\<lambda>st. ret (snd st))) (\<lambda>s. concat (map (behavioral_of s cfg) (fresh_pairs [] (tx_pairs ds))))"
  proof (rule computes_cong, (rule computes_behavioral_pair reads)+)
    fix s
    have pairs: "concat (map (\<lambda>tx. map (Pair tx) (index_pairs (txAddresses (tgDeltas tx)))) (GroupByTx ds)) = flat \<Longrightarrow>
      tx_pairs ds = map (\<lambda>p. (fst p, normalizeAccountPair (fst (snd p)) (snd (snd p)))) flat" for flat
      by (auto simp: tx_pairs_def map_concat comp_def case_prod_unfold)
    show "snd (foldl (\<lambda>a x. foldl (\<lambda>a' x'. pair_step s cfg a' (x, normalizeAccountPair (fst x') (snd x'))) a (index_pairs (txAddresses (tgDeltas x))))
        ([], []) (GroupByTx ds)) = concat (map (behavioral_of s cfg) (fresh_pairs [] (tx_pairs ds)))"
      unfolding foldl_nested pairs [OF refl] pair_loop [of s cfg "([], [])", simplified, symmetric] foldl_map ..
  qed
qed (simp add: tx_pairs_def)

text \<open>Sweep: every known target among the outputs and every spender that looks like a sweep into it.\<close>

definition sweeps_to :: "db \<Rightarrow> sweepParams \<Rightarrow> TxGroup \<Rightarrow> string \<Rightarrow> string \<Rightarrow> bool" where
  "sweeps_to s p tx src dst \<longleftrightarrow>
     (let c = tkChainID (tgKey tx); spent = spent_in_tx (tgDeltas tx) src; received = received_total s c src in
      0 < spent \<and> 0 < received \<and> spCompletenessMin p \<le> big_quo spent received \<and> spRecurrenceMin p \<le> int (sources_to s c dst))"

definition sweep_of :: "db \<Rightarrow> HeuristicConfig \<Rightarrow> TxGroup \<Rightarrow> MergeCandidate list" where
  "sweep_of s cfg tx =
     concat (map (\<lambda>out. case sweep_target s (tkChainID (tgKey tx)) (reAddress out) of
        None \<Rightarrow> []
      | Some target \<Rightarrow> map (\<lambda>src. candidate tx HeuristicKeySweepSeed (reAddress out) src (min (stConfidence target) (hcConfidence cfg)))
          (filter (\<lambda>src. src \<noteq> reAddress out \<and> sweeps_to s (parseSweepParams (hcParams cfg)) tx src (reAddress out))
             (SpentAddresses (tgDeltas tx)))) (ReceivedEntries (tgDeltas tx)))"

definition sweep_spec :: "db \<Rightarrow> BalanceDelta list \<Rightarrow> MergeCandidate list" where
  "sweep_spec s ds = configured s HeuristicKeySweepSeed ds (\<lambda>cfg. concat (map (sweep_of s cfg) (GroupByTx ds)))"

lemma table_received [simp]: "received_total (s\<lparr>schedule := l\<rparr>) c a = received_total s c a"
  by (simp add: received_total_def)

lemma table_sources [simp]: "sources_to (s\<lparr>schedule := l\<rparr>) c a = sources_to s c a"
  by (simp add: sources_to_def)

lemma computes_distinctSources: "computes (distinctSourcesToTarget c a) (\<lambda>s. sources_to s c a)"
  unfolding distinctSourcesToTarget_def by (rule reads)+ simp

lemma computes_cumulativeReceived: "computes (cumulativeReceived c a) (\<lambda>s. received_total s c a)"
proof (rule computesI)
  have conv: "ToBigInt (scanInteger (drv s) v) = Inr v" if "driver_ok (drv s)" for s :: db and v
    using that by (intro ToBigInt_denotes) (simp_all add: driver_ok_def)
  show "table_fun (\<lambda>s. received_total s c a)" by (simp add: table_fun_def)
  show "x = received_total s c a \<and> moved s s'" if "driver_ok (drv s)" "cumulativeReceived c a s = (Inr x, s')" for s x s'
    using that conv [OF that(1)] by (auto simp: cumulativeReceived_def bnd_Inr query_Inr of_result_def received_total_def)
  show "cumulativeReceived c a s = (Inr (received_total s c a), s)" if "driver_ok (drv s)" "schedule s = []" for s
    using that conv [OF that(1)] by (simp add: cumulativeReceived_def bnd_def wrap_def query_no_faults of_result_def ret_def)
qed

lemma computes_looksLikeSweep:
  "computes (looksLikeSweep (tkChainID (tgKey tx)) (tgDeltas tx) src dst p) (\<lambda>s. sweeps_to s p tx src dst)"
  unfolding looksLikeSweep_def
  by (rule computes_cong, (rule computes_cumulativeReceived computes_distinctSources reads)+)
    (auto simp: sweeps_to_def Let_def)

lemma computes_sweep_src:
  "computes (sweep_src cfg p tx out target cs src) (\<lambda>s. cs @ (if src \<noteq> reAddress out \<and> sweeps_to s p tx src (reAddress out)
     then [candidate tx HeuristicKeySweepSeed (reAddress out) src (min (stConfidence target) (hcConfidence cfg))] else []))"
  unfolding sweep_src_def
  by (rule computes_cong, (rule computes_looksLikeSweep reads)+) (auto simp: min_def)

lemma computes_sweep_tx: "computes (sweep_tx cfg (parseSweepParams (hcParams cfg)) cs tx) (\<lambda>s. cs @ sweep_of s cfg tx)"
proof -
  let ?ins = "SpentAddresses (tgDeltas tx)" and ?outs = "ReceivedEntries (tgDeltas tx)"
  have "computes (bnd (wrap p (GetTarget (tkChainID (tgKey tx)) (reAddress out))) (\<lambda>r. case r of
          None \<Rightarrow> ret cs
        | Some target \<Rightarrow> foldE (sweep_src cfg (parseSweepParams (hcParams cfg)) tx out target) cs ?ins))
      (\<lambda>s. cs @ (case sweep_target s (tkChainID (tgKey tx)) (reAddress out) of
        None \<Rightarrow> []
      | Some target \<Rightarrow> map (\<lambda>src. candidate tx HeuristicKeySweepSeed (reAddress out) src (min (stConfidence target) (hcConfidence cfg)))
          (filter (\<lambda>src. src \<noteq> reAddress out \<and> sweeps_to s (parseSweepParams (hcParams cfg)) tx src (reAddress out)) ?ins)))" for p out cs
    by (rule computes_cong, (rule computes_sweep_src computes_collect reads)+) (simp add: concat_if split: option.split)
  note out = this
  show ?thesis unfolding sweep_tx_def
    by (rule computes_cong, (rule out computes_collect reads)+)
      (auto simp: sweep_of_def Let_def split: option.split intro: sym)
qed

lemma computes_Sweep: "computes (Sweep_Generate ds) (\<lambda>s. sweep_spec s ds)"
  unfolding Sweep_Generate_def sweep_spec_def
  by (rule computes_with_config, rule computes_cong, (rule computes_sweep_tx computes_collect)+) simp_all


section \<open>What every engine promises\<close>

text \<open>
  A grounded candidate comes from a transaction of the batch, joins two addresses of that
  transaction, carries the engine's key and the block of the transaction, and has at most the
  confidence configured for an enabled heuristic.
\<close>

definition grounded :: "db \<Rightarrow> string \<Rightarrow> BalanceDelta list \<Rightarrow> MergeCandidate \<Rightarrow> bool" where
  "grounded s key ds c \<longleftrightarrow> (\<exists>tx cfg a b k. tx \<in> set (GroupByTx ds) \<and>
     heuristic_config s (bdChainID (hd ds)) key = Some cfg \<and> hcEnabled cfg \<and>
     c = candidate tx key a b k \<and> k \<le> hcConfidence cfg \<and>
     a \<in> bdAddress ` set (tgDeltas tx) \<and> b \<in> bdAddress ` set (tgDeltas tx))"

definition hub_free :: "db \<Rightarrow> MergeCandidate \<Rightarrow> bool" where
  "hub_free s c \<longleftrightarrow> \<not> hub_in s (mcChainID c) (mcAddressA c) \<and> \<not> hub_in s (mcChainID c) (mcAddressB c)"

locale heuristic_engine =
  fixes key :: string
    and generate :: "BalanceDelta list \<Rightarrow> MergeCandidate list sql"
    and spec :: "db \<Rightarrow> BalanceDelta list \<Rightarrow> MergeCandidate list"
  assumes computes_spec: "computes (generate ds) (\<lambda>s. spec s ds)"
    and spec_grounded: "c \<in> set (spec s ds) \<Longrightarrow> grounded s key ds c"
    and reads_only: "stable I \<Longrightarrow> keeps I (generate ds)"
begin

lemma generate_value:
  assumes "driver_ok (drv s)" and "generate ds s = (Inr cs, s')"
  shows "cs = spec s ds"
  using computesD(1) [OF computes_spec assms] .

lemma generate_grounded:
  "driver_ok (drv s) \<Longrightarrow> generate ds s = (Inr cs, s') \<Longrightarrow> c \<in> set cs \<Longrightarrow> grounded s key ds c"
  using generate_value spec_grounded by blast

lemma generate_succeeds: "driver_ok (drv s) \<Longrightarrow> schedule s = [] \<Longrightarrow> generate ds s = (Inr (spec s ds), s)"
  by (rule computes_succeeds [OF computes_spec])

lemma generate_deterministic:
  assumes "driver_ok (drv s)" and "generate ds s = (Inr cs, s1)" and "moved s t" and "generate ds t = (Inr cs', t1)"
  shows "cs' = cs"
  using generate_value [OF assms(1,2)] generate_value [OF _ assms(4)] assms(1) moved_drv [OF assms(3)]
    moved_table [OF assms(3) computes_table [OF computes_spec]] by simp

end

locale hub_averse_engine = heuristic_engine +
  assumes spec_hub_free: "c \<in> set (spec s ds) \<Longrightarrow> hub_free s c"
begin

lemma generate_hub_free:
  "driver_ok (drv s) \<Longrightarrow> generate ds s = (Inr cs, s') \<Longrightarrow> c \<in> set cs \<Longrightarrow> hub_free s c"
  using generate_value spec_hub_free by blast

end

lemma groundedI:
  assumes "c \<in> set (configured s key ds (\<lambda>cfg. concat (map (f cfg) (GroupByTx ds))))"
    and "\<And>cfg tx. tx \<in> set (GroupByTx ds) \<Longrightarrow> c \<in> set (f cfg tx) \<Longrightarrow>
      \<exists>a b k. c = candidate tx key a b k \<and> k \<le> hcConfidence cfg \<and> a \<in> bdAddress ` set (tgDeltas tx) \<and> b \<in> bdAddress ` set (tgDeltas tx)"
  shows "grounded s key ds c"
proof -
  obtain cfg tx where "heuristic_config s (bdChainID (hd ds)) key = Some cfg" "hcEnabled cfg"
    "tx \<in> set (GroupByTx ds)" "c \<in> set (f cfg tx)"
    using assms(1) by (auto simp: configured_mem)
  with assms(2) [of tx cfg] show ?thesis unfolding grounded_def by blast
qed

lemma SpentAddresses_addr: "a \<in> set (SpentAddresses ds) \<Longrightarrow> a \<in> bdAddress ` set ds"
  by (auto simp: set_SpentAddresses)

lemma hd_SpentAddresses: "SpentAddresses ds \<noteq> [] \<Longrightarrow> hd (SpentAddresses ds) \<in> bdAddress ` set ds"
  by (intro SpentAddresses_addr) simp

lemma ReceivedEntries_addr: "e \<in> set (ReceivedEntries ds) \<Longrightarrow> reAddress e \<in> bdAddress ` set ds"
  by (auto simp: ReceivedEntries_eq)

lemma set_tlD: "x \<in> set (tl xs) \<Longrightarrow> x \<in> set xs \<and> hd xs \<in> set xs"
  by (cases xs) auto

lemma common_input_of_mem:
  assumes "c \<in> set (common_input_of s conf tx)"
  obtains a b where "c = candidate tx HeuristicKeyCommonInput a b conf" "a \<in> set (SpentAddresses (tgDeltas tx))"
    "b \<in> set (SpentAddresses (tgDeltas tx))" "\<not> hub_in s (tkChainID (tgKey tx)) a" "\<not> hub_in s (tkChainID (tgKey tx)) b"
    "\<not> excluded_in s (tkChainID (tgKey tx)) (tkTxID (tgKey tx))"
proof -
  let ?ins = "filter (\<lambda>a. \<not> hub_in s (tkChainID (tgKey tx)) a) (SpentAddresses (tgDeltas tx))"
  obtain b where b: "b \<in> set (tl ?ins)" "c = candidate tx HeuristicKeyCommonInput (hd ?ins) b conf"
    and ex: "\<not> excluded_in s (tkChainID (tgKey tx)) (tkTxID (tgKey tx))"
    using assms by (auto simp: common_input_of_def Let_def split: if_splits)
  have "b \<in> set ?ins" "hd ?ins \<in> set ?ins" using set_tlD [OF b(1)] by blast+
  then show thesis using b(2) ex by (intro that [of "hd ?ins" b]) (simp_all only: set_filter mem_Collect_eq simp_thms)
qed

lemma keeps_with_config [keep_rules]:
  "stable I \<Longrightarrow> (\<And>cfg. keeps I (body cfg)) \<Longrightarrow> keeps I (with_config name key ds body)"
  unfolding with_config_def by (intro keep_rules)

lemma keeps_IsExcluded [keep_rules]: "stable I \<Longrightarrow> keeps I (IsExcluded c t)"
  unfolding IsExcluded_def by (intro keep_rules)

interpretation common_input: hub_averse_engine HeuristicKeyCommonInput CommonInput_Generate common_input_spec
proof
  fix ds :: "BalanceDelta list" and s c and I :: "db \<Rightarrow> bool"
  show "computes (CommonInput_Generate ds) (\<lambda>s. common_input_spec s ds)" by (rule computes_CommonInput)
  show "keeps I (CommonInput_Generate ds)" if "stable I"
    unfolding CommonInput_Generate_def common_input_tx_def by (intro keep_rules that)
  show "grounded s HeuristicKeyCommonInput ds c" if "c \<in> set (common_input_spec s ds)"
    using that unfolding common_input_spec_def
    by (rule groundedI) (elim common_input_of_mem, blast intro: SpentAddresses_addr order_refl)
  show "hub_free s c" if "c \<in> set (common_input_spec s ds)"
    using that unfolding common_input_spec_def configured_mem
    by (auto elim!: common_input_of_mem simp: hub_free_def candidate_def)
qed

lemma change_of_mem:
  assumes "c \<in> set (change_of s cfg tx)"
  obtains b sc where "c = candidate tx HeuristicKeyChange (hd (SpentAddresses (tgDeltas tx))) (reAddress b) (min (hcConfidence cfg) sc)"
    "SpentAddresses (tgDeltas tx) \<noteq> []" "b \<in> set (ReceivedEntries (tgDeltas tx))"
    "cpChangeMin (parseChangeParams (hcParams cfg)) \<le> sc"
    "sc = change_score s (tkChainID (tgKey tx)) (bdBlockHeight (hd (tgDeltas tx))) (parseChangeParams (hcParams cfg)) b"
    "\<not> hub_in s (tkChainID (tgKey tx)) (hd (SpentAddresses (tgDeltas tx)))" "\<not> hub_in s (tkChainID (tgKey tx)) (reAddress b)"
    "\<not> excluded_in s (tkChainID (tgKey tx)) (tkTxID (tgKey tx))"
    "\<forall>x \<in> set (ReceivedEntries (tgDeltas tx)). change_score s (tkChainID (tgKey tx)) (bdBlockHeight (hd (tgDeltas tx)))
       (parseChangeParams (hcParams cfg)) x \<le> sc"
proof -
  let ?c = "tkChainID (tgKey tx)" and ?ins = "SpentAddresses (tgDeltas tx)" and ?outs = "ReceivedEntries (tgDeltas tx)"
  let ?score = "change_score s ?c (bdBlockHeight (hd (tgDeltas tx))) (parseChangeParams (hcParams cfg))"
  have guard: "\<not> excluded_in s ?c (tkTxID (tgKey tx))" "?ins \<noteq> []" "?outs \<noteq> []"
    "\<forall>a \<in> set ?ins. \<not> hub_in s ?c a" "\<forall>x \<in> set ?outs. \<not> hub_in s ?c (reAddress x)"
    using assms by (auto simp: change_of_def Let_def split: if_splits)
  obtain b where b: "best_of ?score ?outs = Some (b, ?score b)" "b \<in> set ?outs" "\<forall>x \<in> set ?outs. ?score x \<le> ?score b"
    using best_of_max [OF guard(3), of ?score] by blast
  have "\<not> ?score b < cpChangeMin (parseChangeParams (hcParams cfg)) \<and>
      c = candidate tx HeuristicKeyChange (hd ?ins) (reAddress b) (min (hcConfidence cfg) (?score b))"
    using assms guard b(1) by (auto simp: change_of_def Let_def split: if_splits)
  with guard b(2,3) show thesis by (intro that [of b "?score b"]) auto
qed

interpretation change: hub_averse_engine HeuristicKeyChange Change_Generate change_spec
proof
  fix ds :: "BalanceDelta list" and s c and I :: "db \<Rightarrow> bool"
  show "computes (Change_Generate ds) (\<lambda>s. change_spec s ds)" by (rule computes_Change)
  show "keeps I (Change_Generate ds)" if "stable I"
  proof -
    have hub: "keeps I (any_hub ch as)" for ch as by (induction as) (auto intro!: keep_rules that)
    show ?thesis
      unfolding Change_Generate_def change_tx_def scoreChangeCandidate_def wasRespentAfter_def touchesHub_def
      by (intro keep_rules that hub)
  qed
  show "grounded s HeuristicKeyChange ds c" if "c \<in> set (change_spec s ds)"
    using that unfolding change_spec_def
    by (rule groundedI) (elim change_of_mem, blast intro: hd_SpentAddresses ReceivedEntries_addr min.cobounded1)
  show "hub_free s c" if "c \<in> set (change_spec s ds)"
    using that unfolding change_spec_def configured_mem
    by (auto elim!: change_of_mem simp: hub_free_def candidate_def)
qed

interpretation funding: heuristic_engine HeuristicKeyFunding Funding_Generate funding_spec
proof
  fix ds :: "BalanceDelta list" and s c and I :: "db \<Rightarrow> bool"
  show "computes (Funding_Generate ds) (\<lambda>s. funding_spec s ds)" by (rule computes_Funding)
  show "keeps I (Funding_Generate ds)" if "stable I"
    unfolding Funding_Generate_def funding_tx_def funding_delta_def isNewAddress_def by (intro keep_rules that)
  show "grounded s HeuristicKeyFunding ds c" if "c \<in> set (funding_spec s ds)"
    using that unfolding funding_spec_def
  proof (rule groundedI)
    fix cfg tx
    assume "c \<in> set (funding_of s cfg tx)"
    then obtain d where "SpentAddresses (tgDeltas tx) \<noteq> []" "d \<in> set (tgDeltas tx)"
      "c = candidate tx HeuristicKeyFunding (hd (SpentAddresses (tgDeltas tx))) (bdAddress d) (hcConfidence cfg)"
      by (auto simp: funding_of_def Let_def split: if_splits)
    then show "\<exists>a b k. c = candidate tx HeuristicKeyFunding a b k \<and> k \<le> hcConfidence cfg \<and>
        a \<in> bdAddress ` set (tgDeltas tx) \<and> b \<in> bdAddress ` set (tgDeltas tx)"
      using hd_SpentAddresses by blast
  qed
qed

interpretation deployer: heuristic_engine HeuristicKeyDeployer Deployer_Generate deployer_spec
proof
  fix ds :: "BalanceDelta list" and s c and I :: "db \<Rightarrow> bool"
  show "computes (Deployer_Generate ds) (\<lambda>s. deployer_spec s ds)" by (rule computes_Deployer)
  show "keeps I (Deployer_Generate ds)" if "stable I"
    unfolding Deployer_Generate_def deployer_tx_def deployer_delta_def by (intro keep_rules that)
  show "grounded s HeuristicKeyDeployer ds c" if "c \<in> set (deployer_spec s ds)"
    using that unfolding deployer_spec_def
  proof (rule groundedI)
    fix cfg tx
    assume "c \<in> set (deployer_of s cfg tx)"
    then obtain d where "SpentAddresses (tgDeltas tx) \<noteq> []" "d \<in> set (tgDeltas tx)"
      "c = candidate tx HeuristicKeyDeployer (hd (SpentAddresses (tgDeltas tx))) (bdAddress d) (hcConfidence cfg)"
      by (auto simp: deployer_of_def Let_def split: if_splits)
    then show "\<exists>a b k. c = candidate tx HeuristicKeyDeployer a b k \<and> k \<le> hcConfidence cfg \<and>
        a \<in> bdAddress ` set (tgDeltas tx) \<and> b \<in> bdAddress ` set (tgDeltas tx)"
      using hd_SpentAddresses by blast
  qed
qed

lemma index_pairs_mem: "(x, y) \<in> set (index_pairs xs) \<Longrightarrow> x \<in> set xs \<and> y \<in> set xs"
  by (induction xs) auto

lemma tx_pairs_mem:
  "(tx, x, y) \<in> set (tx_pairs ds) \<Longrightarrow> tx \<in> set (GroupByTx ds) \<and> x \<in> bdAddress ` set (tgDeltas tx) \<and> y \<in> bdAddress ` set (tgDeltas tx)"
  by (auto simp: tx_pairs_def txAddresses_def normalizeAccountPair_def dest!: index_pairs_mem split: if_splits)

lemma behavioral_spec_mem:
  assumes "c \<in> set (behavioral_spec s ds)"
  obtains cfg tx x y where "heuristic_config s (bdChainID (hd ds)) HeuristicKeyBehavioral = Some cfg" "hcEnabled cfg"
    "(tx, x, y) \<in> set (tx_pairs ds)" "c = candidate tx HeuristicKeyBehavioral x y (hcConfidence cfg)"
    "parseBehavioralParams (hcParams cfg) \<le> int (shared_txs s (tkChainID (tgKey tx)) x y)"
    "\<not> hub_in s (tkChainID (tgKey tx)) x" "\<not> hub_in s (tkChainID (tgKey tx)) y"
proof -
  obtain cfg k where "heuristic_config s (bdChainID (hd ds)) HeuristicKeyBehavioral = Some cfg" "hcEnabled cfg"
    "k \<in> set (fresh_pairs [] (tx_pairs ds))" "c \<in> set (behavioral_of s cfg k)"
    using assms by (auto simp: behavioral_spec_def configured_mem)
  with fresh_pairs_subset show thesis
    by (cases k) (auto simp: behavioral_of_def Let_def split: if_splits intro!: that)
qed

interpretation behavioral: hub_averse_engine HeuristicKeyBehavioral Behavioral_Generate behavioral_spec
proof
  fix ds :: "BalanceDelta list" and s c and I :: "db \<Rightarrow> bool"
  show "computes (Behavioral_Generate ds) (\<lambda>s. behavioral_spec s ds)" by (rule computes_Behavioral)
  show "keeps I (Behavioral_Generate ds)" if "stable I"
    unfolding Behavioral_Generate_def behavioral_pair_def SharedTransactionCount_def by (intro keep_rules that) (simp add: keep_rules that split: prod.split)
  show "grounded s HeuristicKeyBehavioral ds c" if "c \<in> set (behavioral_spec s ds)"
  proof (rule behavioral_spec_mem [OF that])
    fix cfg tx x y
    assume "heuristic_config s (bdChainID (hd ds)) HeuristicKeyBehavioral = Some cfg" "hcEnabled cfg"
      "(tx, x, y) \<in> set (tx_pairs ds)" "c = candidate tx HeuristicKeyBehavioral x y (hcConfidence cfg)"
    then show ?thesis using tx_pairs_mem [of tx x y ds] unfolding grounded_def
      by (intro exI [of _ tx] exI [of _ cfg] exI [of _ x] exI [of _ y] exI [of _ "hcConfidence cfg"]) simp
  qed
  show "hub_free s c" if "c \<in> set (behavioral_spec s ds)"
    using that by (rule behavioral_spec_mem) (simp add: hub_free_def candidate_def)
qed

interpretation sweep: heuristic_engine HeuristicKeySweepSeed Sweep_Generate sweep_spec
proof
  fix ds :: "BalanceDelta list" and s c and I :: "db \<Rightarrow> bool"
  show "computes (Sweep_Generate ds) (\<lambda>s. sweep_spec s ds)" by (rule computes_Sweep)
  show "keeps I (Sweep_Generate ds)" if "stable I"
  proof -
    have "keeps I (of_result r)" for r :: "error + int" by (cases r) (simp_all add: of_result_def)
    then show ?thesis
      unfolding Sweep_Generate_def sweep_tx_def sweep_src_def looksLikeSweep_def cumulativeReceived_def distinctSourcesToTarget_def
      by (intro keep_rules that)
  qed
  show "grounded s HeuristicKeySweepSeed ds c" if "c \<in> set (sweep_spec s ds)"
    using that unfolding sweep_spec_def
  proof (rule groundedI)
    fix cfg tx
    assume "c \<in> set (sweep_of s cfg tx)"
    then obtain out where out: "out \<in> set (ReceivedEntries (tgDeltas tx))"
      and c: "c \<in> set (case sweep_target s (tkChainID (tgKey tx)) (reAddress out) of None \<Rightarrow> []
        | Some t \<Rightarrow> map (\<lambda>src. candidate tx HeuristicKeySweepSeed (reAddress out) src (min (stConfidence t) (hcConfidence cfg)))
            (filter (\<lambda>src. src \<noteq> reAddress out \<and> sweeps_to s (parseSweepParams (hcParams cfg)) tx src (reAddress out))
              (SpentAddresses (tgDeltas tx))))"
      unfolding sweep_of_def set_concat set_map by blast
    then obtain t :: SweepTarget and src where "src \<in> set (SpentAddresses (tgDeltas tx))"
      "c = candidate tx HeuristicKeySweepSeed (reAddress out) src (min (stConfidence t) (hcConfidence cfg))"
      by (cases "sweep_target s (tkChainID (tgKey tx)) (reAddress out)") auto
    with out show "\<exists>a b k. c = candidate tx HeuristicKeySweepSeed a b k \<and> k \<le> hcConfidence cfg \<and>
        a \<in> bdAddress ` set (tgDeltas tx) \<and> b \<in> bdAddress ` set (tgDeltas tx)"
      by (blast intro: ReceivedEntries_addr SpentAddresses_addr min.cobounded2)
  qed
qed


section \<open>Properties of the engines\<close>

text \<open>The engines in the order \<open>cmd/consumer/main.go\<close> wires them, with their names.\<close>

definition engines :: "(string \<times> (BalanceDelta list \<Rightarrow> MergeCandidate list sql)) list" where
  "engines = [(HeuristicKeyCommonInput, CommonInput_Generate), (HeuristicKeySweepSeed, Sweep_Generate),
     (HeuristicKeyChange, Change_Generate), (HeuristicKeyFunding, Funding_Generate),
     (HeuristicKeyDeployer, Deployer_Generate), (HeuristicKeyBehavioral, Behavioral_Generate)]"

definition engine_specs :: "(string \<times> (BalanceDelta list \<Rightarrow> MergeCandidate list sql) \<times> (db \<Rightarrow> BalanceDelta list \<Rightarrow> MergeCandidate list)) list" where
  "engine_specs = [(HeuristicKeyCommonInput, CommonInput_Generate, common_input_spec), (HeuristicKeySweepSeed, Sweep_Generate, sweep_spec),
     (HeuristicKeyChange, Change_Generate, change_spec), (HeuristicKeyFunding, Funding_Generate, funding_spec),
     (HeuristicKeyDeployer, Deployer_Generate, deployer_spec), (HeuristicKeyBehavioral, Behavioral_Generate, behavioral_spec)]"

lemma engines_contract:
  assumes "(key, generate) \<in> set engines"
  obtains spec where "heuristic_engine key generate spec" "(key, generate, spec) \<in> set engine_specs"
  using assms common_input.heuristic_engine_axioms change.heuristic_engine_axioms funding.heuristic_engine_axioms
    deployer.heuristic_engine_axioms behavioral.heuristic_engine_axioms sweep.heuristic_engine_axioms
  by (auto simp: engines_def engine_specs_def)



text \<open>
  C31: common input joins all spenders. In a transaction of the batch that is not excluded, any two spenders
  that are no hubs are joined through one anchor by the candidates; and without faults the
  engine succeeds.
\<close>

theorem common_input_joins_spenders:
  assumes "driver_ok (drv s)" and "CommonInput_Generate ds s = (Inr cs, s')"
    and cfg: "heuristic_config s (bdChainID (hd ds)) HeuristicKeyCommonInput = Some cfg" "hcEnabled cfg"
    and tx: "tx \<in> set (GroupByTx ds)" "\<not> excluded_in s (tkChainID (tgKey tx)) (tkTxID (tgKey tx))"
  shows "\<exists>anchor. \<forall>a \<in> set (SpentAddresses (tgDeltas tx)). hub_in s (tkChainID (tgKey tx)) a \<or> a = anchor \<or>
    candidate tx HeuristicKeyCommonInput anchor a (hcConfidence cfg) \<in> set cs"
proof -
  let ?ins = "filter (\<lambda>a. \<not> hub_in s (tkChainID (tgKey tx)) a) (SpentAddresses (tgDeltas tx))"
  have "a = hd ?ins \<or> a \<in> set (tl ?ins)" if "a \<in> set ?ins" for a
    using that by (metis emptyE list.collapse set_ConsD set_empty)
  moreover have "candidate tx HeuristicKeyCommonInput (hd ?ins) a (hcConfidence cfg) \<in> set cs" if "a \<in> set (tl ?ins)" for a
    unfolding common_input.generate_value [OF assms(1,2)] common_input_spec_def configured_mem
    using cfg tx that by (intro exI [of _ cfg]) (auto simp: common_input_of_def Let_def)
  ultimately show ?thesis by (intro exI [of _ "hd ?ins"]) force
qed

text \<open>
  C32: the change engine proposes the best scoring output. A candidate joins the first
  spender to an output whose score is highest and reaches \<open>ChangeMin\<close>, with the smaller of that score
  and the configured confidence.
\<close>

theorem change_takes_best_output:
  assumes "driver_ok (drv s)" and "Change_Generate ds s = (Inr cs, s')" and "c \<in> set cs"
  shows "\<exists>cfg tx b. heuristic_config s (bdChainID (hd ds)) HeuristicKeyChange = Some cfg \<and> tx \<in> set (GroupByTx ds) \<and>
    b \<in> set (ReceivedEntries (tgDeltas tx)) \<and> mcAddressA c = hd (SpentAddresses (tgDeltas tx)) \<and> mcAddressB c = reAddress b \<and>
    (let score = change_score s (tkChainID (tgKey tx)) (bdBlockHeight (hd (tgDeltas tx))) (parseChangeParams (hcParams cfg)) in
     cpChangeMin (parseChangeParams (hcParams cfg)) \<le> score b \<and> (\<forall>x \<in> set (ReceivedEntries (tgDeltas tx)). score x \<le> score b) \<and> mcConfidence c = min (hcConfidence cfg) (score b))"
proof -
  obtain cfg tx where cfg: "heuristic_config s (bdChainID (hd ds)) HeuristicKeyChange = Some cfg"
    and tx: "tx \<in> set (GroupByTx ds)" "c \<in> set (change_of s cfg tx)"
    using assms(3) unfolding change.generate_value [OF assms(1,2)] change_spec_def configured_mem by auto
  from tx(2) show ?thesis
  proof (rule change_of_mem)
    fix b sc
    assume "c = candidate tx HeuristicKeyChange (hd (SpentAddresses (tgDeltas tx))) (reAddress b) (min (hcConfidence cfg) sc)"
      "b \<in> set (ReceivedEntries (tgDeltas tx))" "cpChangeMin (parseChangeParams (hcParams cfg)) \<le> sc"
      "sc = change_score s (tkChainID (tgKey tx)) (bdBlockHeight (hd (tgDeltas tx))) (parseChangeParams (hcParams cfg)) b"
      "\<forall>x \<in> set (ReceivedEntries (tgDeltas tx)). change_score s (tkChainID (tgKey tx)) (bdBlockHeight (hd (tgDeltas tx)))
         (parseChangeParams (hcParams cfg)) x \<le> sc"
    with cfg tx(1) show ?thesis by (intro exI [of _ cfg] exI [of _ tx] exI [of _ b]) (simp add: candidate_def Let_def)
  qed
qed

text \<open>A chain with every heuristic enabled, and a transaction in which two addresses spend together.\<close>

definition sample_engines_db :: db where
  "sample_engines_db = empty_db\<lparr>
     tblHeuristic := map (\<lambda>k. \<lparr>hrKey = k, hrAppliesTo = ''any'', hrDefaultConfidence = 1 / 2\<rparr>) (map fst engines),
     tblChainHeuristic := map (\<lambda>k. \<lparr>chhChainID = ''eth'', chhKey = k, chhEnabled = True, chhConfidenceOverride = None, chhParams = RawEmpty\<rparr>) (map fst engines),
     tblAddress := [new_address ''eth'' ''A'' 1, new_address ''eth'' ''B'' 1, new_address ''eth'' ''C'' 7]\<rparr>"

definition sample_spend :: "BalanceDelta list" where
  "sample_spend = [sample_delta ''t1'' 0 ''A'' (- 5), sample_delta ''t1'' 1 ''B'' (- 4), sample_delta ''t1'' 2 ''C'' 9]"

definition sample_spend_tx :: TxGroup where
  "sample_spend_tx = \<lparr>tgKey = \<lparr>tkChainID = ''eth'', tkTxID = ''t1''\<rparr>, tgDeltas = sample_spend\<rparr>"

lemma driver_sample_engines: "driver_ok (drv sample_engines_db)" "schedule sample_engines_db = []"
  by (simp_all add: sample_engines_db_def empty_db_def driver_ok_sample)

lemmas sample_common_input = common_input.generate_succeeds [OF driver_sample_engines, of sample_spend]

lemmas sample_change = change.generate_succeeds [OF driver_sample_engines, of sample_spend]

lemma sample_common_input_spec:
  "common_input_spec sample_engines_db sample_spend = [candidate sample_spend_tx HeuristicKeyCommonInput ''A'' ''B'' (1 / 2)]"
  by code_simp



theorem common_input_joins_spenders_witness:
  "\<exists>anchor. list_all (\<lambda>a. a = anchor \<or> hub_in sample_engines_db ''eth'' a \<or>
     candidate sample_spend_tx HeuristicKeyCommonInput anchor a (1 / 2) \<in> set (common_input_spec sample_engines_db sample_spend)) [''A'', ''B'']"
proof -
  let ?cfg = "\<lparr>hcEnabled = True, hcConfidence = 1 / 2, hcParams = RawEmpty\<rparr>"
  have "heuristic_config sample_engines_db (bdChainID (hd sample_spend)) HeuristicKeyCommonInput = Some ?cfg" by code_simp
  moreover have "list_all (\<lambda>tx. tx = sample_spend_tx) (GroupByTx sample_spend) \<and> GroupByTx sample_spend \<noteq> []" by code_simp
  then have "sample_spend_tx \<in> set (GroupByTx sample_spend)" by (cases "GroupByTx sample_spend") simp_all
  moreover have "\<not> excluded_in sample_engines_db (tkChainID (tgKey sample_spend_tx)) (tkTxID (tgKey sample_spend_tx))" by code_simp
  moreover have "SpentAddresses (tgDeltas sample_spend_tx) = [''A'', ''B'']" by code_simp
  moreover have "tkChainID (tgKey sample_spend_tx) = ''eth''" by (simp add: sample_spend_tx_def)
  ultimately show ?thesis
    using common_input_joins_spenders [OF driver_sample_engines(1) sample_common_input, of ?cfg sample_spend_tx] by auto
qed

theorem change_takes_best_output_witness:
  "\<exists>c \<in> set (change_spec sample_engines_db sample_spend). mcAddressB c = ''C'' \<and> cpChangeMin defaultChangeParams \<le> 7 / 10"
proof -
  have ev: "map mcAddressB (change_spec sample_engines_db sample_spend) = [''C'']" by code_simp
  then obtain c where c: "change_spec sample_engines_db sample_spend = [c]" "mcAddressB c = ''C''" by (cases "change_spec sample_engines_db sample_spend") auto
  have "\<exists>cfg. heuristic_config sample_engines_db (bdChainID (hd sample_spend)) HeuristicKeyChange = Some cfg"
    using change_takes_best_output [OF driver_sample_engines(1) sample_change, of c] c(1) by auto
  moreover have "cpChangeMin defaultChangeParams \<le> 7 / 10" by code_simp
  ultimately show ?thesis using c by simp
qed

definition sample_call :: "BalanceDelta list" where
  "sample_call = [sample_delta ''t1'' 0 ''A'' (- 5),
     (sample_delta ''t1'' 1 ''B'' 5)\<lparr>bdMeta := RawDoc (JObj [(''contract_creation'', JBool True)])\<rparr>]"

text \<open>
  The deployer engine does not ask whether the contract is new. Its description says that everything but the contract
  flag is as in the funding engine, which requires the recipient to be first seen in this block;
  here a contract first seen at height 1 is joined to its caller at height 7.
\<close>

theorem deployer_joins_known_contract:
  "(\<exists>c. Deployer_Generate sample_call sample_engines_db = (Inr [c], sample_engines_db) \<and> mcAddressA c = ''A'' \<and> mcAddressB c = ''B'') \<and>
   Funding_Generate (map (\<lambda>d. d\<lparr>bdMeta := RawEmpty\<rparr>) sample_call) sample_engines_db = (Inr [], sample_engines_db)"
proof -
  have "map (\<lambda>c. (mcAddressA c, mcAddressB c)) (deployer_spec sample_engines_db sample_call) = [(''A'', ''B'')]" by code_simp
  then obtain c where "deployer_spec sample_engines_db sample_call = [c]" "mcAddressA c = ''A''" "mcAddressB c = ''B''"
    by (cases "deployer_spec sample_engines_db sample_call") auto
  moreover have "funding_spec sample_engines_db (map (\<lambda>d. d\<lparr>bdMeta := RawEmpty\<rparr>) sample_call) = []" by code_simp
  ultimately show ?thesis
    using deployer.generate_succeeds [OF driver_sample_engines] funding.generate_succeeds [OF driver_sample_engines] by auto
qed

end
