(* ===== verification/Evidence.thy ===== *)
theory Evidence
  imports Database
begin

text \<open>
  \<open>internal/evidence/store.go\<close>: the append-only log of merge evidence. The table holds the
  rows with their \<open>NUMERIC(4,3)\<close> confidence; the reads scan it back into a \<open>float64\<close>.
  Shown here: the invariant of the log, that no operation ever removes or rewrites an entry,
  and what each operation returns and does on every outcome.
\<close>

section \<open>Operations\<close>

text \<open>The row that \<open>INSERT INTO merge_evidence\<close> writes, with the column defaults.\<close>

definition evidence_row :: "MergeEvidence \<Rightarrow> string \<Rightarrow> int \<Rightarrow> rat \<Rightarrow> int \<Rightarrow> MergeEvidence" where
  "evidence_row e createdBy op q now =
     e\<lparr>meOpID := op, meConfidence := q, meStatus := EvidenceStatusActive, meInvalidatedReason := None,
       meCreatedAt := now, meCreatedBy := createdBy\<rparr>"

definition insert_evidence :: "MergeEvidence \<Rightarrow> string \<Rightarrow> db \<Rightarrow> (string + int) \<times> db" where
  "insert_evidence e createdBy s =
     (let op = mergeOpSeq s; s1 = s\<lparr>mergeOpSeq := op + 1\<rparr> in
      if meChainID e \<notin> set (partitions s) then (Inl ''no partition of relation merge_evidence'', s1)
      else case numericOf (drv s) (meConfidence e) of
          None \<Rightarrow> (Inl ''numeric field overflow'', s1)
        | Some q \<Rightarrow>
            if 0 \<le> q \<and> q \<le> 1
            then (Inr op, s1\<lparr>tblEvidence := tblEvidence s @ [evidence_row e createdBy op q (clock s)]\<rparr>)
            else (Inl ''violates check constraint on confidence'', s1))"

definition Append :: "MergeEvidence \<Rightarrow> int sql" where
  "Append e =
     (if meAddressA e = meAddressB e
      then throw (ErrMsg (''evidence: address_a and address_b must differ (got '' @ meAddressA e @ '')''))
      else
        let createdBy = (if meCreatedBy e = [] then ''system'' else meCreatedBy e)
        in wrap ''evidence: append'' (stmt (insert_evidence e createdBy)))"

definition invalidates :: "string \<Rightarrow> int \<Rightarrow> MergeEvidence \<Rightarrow> bool" where
  "invalidates chainID opID e \<longleftrightarrow> meChainID e = chainID \<and> meOpID e = opID \<and> is_active e"

definition invalidate_row :: "string \<Rightarrow> MergeEvidence \<Rightarrow> MergeEvidence" where
  "invalidate_row reason e = e\<lparr>meStatus := EvidenceStatusInvalidated, meInvalidatedReason := Some reason\<rparr>"

definition Invalidate :: "string \<Rightarrow> int \<Rightarrow> string \<Rightarrow> bool sql" where
  "Invalidate chainID opID reason = wrap ''evidence: invalidate'' (stmt (\<lambda>s.
     (Inr (0 < length (filter (invalidates chainID opID) (tblEvidence s))),
      s\<lparr>tblEvidence := map (\<lambda>e. if invalidates chainID opID e then invalidate_row reason e else e) (tblEvidence s)\<rparr>)))"

text \<open>\<open>collect\<close>: one \<open>rows.Scan\<close> per row.\<close>

definition scan_row :: "db \<Rightarrow> MergeEvidence \<Rightarrow> MergeEvidence" where
  "scan_row s e = e\<lparr>meConfidence := floatOf (drv s) (meConfidence e)\<rparr>"

definition collect :: "db \<Rightarrow> MergeEvidence list \<Rightarrow> MergeEvidence list" where
  "collect s rows = map (scan_row s) rows"

definition active_rows :: "db \<Rightarrow> string \<Rightarrow> MergeEvidence list" where
  "active_rows s chainID = collect s (sort_key meOpID
     (filter (\<lambda>e. meChainID e = chainID \<and> is_active e) (tblEvidence s)))"

definition ScanActive :: "string \<Rightarrow> MergeEvidence list sql" where
  "ScanActive chainID = wrap ''evidence: scan active'' (query (\<lambda>s. active_rows s chainID))"

definition anchored :: "string \<Rightarrow> string list \<Rightarrow> MergeEvidence \<Rightarrow> bool" where
  "anchored chainID blockHashes e \<longleftrightarrow> meChainID e = chainID \<and>
     (case meSourceBlockHash e of None \<Rightarrow> False | Some h \<Rightarrow> h \<in> set blockHashes)"

definition ByBlockHash :: "string \<Rightarrow> string list \<Rightarrow> MergeEvidence list sql" where
  "ByBlockHash chainID blockHashes = wrap ''evidence: by block hash'' (query (\<lambda>s.
     collect s (heapEvidence (drv s) (filter (anchored chainID blockHashes) (tblEvidence s)))))"

definition ByAddressPair :: "string \<Rightarrow> string \<Rightarrow> string \<Rightarrow> MergeEvidence list sql" where
  "ByAddressPair chainID a b = wrap ''evidence: by address pair'' (query (\<lambda>s.
     collect s (sort_key meOpID (filter (\<lambda>e. meChainID e = chainID \<and>
       (meAddressA e = a \<and> meAddressB e = b \<or> meAddressA e = b \<and> meAddressB e = a)) (tblEvidence s)))))"

definition ByAddresses :: "string \<Rightarrow> string list \<Rightarrow> MergeEvidence list sql" where
  "ByAddresses chainID addresses = wrap ''evidence: by addresses'' (query (\<lambda>s.
     collect s (sort_key meOpID (filter (\<lambda>e. meChainID e = chainID \<and>
       (meAddressA e \<in> set addresses \<or> meAddressB e \<in> set addresses)) (tblEvidence s)))))"


section \<open>The invariant of the log\<close>

text \<open>
  Operation ids are increasing and below the sequence, no entry links an address with
  itself, confidences are probabilities and the status is one of the two.
\<close>

definition log_entry_ok :: "MergeEvidence \<Rightarrow> bool" where
  "log_entry_ok e \<longleftrightarrow> meAddressA e \<noteq> meAddressB e \<and> 0 \<le> meConfidence e \<and> meConfidence e \<le> 1 \<and>
     (meStatus e = EvidenceStatusActive \<or> meStatus e = EvidenceStatusInvalidated)"

definition log_inv :: "db \<Rightarrow> bool" where
  "log_inv s \<longleftrightarrow> sorted_wrt (<) (map meOpID (tblEvidence s)) \<and>
     (\<forall>e \<in> set (tblEvidence s). meOpID e < mergeOpSeq s \<and> log_entry_ok e)"

text \<open>
  The log evolves: every earlier entry is still at its place, unchanged or, if it was
  active, invalidated with a reason.
\<close>

definition entry_evolves :: "MergeEvidence \<Rightarrow> MergeEvidence \<Rightarrow> bool" where
  "entry_evolves e e' \<longleftrightarrow> e' = e \<or> is_active e \<and> (\<exists>r. e' = invalidate_row r e)"

definition evolves :: "MergeEvidence list \<Rightarrow> MergeEvidence list \<Rightarrow> bool" where
  "evolves l l' \<longleftrightarrow> (\<exists>l1 new. list_all2 entry_evolves l l1 \<and> l' = l1 @ new)"

lemma status_distinct [simp]:
  "EvidenceStatusActive \<noteq> EvidenceStatusInvalidated" "EvidenceStatusInvalidated \<noteq> EvidenceStatusActive"
  by (simp_all add: EvidenceStatusActive_def EvidenceStatusInvalidated_def)

lemma invalidate_row_fields [simp]:
  "meOpID (invalidate_row r e) = meOpID e" "meChainID (invalidate_row r e) = meChainID e"
  "meAddressA (invalidate_row r e) = meAddressA e" "meAddressB (invalidate_row r e) = meAddressB e"
  "meSourceBlockHash (invalidate_row r e) = meSourceBlockHash e"
  "meConfidence (invalidate_row r e) = meConfidence e" "meStatus (invalidate_row r e) = EvidenceStatusInvalidated"
  by (simp_all add: invalidate_row_def)

lemma entry_evolves_refl [simp]: "entry_evolves e e"
  by (simp add: entry_evolves_def)

lemma entry_evolves_trans: "entry_evolves a b \<Longrightarrow> entry_evolves b c \<Longrightarrow> entry_evolves a c"
  by (auto simp: entry_evolves_def)

lemma evolvesI: "list_all2 entry_evolves l l1 \<Longrightarrow> evolves l (l1 @ new)"
  unfolding evolves_def by blast

lemma evolvesE:
  assumes "evolves l l'"
  obtains l1 new where "list_all2 entry_evolves l l1" and "l' = l1 @ new"
  using assms unfolding evolves_def by blast

lemma evolves_refl [simp]: "evolves l l"
  using evolvesI [of l l "[]"] by (simp add: list_all2_refl)

lemma evolves_trans:
  assumes "evolves a b" and "evolves b c"
  shows "evolves a c"
proof -
  obtain b1 new where b: "list_all2 entry_evolves a b1" "b = b1 @ new" using assms(1) by (rule evolvesE)
  obtain c1 new' where c: "list_all2 entry_evolves b c1" "c = c1 @ new'" using assms(2) by (rule evolvesE)
  obtain c2 c3 where "c1 = c2 @ c3" "list_all2 entry_evolves b1 c2"
    using c(1) unfolding b(2) by (auto simp: list_all2_append1)
  moreover from this b(1) have "list_all2 entry_evolves a c2"
    by (blast intro: list_all2_trans entry_evolves_trans)
  ultimately show ?thesis using c(2) evolvesI [of a c2 "c3 @ new'"] by simp
qed

lemma evolves_append: "evolves l (l @ new)"
  by (intro evolvesI) (simp add: list_all2_refl)

lemma evolves_map: "(\<And>e. e \<in> set l \<Longrightarrow> entry_evolves e (f e)) \<Longrightarrow> evolves l (map f l)"
  using evolvesI [of l "map f l" "[]"] by (simp add: list_all2_map2 list.rel_refl_strong)



section \<open>Every operation keeps the log\<close>

text \<open>Frame of the writes: outside the log and its sequence nothing changes.\<close>

definition outside_log :: "db \<Rightarrow> db" where
  "outside_log s = s\<lparr>schedule := [], mergeOpSeq := 0, tblEvidence := []\<rparr>"

lemma insert_evidence_cases:
  obtains (failed) msg where "insert_evidence e cb s = (Inl msg, s\<lparr>mergeOpSeq := mergeOpSeq s + 1\<rparr>)"
  | (inserted) q where "0 \<le> q" "q \<le> 1" "numericOf (drv s) (meConfidence e) = Some q" "meChainID e \<in> set (partitions s)"
      "insert_evidence e cb s = (Inr (mergeOpSeq s), s\<lparr>mergeOpSeq := mergeOpSeq s + 1,
         tblEvidence := tblEvidence s @ [evidence_row e cb (mergeOpSeq s) q (clock s)]\<rparr>)"
proof (cases "\<exists>q. numericOf (drv s) (meConfidence e) = Some q \<and> 0 \<le> q \<and> q \<le> 1 \<and> meChainID e \<in> set (partitions s)")
  case True
  then obtain q where "numericOf (drv s) (meConfidence e) = Some q" "0 \<le> q" "q \<le> 1" "meChainID e \<in> set (partitions s)"
    by blast
  then show ?thesis by (intro inserted [of q]) (simp_all add: insert_evidence_def Let_def)
next
  case False
  then have "\<exists>msg. insert_evidence e cb s = (Inl msg, s\<lparr>mergeOpSeq := mergeOpSeq s + 1\<rparr>)"
    by (auto simp: insert_evidence_def Let_def split: option.splits)
  then show ?thesis using failed by blast
qed

lemma stable_outside_log: "stable (\<lambda>s. outside_log s = k)"
  by (simp add: stable_def outside_log_def)

lemma stable_log_inv: "stable log_inv"
  by (simp add: stable_def log_inv_def)

lemma stable_evolves: "stable (\<lambda>s. evolves l (tblEvidence s))"
  by (simp add: stable_def)

lemma log_inv_insert:
  assumes "log_inv s" and "meAddressA e \<noteq> meAddressB e"
  shows "log_inv (snd (insert_evidence e cb s))"
proof (cases rule: insert_evidence_cases [of e cb s])
  case (failed msg)
  then show ?thesis using assms(1) by (force simp: log_inv_def)
next
  case (inserted q)
  then show ?thesis using assms
    by (auto simp: log_inv_def sorted_wrt_append log_entry_ok_def evidence_row_def less_Suc_eq
        intro: less_trans)
qed

lemma keeps_Append [keep_rules]:
  "keeps log_inv (Append e)" "keeps (\<lambda>s. evolves l (tblEvidence s)) (Append e)"
  "keeps (\<lambda>s. outside_log s = k) (Append e)"
proof -
  show "keeps log_inv (Append e)"
    unfolding Append_def Let_def
    by (intro keep_rules keeps_stmt stable_log_inv log_inv_insert)
  show "keeps (\<lambda>s. evolves l (tblEvidence s)) (Append e)"
    unfolding Append_def Let_def
  proof (intro keep_rules keeps_stmt stable_evolves)
    fix s :: db and cb assume "evolves l (tblEvidence s)"
    then show "evolves l (tblEvidence (snd (insert_evidence e cb s)))"
      by (cases rule: insert_evidence_cases [of e cb s])
        (simp_all add: evolves_trans [OF _ evolves_append])
  qed
  show "keeps (\<lambda>s. outside_log s = k) (Append e)"
    unfolding Append_def Let_def
  proof (intro keep_rules keeps_stmt stable_outside_log)
    fix s :: db and cb assume "outside_log s = k"
    then show "outside_log (snd (insert_evidence e cb s)) = k"
      by (cases rule: insert_evidence_cases [of e cb s]) (auto simp: outside_log_def)
  qed
qed

definition invalidate_where :: "string \<Rightarrow> int \<Rightarrow> string \<Rightarrow> MergeEvidence list \<Rightarrow> MergeEvidence list" where
  "invalidate_where chainID opID reason l =
     map (\<lambda>e. if invalidates chainID opID e then invalidate_row reason e else e) l"

lemma Invalidate_unfold:
  "Invalidate chainID opID reason = wrap ''evidence: invalidate'' (stmt (\<lambda>s.
     (Inr (\<exists>e \<in> set (tblEvidence s). invalidates chainID opID e),
      s\<lparr>tblEvidence := invalidate_where chainID opID reason (tblEvidence s)\<rparr>)))"
  unfolding Invalidate_def invalidate_where_def by (simp add: filter_empty_conv)

lemma evolves_invalidate_where: "evolves l (invalidate_where c op r l)"
  unfolding invalidate_where_def
  by (rule evolves_map) (auto simp: entry_evolves_def invalidates_def)

lemma keeps_Invalidate [keep_rules]:
  "keeps log_inv (Invalidate c op r)" "keeps (\<lambda>s. evolves l (tblEvidence s)) (Invalidate c op r)"
  "keeps (\<lambda>s. outside_log s = k) (Invalidate c op r)"
proof -
  show "keeps log_inv (Invalidate c op r)"
    unfolding Invalidate_unfold
  proof (intro keep_rules keeps_stmt stable_log_inv)
    fix s assume "log_inv s"
    moreover have "map meOpID (invalidate_where c op r l) = map meOpID l" for l
      by (simp add: invalidate_where_def)
    ultimately show "log_inv (snd (Inr (\<exists>e \<in> set (tblEvidence s). invalidates c op e),
        s\<lparr>tblEvidence := invalidate_where c op r (tblEvidence s)\<rparr>))"
      by (auto simp: log_inv_def log_entry_ok_def) (auto simp: invalidate_where_def log_entry_ok_def)
  qed
  show "keeps (\<lambda>s. evolves l (tblEvidence s)) (Invalidate c op r)"
    unfolding Invalidate_unfold
    by (intro keep_rules keeps_stmt stable_evolves) (simp add: evolves_trans [OF _ evolves_invalidate_where])
  show "keeps (\<lambda>s. outside_log s = k) (Invalidate c op r)"
    unfolding Invalidate_unfold
    by (intro keep_rules keeps_stmt stable_outside_log) (simp add: outside_log_def)
qed

text \<open>The reads change nothing but the schedule.\<close>

lemma keeps_evidence_reads [keep_rules]:
  assumes "stable I"
  shows "keeps I (ScanActive c)" "keeps I (ByBlockHash c hs)" "keeps I (ByAddressPair c a b)" "keeps I (ByAddresses c as)"
  unfolding ScanActive_def ByBlockHash_def ByAddressPair_def ByAddresses_def
  by (intro keep_rules assms)+


section \<open>What the operations do\<close>

lemma log_inv_sorted:
  assumes "log_inv s"
  shows "sort_key meOpID (filter P (tblEvidence s)) = filter P (tblEvidence s)"
proof (rule sort_key_id_if_sorted)
  have "sorted_wrt (<) (map meOpID (filter P (tblEvidence s)))"
    using assms by (simp add: log_inv_def sorted_wrt_map sorted_wrt_filter)
  then show "sorted (map meOpID (filter P (tblEvidence s)))" by (rule strict_sorted_imp_sorted)
qed

lemma active_rows_log:
  "log_inv s \<Longrightarrow> active_rows s c = map (scan_row s) (filter (\<lambda>e. meChainID e = c \<and> is_active e) (tblEvidence s))"
  by (simp add: active_rows_def collect_def log_inv_sorted)

lemma log_inv_op_unique:
  assumes "log_inv s" and "e \<in> set (tblEvidence s)" and "e' \<in> set (tblEvidence s)" and "meOpID e = meOpID e'"
  shows "e = e'"
proof -
  have "distinct (map meOpID (tblEvidence s))" using assms(1) by (simp add: log_inv_def strict_sorted_iff)
  with assms(2-4) show ?thesis by (metis distinct_map inj_onD)
qed

lemma Append_Inr:
  assumes "Append e s = (Inr op, s')"
  obtains q cb where "meAddressA e \<noteq> meAddressB e" and "op = mergeOpSeq s"
    and "numericOf (drv s) (meConfidence e) = Some q" and "meChainID e \<in> set (partitions s)"
    and "s' = (advance s)\<lparr>mergeOpSeq := mergeOpSeq s + 1,
       tblEvidence := tblEvidence s @ [evidence_row e cb (mergeOpSeq s) q (clock s)]\<rparr>"
proof -
  obtain cb where "meAddressA e \<noteq> meAddressB e" and I: "insert_evidence e cb (advance s) = (Inr op, s')"
    using assms by (auto simp: Append_def Let_def stmt_Inr split: if_splits)
  then show ?thesis
    by (cases rule: insert_evidence_cases [of e cb "advance s"]) (use that in auto)
qed

lemma Append_evidence:
  assumes "log_inv s" and "Append e s = (Inr op, s')"
  shows "\<exists>row. tblEvidence s' = tblEvidence s @ [row] \<and> meOpID row = op \<and>
    meChainID row = meChainID e \<and> meAddressA row = meAddressA e \<and> meAddressB row = meAddressB e \<and>
    meHeuristicKey row = meHeuristicKey e \<and> meSourceTxID row = meSourceTxID e \<and>
    meSourceBlockHash row = meSourceBlockHash e \<and> meSourceBlockHeight row = meSourceBlockHeight e \<and>
    numericOf (drv s) (meConfidence e) = Some (meConfidence row) \<and> is_active row"
  using assms(2) by (elim Append_Inr) (auto simp: evidence_row_def)

text \<open>What an entry reads like after it was appended.\<close>

lemma active_rows_append:
  assumes "log_inv s" and "Append e s = (Inr op, s')"
  shows "\<exists>row. active_rows s' c = active_rows s c @ (if c = meChainID e then [scan_row s row] else []) \<and>
    meOpID row = op \<and> meAddressA row = meAddressA e \<and> meAddressB row = meAddressB e \<and>
    meSourceTxID row = meSourceTxID e \<and> numericOf (drv s) (meConfidence e) = Some (meConfidence row) \<and> is_active row"
proof -
  have s': "log_inv s'" using keeps_Append(1) assms by (rule keepsD)
  obtain row where row: "tblEvidence s' = tblEvidence s @ [row]" "meOpID row = op" "meChainID row = meChainID e"
    "meAddressA row = meAddressA e" "meAddressB row = meAddressB e" "meSourceTxID row = meSourceTxID e"
    "numericOf (drv s) (meConfidence e) = Some (meConfidence row)" "is_active row"
    using Append_evidence [OF assms] by blast
  have "drv s' = drv s" using assms(2) by (elim Append_Inr) simp
  then have "scan_row s' = scan_row s" by (simp add: scan_row_def fun_eq_iff)
  with row assms(1) s' show ?thesis by (intro exI [of _ row]) (simp add: active_rows_log)
qed

lemma Invalidate_Inr:
  "Invalidate c op r s = (Inr b, s') \<longleftrightarrow>
     next_outcome s = Done \<and> b = (\<exists>e \<in> set (tblEvidence s). invalidates c op e) \<and>
     s' = (advance s)\<lparr>tblEvidence := invalidate_where c op r (tblEvidence s)\<rparr>"
  by (auto simp: Invalidate_unfold stmt_Inr)

lemma invalidate_where_idle:
  "\<not> (\<exists>e \<in> set l. invalidates c op e) \<Longrightarrow> invalidate_where c op r l = l"
  by (auto simp: invalidate_where_def intro: map_idI)

lemma filter_active_invalidated:
  "filter (\<lambda>e. meChainID e = c' \<and> is_active e) (invalidate_where c op r l) =
   filter (\<lambda>e. \<not> (meChainID e = c \<and> meOpID e = op)) (filter (\<lambda>e. meChainID e = c' \<and> is_active e) l)"
  by (induction l) (auto simp: invalidate_where_def invalidates_def)

lemma active_rows_invalidate:
  assumes "log_inv s" and "Invalidate c op r s = (Inr b, s')"
  shows "active_rows s' c' = filter (\<lambda>e. \<not> (meChainID e = c \<and> meOpID e = op)) (active_rows s c')"
proof -
  have s': "log_inv s'" using keeps_Invalidate(1) assms by (rule keepsD)
  have t: "tblEvidence s' = invalidate_where c op r (tblEvidence s)" and "drv s' = drv s"
    using assms(2) by (auto simp: Invalidate_Inr)
  then have "scan_row s' = scan_row s" by (simp add: scan_row_def fun_eq_iff)
  moreover have "map (scan_row s) (filter (\<lambda>e. \<not> (meChainID e = c \<and> meOpID e = op)) l) =
      filter (\<lambda>e. \<not> (meChainID e = c \<and> meOpID e = op)) (map (scan_row s) l)" for l
    by (simp add: filter_map comp_def scan_row_def)
  ultimately show ?thesis
    using t assms(1) s' by (simp only: active_rows_log filter_active_invalidated)
qed

lemma ScanActive_Inr:
  "ScanActive c s = (Inr ev, s') \<longleftrightarrow> next_outcome s = Done \<and> ev = active_rows s c \<and> s' = advance s"
  by (auto simp: ScanActive_def query_Inr active_rows_def collect_def scan_row_def)

text \<open>Active entries satisfy what replay asks of its input.\<close>

lemma active_rows_entry:
  assumes "log_inv s" and "driver_ok (drv s)" and "e \<in> set (active_rows s c)"
  shows "is_active e" and "meAddressA e \<noteq> meAddressB e" and "0 \<le> meConfidence e" and "meConfidence e \<le> 1"
    and "meChainID e = c"
proof -
  obtain row where "row \<in> set (tblEvidence s)" "is_active row" "meChainID row = c" "e = scan_row s row"
    using assms(1,3) by (auto simp: active_rows_log)
  then show "is_active e" "meAddressA e \<noteq> meAddressB e" "0 \<le> meConfidence e" "meConfidence e \<le> 1" "meChainID e = c"
    using assms(1,2) by (auto simp: scan_row_def log_inv_def log_entry_ok_def driver_ok_def)
qed

end
