(* ===== verification/ClusterStore.thy ===== *)
theory ClusterStore
  imports ReplayCorrect Evidence
begin

text \<open>
  \<open>internal/cluster/store.go\<close>: the derived cache. \<open>RebuildFromEvidence\<close> replays the active
  evidence of a chain and replaces the chain's rows of \<open>cluster\<close> and
  \<open>cluster_membership\<close> in one transaction; \<open>ClusterOf\<close>, \<open>MembersOf\<close> and
  \<open>SameCluster\<close> read the cache or, above a confidence threshold, replay the strong
  evidence on demand. The iteration order of the Go maps in a replay is an argument of
  each operation that replays.
\<close>

section \<open>Rebuilding the cache\<close>

text \<open>
  \<open>Replay\<close> as a step of a computation. Its \<open>None\<close> stands for a run that does not
  return; \<open>replay_partition\<close> excludes it.
\<close>

definition replay_step :: "range_order \<Rightarrow> MergeEvidence list \<Rightarrow> Result list sql" where
  "replay_step ro evidence =
     (case Replay ro evidence of None \<Rightarrow> throw (ErrMsg ''replay does not return'') | Some rs \<Rightarrow> ret rs)"

definition clear_membership :: "string \<Rightarrow> unit sql" where
  "clear_membership chainID = stmt (\<lambda>s.
     (Inr (), s\<lparr>tblMembership := filter (\<lambda>m. cmChainID m \<noteq> chainID) (tblMembership s)\<rparr>))"

definition clear_clusters :: "string \<Rightarrow> unit sql" where
  "clear_clusters chainID = stmt (\<lambda>s.
     (Inr (), s\<lparr>tblCluster := filter (\<lambda>c. clChainID c \<noteq> chainID) (tblCluster s)\<rparr>))"

definition insert_cluster :: "string \<Rightarrow> int \<Rightarrow> Result \<Rightarrow> unit sql" where
  "insert_cluster chainID now r = stmt (\<lambda>s.
     if chainID \<notin> set (partitions s) then (Inl ''no partition of relation cluster'', s)
     else case numericOf (drv s) (rRepresentativeConfidence r) of
         None \<Rightarrow> (Inl ''numeric field overflow'', s)
       | Some q \<Rightarrow>
           if \<exists>c \<in> set (tblCluster s). clChainID c = chainID \<and> clClusterID c = rClusterID r
           then (Inl ''duplicate key value violates unique constraint'', s)
           else (Inr (), s\<lparr>tblCluster := tblCluster s @
                  [\<lparr>clChainID = chainID, clClusterID = rClusterID r, clSize = rSize r, clEntityType = ''unknown'',
                    clRepresentativeConfidence = q, clUpdatedAt = now\<rparr>]\<rparr>))"

definition copy_rows :: "string \<Rightarrow> Result list \<Rightarrow> (string \<times> string \<times> float64) list" where
  "copy_rows chainID results =
     concat (map (\<lambda>r. map (\<lambda>m. (mAddress m, rClusterID r, mConfidence m)) (rMembers r)) results)"

text \<open>\<open>COPY\<close> inserts all rows or fails as a whole.\<close>

fun insert_rows :: "string \<Rightarrow> (string \<times> string \<times> float64) list \<Rightarrow> db \<Rightarrow> string + ClusterMembership list" where
  "insert_rows chainID [] s = Inr []"
| "insert_rows chainID ((a, cid, c) # rows) s =
     (if chainID \<notin> set (partitions s) then Inl ''no partition of relation cluster_membership''
      else if (\<exists>m \<in> set (tblMembership s). cmChainID m = chainID \<and> cmAddress m = a) \<or> a \<in> fst ` set rows
      then Inl ''duplicate key value violates unique constraint''
      else case numericOf (drv s) c of
          None \<Rightarrow> Inl ''numeric field overflow''
        | Some q \<Rightarrow>
            (case insert_rows chainID rows s of
               Inl e \<Rightarrow> Inl e
             | Inr ms \<Rightarrow> Inr (\<lparr>cmChainID = chainID, cmAddress = a, cmClusterID = cid, cmMembershipConfidence = q\<rparr> # ms)))"

definition copy_membership :: "string \<Rightarrow> (string \<times> string \<times> float64) list \<Rightarrow> unit sql" where
  "copy_membership chainID rows = stmt (\<lambda>s.
     case insert_rows chainID rows s of
       Inl e \<Rightarrow> (Inl e, s)
     | Inr ms \<Rightarrow> (Inr (), s\<lparr>tblMembership := tblMembership s @ ms\<rparr>))"

definition rebuild_body :: "string \<Rightarrow> int \<Rightarrow> Result list \<Rightarrow> unit sql" where
  "rebuild_body chainID now results =
     bnd (wrap ''cluster: rebuild: clear membership'' (clear_membership chainID)) (\<lambda>_.
     bnd (wrap ''cluster: rebuild: clear clusters'' (clear_clusters chainID)) (\<lambda>_.
     bnd (forE (\<lambda>r. wrap (''cluster: rebuild: insert cluster '' @ rClusterID r) (insert_cluster chainID now r)) results) (\<lambda>_.
     let rows = copy_rows chainID results in
     if 0 < length rows then wrap ''cluster: rebuild: copy membership'' (copy_membership chainID rows)
     else ret ())))"

definition RebuildFromEvidence :: "range_order \<Rightarrow> string \<Rightarrow> unit sql" where
  "RebuildFromEvidence ro chainID =
     bnd (wrap ''cluster: rebuild: scan evidence'' (ScanActive chainID)) (\<lambda>active.
     bnd (replay_step ro active) (\<lambda>results s.
       transaction ''cluster: rebuild: begin tx'' ''cluster: rebuild: commit''
         (rebuild_body chainID (clock s) results) s))"


section \<open>Reading clusters\<close>

definition thresholdEpsilon :: float64 where
  "thresholdEpsilon = round64 (1 / 10 ^ 9)"

definition thresholdView :: "range_order \<Rightarrow> string \<Rightarrow> float64 \<Rightarrow> Result list sql" where
  "thresholdView ro chainID minConfidence =
     bnd (wrap ''cluster: threshold_view: scan evidence'' (ScanActive chainID)) (\<lambda>active.
       replay_step ro (filter (\<lambda>e. minConfidence \<le> meConfidence e) active))"

definition clusterOfMaterialized :: "string \<Rightarrow> string \<Rightarrow> (string \<times> float64) option sql" where
  "clusterOfMaterialized chainID address = wrap ''cluster: cluster_of'' (query (\<lambda>s.
     map_option (\<lambda>m. (cmClusterID m, floatOf (drv s) (cmMembershipConfidence m)))
       (List.find (\<lambda>m. cmChainID m = chainID \<and> cmAddress m = address) (tblMembership s))))"

fun find_member :: "string \<Rightarrow> Result list \<Rightarrow> (string \<times> float64) option" where
  "find_member address [] = None"
| "find_member address (r # rs) =
     (case List.find (\<lambda>m. mAddress m = address) (rMembers r) of
        Some m \<Rightarrow> Some (rClusterID r, mConfidence m)
      | None \<Rightarrow> find_member address rs)"

definition ClusterOf :: "range_order \<Rightarrow> string \<Rightarrow> string \<Rightarrow> float64 \<Rightarrow> (string \<times> float64) option sql" where
  "ClusterOf ro chainID address minConfidence =
     (if minConfidence \<le> thresholdEpsilon then clusterOfMaterialized chainID address
      else bnd (thresholdView ro chainID minConfidence) (\<lambda>results. ret (find_member address results)))"

text \<open>\<open>LIMIT\<close> and \<open>OFFSET\<close> reject negative arguments.\<close>

definition membersOfMaterialized :: "string \<Rightarrow> string \<Rightarrow> int \<Rightarrow> int \<Rightarrow> string list sql" where
  "membersOfMaterialized chainID clusterID limit offset = wrap ''cluster: members_of'' (stmt (\<lambda>s.
     if limit < 0 then (Inl ''LIMIT must not be negative'', s)
     else if offset < 0 then (Inl ''OFFSET must not be negative'', s)
     else (Inr (take (nat limit) (drop (nat offset) (collateStrings (drv s)
            (map cmAddress (filter (\<lambda>m. cmChainID m = chainID \<and> cmClusterID m = clusterID) (tblMembership s)))))), s)))"

text \<open>
  The slice expression \<open>addrs[offset:end]\<close> panics on a negative offset or an end below
  the offset; \<open>offset + limit\<close> is 64-bit.
\<close>

definition int64 :: "int \<Rightarrow> int" where
  "int64 n = (n + 2 ^ 63) mod 2 ^ 64 - 2 ^ 63"

definition page :: "string list \<Rightarrow> int \<Rightarrow> int \<Rightarrow> string list sql" where
  "page addrs limit offset =
     (if int (length addrs) \<le> offset then ret []
      else
        let e = int64 (offset + limit);
            e' = (if limit \<le> 0 \<or> int (length addrs) < e then int (length addrs) else e)
        in if offset < 0 \<or> e' < offset then throw (ErrMsg ''panic: slice bounds out of range'')
           else ret (take (nat (e' - offset)) (drop (nat offset) addrs)))"

definition MembersOf :: "range_order \<Rightarrow> string \<Rightarrow> string \<Rightarrow> float64 \<Rightarrow> int \<Rightarrow> int \<Rightarrow> string list sql" where
  "MembersOf ro chainID clusterID minConfidence limit offset =
     (if minConfidence \<le> thresholdEpsilon then membersOfMaterialized chainID clusterID limit offset
      else bnd (thresholdView ro chainID minConfidence) (\<lambda>results.
        let addrs = (case List.find (\<lambda>r. rClusterID r = clusterID) results of
                       None \<Rightarrow> [] | Some r \<Rightarrow> map mAddress (rMembers r))
        in page (sort addrs) limit offset))"

definition SameCluster :: "range_order \<Rightarrow> range_order \<Rightarrow> string \<Rightarrow> string \<Rightarrow> string \<Rightarrow> float64 \<Rightarrow> (bool \<times> float64) sql" where
  "SameCluster ro ro' chainID a b minConfidence =
     bnd (ClusterOf ro chainID a minConfidence) (\<lambda>ra. case ra of
       None \<Rightarrow> ret (False, 0)
     | Some (clusterA, confA) \<Rightarrow>
         bnd (ClusterOf ro' chainID b minConfidence) (\<lambda>rb. case rb of
           None \<Rightarrow> ret (False, 0)
         | Some (clusterB, confB) \<Rightarrow>
             if clusterA \<noteq> clusterB then ret (False, 0)
             else if confA < confB then ret (True, confA)
             else ret (True, confB)))"


section \<open>What a successful rebuild writes\<close>

definition outside_cache :: "db \<Rightarrow> db" where
  "outside_cache s = s\<lparr>schedule := [], tblCluster := [], tblMembership := []\<rparr>"

lemma stable_outside_cache: "stable (\<lambda>s. outside_cache s = k)"
  by (simp add: stable_def outside_cache_def)

lemma outside_cache_fields:
  assumes "outside_cache s' = outside_cache s"
  shows "drv s' = drv s" "clock s' = clock s" "partitions s' = partitions s" "tblEvidence s' = tblEvidence s"
    "mergeOpSeq s' = mergeOpSeq s" "tblAddress s' = tblAddress s" "tblDelta s' = tblDelta s" "seqs s' = seqs s"
proof -
  have "f s' = f s" if "\<And>s. f (outside_cache s) = f s" for f :: "db \<Rightarrow> 'x" using that assms by metis
  from this [of drv] this [of clock] this [of partitions] this [of tblEvidence] this [of mergeOpSeq]
    this [of tblAddress] this [of tblDelta] this [of seqs]
  show "drv s' = drv s" "clock s' = clock s" "partitions s' = partitions s" "tblEvidence s' = tblEvidence s"
    "mergeOpSeq s' = mergeOpSeq s" "tblAddress s' = tblAddress s" "tblDelta s' = tblDelta s" "seqs s' = seqs s"
    by (simp_all add: outside_cache_def seqs_def)
qed

text \<open>The rows that the results of a replay become.\<close>

definition membership_rows :: "driver \<Rightarrow> string \<Rightarrow> Result list \<Rightarrow> ClusterMembership list" where
  "membership_rows d chainID rs =
     map (\<lambda>(a, cid, c). \<lparr>cmChainID = chainID, cmAddress = a, cmClusterID = cid,
        cmMembershipConfidence = the (numericOf d c)\<rparr>) (copy_rows chainID rs)"

definition cluster_rows :: "driver \<Rightarrow> string \<Rightarrow> int \<Rightarrow> Result list \<Rightarrow> Cluster list" where
  "cluster_rows d chainID now rs =
     map (\<lambda>r. \<lparr>clChainID = chainID, clClusterID = rClusterID r, clSize = rSize r, clEntityType = ''unknown'',
        clRepresentativeConfidence = the (numericOf d (rRepresentativeConfidence r)), clUpdatedAt = now\<rparr>) rs"

definition cluster_ids :: "string \<Rightarrow> Cluster list \<Rightarrow> string list" where
  "cluster_ids c tbl = map clClusterID (filter (\<lambda>cl. clChainID cl = c) tbl)"

lemma in_cluster_ids: "(\<exists>cl \<in> set tbl. clChainID cl = c \<and> clClusterID cl = i) \<longleftrightarrow> i \<in> set (cluster_ids c tbl)"
  by (force simp: cluster_ids_def)

lemma insert_cluster_Inr:
  "insert_cluster c now r s = (Inr x, s') \<longleftrightarrow>
     next_outcome s = Done \<and> c \<in> set (partitions s) \<and> numericOf (drv s) (rRepresentativeConfidence r) \<noteq> None \<and>
     rClusterID r \<notin> set (cluster_ids c (tblCluster s)) \<and>
     s' = (advance s)\<lparr>tblCluster := tblCluster s @ cluster_rows (drv s) c now [r]\<rparr>"
  by (auto simp: insert_cluster_def stmt_Inr cluster_rows_def in_cluster_ids split: if_splits option.splits)

lemma insert_clusters_Inr:
  assumes "forE (\<lambda>r. wrap (m r) (insert_cluster c now r)) rs s = (Inr x, s')"
  shows "tblCluster s' = tblCluster s @ cluster_rows (drv s) c now rs \<and> tblMembership s' = tblMembership s \<and>
    outside_cache s' = outside_cache s \<and> distinct (map rClusterID rs) \<and>
    set (map rClusterID rs) \<inter> set (cluster_ids c (tblCluster s)) = {} \<and>
    (\<forall>r \<in> set rs. numericOf (drv s) (rRepresentativeConfidence r) \<noteq> None)"
  using assms
proof (induction rs arbitrary: s)
  case Nil
  then show ?case by (simp add: cluster_rows_def)
next
  case (Cons r rs)
  then obtain s1 where 1: "insert_cluster c now r s = (Inr (), s1)"
    and 2: "forE (\<lambda>r. wrap (m r) (insert_cluster c now r)) rs s1 = (Inr x, s')"
    by (auto simp: bnd_Inr)
  have s1: "s1 = (advance s)\<lparr>tblCluster := tblCluster s @ cluster_rows (drv s) c now [r]\<rparr>"
    and n: "rClusterID r \<notin> set (cluster_ids c (tblCluster s))"
    and q: "numericOf (drv s) (rRepresentativeConfidence r) \<noteq> None"
    using 1 by (simp_all add: insert_cluster_Inr)
  have o: "outside_cache s1 = outside_cache s" by (simp add: s1 outside_cache_def advance_def)
  have "set (cluster_ids c (tblCluster s1)) =
      insert (rClusterID r) (set (cluster_ids c (tblCluster s)))"
    by (auto simp: s1 cluster_rows_def cluster_ids_def)
  with Cons.IH [OF 2] n q o show ?case by (auto simp: s1 cluster_rows_def)
qed

lemma insert_rows_Inr:
  "insert_rows c rows s = Inr ms \<Longrightarrow>
     ms = map (\<lambda>(a, cid, k). \<lparr>cmChainID = c, cmAddress = a, cmClusterID = cid,
        cmMembershipConfidence = the (numericOf (drv s) k)\<rparr>) rows \<and>
     (\<forall>(a, cid, k) \<in> set rows. numericOf (drv s) k \<noteq> None) \<and> distinct (map fst rows)"
proof (induction rows arbitrary: ms)
  case (Cons row rows)
  obtain a cid k where "row = (a, cid, k)" by (cases row)
  with Cons show ?case by (auto split: if_splits option.splits sum.splits)
qed simp

text \<open>The tables after the transaction body.\<close>

definition cache_is :: "string \<Rightarrow> int \<Rightarrow> Result list \<Rightarrow> db \<Rightarrow> db \<Rightarrow> bool" where
  "cache_is c now rs s s' \<longleftrightarrow>
     tblMembership s' = filter (\<lambda>m. cmChainID m \<noteq> c) (tblMembership s) @ membership_rows (drv s) c rs \<and>
     tblCluster s' = filter (\<lambda>cl. clChainID cl \<noteq> c) (tblCluster s) @ cluster_rows (drv s) c now rs \<and>
     distinct (map rClusterID rs) \<and>
     (\<forall>(a, cid, k) \<in> set (copy_rows c rs). numericOf (drv s) k \<noteq> None)"

lemma rebuild_body_Inr:
  assumes "rebuild_body c now rs s = (Inr x, s')"
  shows "cache_is c now rs s s' \<and> outside_cache s' = outside_cache s"
proof -
  let ?ins = "forE (\<lambda>r. wrap (''cluster: rebuild: insert cluster '' @ rClusterID r) (insert_cluster c now r)) rs"
  obtain s1 s2 s3 where 1: "clear_membership c s = (Inr (), s1)" and 2: "clear_clusters c s1 = (Inr (), s2)"
    and 3: "?ins s2 = (Inr (), s3)"
    and 4: "(if 0 < length (copy_rows c rs) then wrap ''cluster: rebuild: copy membership'' (copy_membership c (copy_rows c rs))
       else ret ()) s3 = (Inr x, s')"
    using assms by (auto simp: rebuild_body_def Let_def bnd_Inr)
  have s2: "tblMembership s2 = filter (\<lambda>m. cmChainID m \<noteq> c) (tblMembership s)"
    "tblCluster s2 = filter (\<lambda>cl. clChainID cl \<noteq> c) (tblCluster s)" "outside_cache s2 = outside_cache s"
    using 1 2 by (auto simp: clear_membership_def clear_clusters_def stmt_Inr outside_cache_def advance_def)
  note s3 = insert_clusters_Inr [OF 3]
  have d: "drv s3 = drv s" "drv s2 = drv s" using s2(3) s3 outside_cache_fields(1) by metis+
  have "tblMembership s' = tblMembership s3 @ membership_rows (drv s3) c rs \<and> tblCluster s' = tblCluster s3 \<and>
      outside_cache s' = outside_cache s3 \<and> (\<forall>(a, cid, k) \<in> set (copy_rows c rs). numericOf (drv s3) k \<noteq> None)"
  proof (cases "copy_rows c rs = []")
    case True
    with 4 show ?thesis by (simp add: membership_rows_def)
  next
    case False
    with 4 obtain ms where "insert_rows c (copy_rows c rs) (advance s3) = Inr ms"
      and "s' = (advance s3)\<lparr>tblMembership := tblMembership s3 @ ms\<rparr>"
      by (auto simp: copy_membership_def stmt_Inr split: sum.splits)
    with insert_rows_Inr [OF this(1)] show ?thesis
      by (simp add: membership_rows_def outside_cache_def advance_def)
  qed
  with s2 s3 d show ?thesis by (simp add: cache_is_def)
qed

lemma no_draw_rebuild_body: "no_draw (rebuild_body c now rs)"
  unfolding no_draw_def rebuild_body_def clear_membership_def clear_clusters_def insert_cluster_def
    copy_membership_def Let_def
  by (intro allI keep_rules keeps_stmt)
    (auto simp: stable_def seqs_def split: if_splits option.splits sum.splits)


section \<open>The rebuild is atomic and materialises the replay\<close>

lemma RebuildFromEvidence_unfold:
  "RebuildFromEvidence ro c s =
     (case wrap ''cluster: rebuild: scan evidence'' (ScanActive c) s of
        (Inl e, s1) \<Rightarrow> (Inl e, s1)
      | (Inr active, s1) \<Rightarrow>
          (case Replay ro active of
             None \<Rightarrow> (Inl (ErrMsg ''replay does not return''), s1)
           | Some rs \<Rightarrow> transaction ''cluster: rebuild: begin tx'' ''cluster: rebuild: commit''
               (rebuild_body c (clock s1) rs) s1))"
  by (auto simp: RebuildFromEvidence_def replay_step_def bnd_def throw_def ret_def split: prod.splits sum.splits option.splits)

lemma ScanActive_result:
  obtains (failed) e where "wrap m (ScanActive c) s = (Inl e, advance s)"
  | (scanned) "wrap m (ScanActive c) s = (Inr (active_rows s c), advance s)"
proof (cases "next_outcome s")
  case Done
  then have "ScanActive c s = (Inr (active_rows s c), advance s)" by (simp add: ScanActive_Inr)
  then show ?thesis using scanned by (simp add: wrap_def)
qed (use failed in \<open>auto simp: ScanActive_def wrap_def query_def stmt_def\<close>)

text \<open>Whatever happens, the cache is the old one or the complete new one.\<close>

lemma rebuild_old_or_new:
  assumes "RebuildFromEvidence ro c s = (r, s')"
  shows "outside_cache s' = outside_cache s \<and>
    (tblCluster s' = tblCluster s \<and> tblMembership s' = tblMembership s \<and> (\<exists>e. r = Inl e) \<or>
     (\<exists>rs. Replay ro (active_rows s c) = Some rs \<and> cache_is c (clock s) rs s s'))"
proof (cases rule: ScanActive_result [of "''cluster: rebuild: scan evidence''" c s])
  case (failed e)
  then show ?thesis using assms by (auto simp: RebuildFromEvidence_unfold outside_cache_def advance_def)
next
  case scanned
  show ?thesis
  proof (cases "Replay ro (active_rows s c)")
    case None
    then show ?thesis using assms unfolding RebuildFromEvidence_unfold scanned
      by (auto simp: outside_cache_def advance_def)
  next
    case (Some rs)
    let ?body = "rebuild_body c (clock s) rs"
    have T: "transaction ''cluster: rebuild: begin tx'' ''cluster: rebuild: commit'' ?body (advance s) = (r, s')"
      using assms Some unfolding RebuildFromEvidence_unfold scanned by simp
    have adv: "outside_cache (advance t) = outside_cache t" for t by (simp add: outside_cache_def advance_def)
    have rb: "rollback u s2 = u\<lparr>schedule := schedule s2\<rparr>" if "?body u = (x, s2)" for x u s2
      using no_draw_rebuild_body that by (rule rollback_no_draw)
    show ?thesis
    proof (cases rule: transaction_cases [of "''cluster: rebuild: begin tx''" "''cluster: rebuild: commit''" ?body "advance s"])
      case (begin_failed e)
      then show ?thesis using T by (simp add: adv)
    next
      case (rolled_back e x s2)
      have "rollback u (advance s2) = (rollback u s2)\<lparr>schedule := tl (schedule s2)\<rparr>" for u
        by (simp add: rollback_def advance_def)
      then show ?thesis using rolled_back T rb [OF rolled_back(1)] adv
        by (auto simp: outside_cache_def advance_def)
    next
      case (committed x s2)
      from rebuild_body_Inr [OF committed(1)] committed(2) T Some show ?thesis
        by (auto simp: adv cache_is_def)
    qed
  qed
qed

lemma RebuildFromEvidence_Inr:
  assumes "RebuildFromEvidence ro c s = (Inr x, s')"
  obtains rs where "Replay ro (active_rows s c) = Some rs" and "cache_is c (clock s) rs s s'"
    and "outside_cache s' = outside_cache s"
  using rebuild_old_or_new [OF assms] by auto

lemma keeps_Rebuild_outside [keep_rules]: "keeps (\<lambda>s. outside_cache s = k) (RebuildFromEvidence ro c)"
proof (rule keepsI)
  fix s assume "outside_cache s = k"
  then show "outside_cache (snd (RebuildFromEvidence ro c s)) = k"
    using rebuild_old_or_new [of ro c s] by (metis prod.collapse)
qed

lemma keeps_Rebuild_log [keep_rules]:
  "keeps log_inv (RebuildFromEvidence ro c)" "keeps (\<lambda>s. evolves l (tblEvidence s)) (RebuildFromEvidence ro c)"
proof -
  have "outside_cache (snd (RebuildFromEvidence ro c s)) = outside_cache s" for s
    using rebuild_old_or_new [of ro c s] by (metis prod.collapse)
  note f = outside_cache_fields [OF this]
  show "keeps log_inv (RebuildFromEvidence ro c)" by (simp add: keeps_def log_inv_def f)
  show "keeps (\<lambda>s. evolves l (tblEvidence s)) (RebuildFromEvidence ro c)" by (simp add: keeps_def f)
qed


section \<open>The materialised view answers connectivity\<close>

definition cached_cluster :: "db \<Rightarrow> string \<Rightarrow> string \<Rightarrow> string option" where
  "cached_cluster s c a =
     map_option cmClusterID (List.find (\<lambda>m. cmChainID m = c \<and> cmAddress m = a) (tblMembership s))"

definition same_cached :: "db \<Rightarrow> string \<Rightarrow> string \<Rightarrow> string \<Rightarrow> bool" where
  "same_cached s c a b \<longleftrightarrow> cached_cluster s c a \<noteq> None \<and> cached_cluster s c a = cached_cluster s c b"

lemma find_append: "List.find P (xs @ ys) = (case List.find P xs of None \<Rightarrow> List.find P ys | Some x \<Rightarrow> Some x)"
  by (induction xs) auto

lemma find_filter_none: "(\<And>x. P x \<Longrightarrow> \<not> Q x) \<Longrightarrow> List.find P (filter Q xs) = None"
  by (auto simp: find_None_iff)

lemma find_copy_rows:
  assumes "distinct (concat (map member_addresses rs))" and "r \<in> set rs" and "a \<in> set (member_addresses r)"
  shows "\<exists>m. List.find (\<lambda>m. cmChainID m = c \<and> cmAddress m = a) (membership_rows d c rs) = Some m \<and> cmClusterID m = rClusterID r"
  using assms
proof (induction rs)
  case (Cons r0 rs)
  have rows: "membership_rows d c (r0 # rs) = membership_rows d c [r0] @ membership_rows d c rs"
    by (simp add: membership_rows_def copy_rows_def)
  show ?case
  proof (cases "a \<in> set (member_addresses r0)")
    case True
    then have "r = r0" using Cons.prems by auto
    moreover obtain m where "List.find (\<lambda>m. cmChainID m = c \<and> cmAddress m = a) (membership_rows d c [r0]) = Some m"
      using True by (cases "List.find (\<lambda>m. cmChainID m = c \<and> cmAddress m = a) (membership_rows d c [r0])")
        (auto simp: find_None_iff membership_rows_def copy_rows_def member_addresses_def)
    moreover from this have "m \<in> set (membership_rows d c [r0])" by (auto simp: find_Some_iff)
    ultimately show ?thesis by (auto simp: rows find_append membership_rows_def copy_rows_def)
  next
    case False
    then have "List.find (\<lambda>m. cmChainID m = c \<and> cmAddress m = a) (membership_rows d c [r0]) = None"
      by (auto simp: find_None_iff membership_rows_def copy_rows_def member_addresses_def)
    with Cons False show ?thesis by (auto simp: rows find_append)
  qed
qed simp

lemma find_copy_rows_None:
  "a \<notin> set (concat (map member_addresses rs)) \<Longrightarrow>
     List.find (\<lambda>m. cmChainID m = c \<and> cmAddress m = a) (membership_rows d c rs) = None"
  by (auto simp: find_None_iff membership_rows_def copy_rows_def member_addresses_def)

lemma cached_cluster_rows:
  assumes "cache_is c now rs s s'"
  shows "cached_cluster s' c a =
    map_option cmClusterID (List.find (\<lambda>m. cmChainID m = c \<and> cmAddress m = a) (membership_rows (drv s) c rs))"
proof -
  have "List.find (\<lambda>m. cmChainID m = c \<and> cmAddress m = a) (filter (\<lambda>m. cmChainID m \<noteq> c) (tblMembership s)) = None"
    by (rule find_filter_none) simp
  with assms show ?thesis by (simp add: cached_cluster_def cache_is_def find_append)
qed

lemma cache_answers_connectivity:
  assumes "any_order ro" and R: "Replay ro (active_rows s c) = Some rs" and C: "cache_is c now rs s s'"
  shows "cached_cluster s' c a \<noteq> None \<longleftrightarrow> a \<in> Field (evidence_edges (active_rows s c))"
    and "same_cached s' c a b \<longleftrightarrow>
      a \<in> Field (evidence_edges (active_rows s c)) \<and> b \<in> Field (evidence_edges (active_rows s c)) \<and>
      (a, b) \<in> conn (evidence_edges (active_rows s c))"
proof -
  let ?F = "Field (evidence_edges (active_rows s c))" and ?E = "conn (evidence_edges (active_rows s c))"
  have D: "distinct (concat (map member_addresses rs))" and S: "set (concat (map member_addresses rs)) = ?F"
    and P: "\<And>r x y. r \<in> set rs \<Longrightarrow> x \<in> set (member_addresses r) \<Longrightarrow>
      y \<in> set (member_addresses r) \<longleftrightarrow> y \<in> ?F \<and> (x, y) \<in> ?E"
    using Replay_components [OF assms(1), of "active_rows s c"] R by auto
  have some: "cached_cluster s' c x = Some (rClusterID r)" if "r \<in> set rs" "x \<in> set (member_addresses r)" for r x
    using find_copy_rows [OF D that] by (auto simp: cached_cluster_rows [OF C])
  have none: "cached_cluster s' c x = None" if "x \<notin> ?F" for x
    unfolding cached_cluster_rows [OF C]
    using find_copy_rows_None [of x rs] that S by (simp only: option.map simp_thms)
  have ex: "\<exists>r \<in> set rs. x \<in> set (member_addresses r)" if "x \<in> ?F" for x using that S by auto
  show 1: "cached_cluster s' c a \<noteq> None \<longleftrightarrow> a \<in> ?F" for a
    using some none ex by (metis option.distinct(1))
  have ids: "rClusterID r = rClusterID r' \<longleftrightarrow> r = r'" if "r \<in> set rs" "r' \<in> set rs" for r r'
    using C that by (auto simp: cache_is_def distinct_map inj_on_def)
  show "same_cached s' c a b \<longleftrightarrow> a \<in> ?F \<and> b \<in> ?F \<and> (a, b) \<in> ?E"
  proof (cases "a \<in> ?F \<and> b \<in> ?F")
    case True
    then obtain ra rb where r: "ra \<in> set rs" "a \<in> set (member_addresses ra)" "rb \<in> set rs" "b \<in> set (member_addresses rb)"
      using ex by meson
    then have "same_cached s' c a b \<longleftrightarrow> ra = rb" by (simp add: same_cached_def some ids)
    also have "\<dots> \<longleftrightarrow> b \<in> set (member_addresses ra)"
      using r some [OF r(1)] some [OF r(3,4)] ids by (metis option.inject)
    finally show ?thesis using P [OF r(1,2)] True by simp
  next
    case False
    then show ?thesis using 1 by (metis same_cached_def)
  qed
qed


text \<open>The cache agrees with the log: it answers connectivity of the active evidence.\<close>

definition cache_fresh :: "db \<Rightarrow> string \<Rightarrow> bool" where
  "cache_fresh s c \<longleftrightarrow> (\<forall>a b. same_cached s c a b \<longleftrightarrow>
     a \<in> Field (evidence_edges (active_rows s c)) \<and> b \<in> Field (evidence_edges (active_rows s c)) \<and>
     (a, b) \<in> conn (evidence_edges (active_rows s c)))"

definition other_rows :: "string \<Rightarrow> db \<Rightarrow> Cluster list \<times> ClusterMembership list" where
  "other_rows c s = (filter (\<lambda>cl. clChainID cl \<noteq> c) (tblCluster s), filter (\<lambda>m. cmChainID m \<noteq> c) (tblMembership s))"

lemma active_rows_cong:
  assumes "outside_cache s' = outside_cache s"
  shows "active_rows s' c = active_rows s c"
  by (simp add: active_rows_def collect_def scan_row_def outside_cache_fields(1,4) [OF assms])

lemma active_rows_advance [simp]: "active_rows (advance s) c = active_rows s c"
  by (simp add: active_rows_def collect_def scan_row_def)

lemma cache_is_fresh:
  assumes "any_order ro" and "Replay ro (active_rows s c) = Some rs" and "cache_is c now rs s s'"
    and "outside_cache s' = outside_cache s"
  shows "cache_fresh s' c"
  unfolding cache_fresh_def active_rows_cong [OF assms(4)] using cache_answers_connectivity [OF assms(1-3)] by blast

lemma cache_is_other_rows: "cache_is c now rs s s' \<Longrightarrow> other_rows c s' = other_rows c s"
  by (auto simp: cache_is_def other_rows_def membership_rows_def cluster_rows_def filter_empty_conv)


section \<open>Threshold views\<close>

definition strong :: "db \<Rightarrow> string \<Rightarrow> float64 \<Rightarrow> MergeEvidence list" where
  "strong s c minc = filter (\<lambda>e. minc \<le> meConfidence e) (active_rows s c)"

lemma strong_advance [simp]: "strong (advance s) c minc = strong s c minc"
  by (simp add: strong_def)

lemma thresholdView_Inr:
  "thresholdView ro c minc s = (Inr rs, s') \<longleftrightarrow>
     next_outcome s = Done \<and> Replay ro (strong s c minc) = Some rs \<and> s' = advance s"
  by (auto simp: thresholdView_def bnd_Inr ScanActive_Inr replay_step_def strong_def split: option.splits)

lemma find_member_SomeD:
  "find_member a rs = Some (i, k) \<Longrightarrow>
     \<exists>r \<in> set rs. \<exists>m \<in> set (rMembers r). mAddress m = a \<and> i = rClusterID r \<and> k = mConfidence m"
  by (induction rs) (auto simp: find_Some_iff split: option.splits)

lemma find_member_None: "find_member a rs = None \<longleftrightarrow> a \<notin> set (concat (map member_addresses rs))"
  by (induction rs) (auto simp: find_None_iff find_Some_iff member_addresses_def split: option.splits)

lemma find_member_replay:
  assumes "any_order ro" and "Replay ro ev = Some rs"
  shows "find_member a rs = None \<longleftrightarrow> a \<notin> Field (evidence_edges ev)"
    and "find_member a rs = Some (i, k) \<Longrightarrow>
      \<exists>f. founder ev f \<and> i = deriveClusterID f \<and> (f, a) \<in> conn (evidence_edges ev)"
proof -
  obtain adj where ok: "\<forall>r \<in> set rs. result_ok ev adj r"
    and S: "set (concat (map member_addresses rs)) = set (evidence_addresses ev)"
    using Replay_spec [OF assms(1), of ev] assms(2) by (metis option.inject)
  show "find_member a rs = None \<longleftrightarrow> a \<notin> Field (evidence_edges ev)"
    by (simp only: find_member_None S set_evidence_addresses)
  assume "find_member a rs = Some (i, k)"
  then obtain r where r: "r \<in> set rs" "a \<in> set (member_addresses r)" "i = rClusterID r"
    by (auto dest!: find_member_SomeD simp: member_addresses_def)
  with ok have "result_ok ev adj r" by blast
  moreover from this r have "(rAnchorAddress r, a) \<in> conn (evidence_edges ev)"
    by (auto simp: result_ok_def component_def)
  ultimately show "\<exists>f. founder ev f \<and> i = deriveClusterID f \<and> (f, a) \<in> conn (evidence_edges ev)"
    using r result_founder by (intro exI [of _ "rAnchorAddress r"]) (auto simp: result_ok_def)
qed

lemma SameCluster_strong:
  assumes "any_order ro" and "any_order ro'" and "thresholdEpsilon < minc"
    and "inj_on deriveClusterID (Collect (founder (strong s c minc)))"
    and "SameCluster ro ro' c a b minc s = (Inr (same, k), s')"
  shows "same \<longleftrightarrow> a \<in> Field (evidence_edges (strong s c minc)) \<and> b \<in> Field (evidence_edges (strong s c minc)) \<and>
    (a, b) \<in> conn (evidence_edges (strong s c minc))"
proof -
  let ?ev = "strong s c minc"
  have cof: "ClusterOf q c x minc = bnd (thresholdView q c minc) (\<lambda>results. ret (find_member x results))" for q x
    using assms(3) by (simp add: ClusterOf_def)
  obtain rs where R: "Replay ro ?ev = Some rs" and SC: "(case find_member a rs of
       None \<Rightarrow> ret (False, 0)
     | Some (clusterA, confA) \<Rightarrow>
         bnd (ClusterOf ro' c b minc) (\<lambda>rb. case rb of
           None \<Rightarrow> ret (False, 0)
         | Some (clusterB, confB) \<Rightarrow>
             if clusterA \<noteq> clusterB then ret (False, 0)
             else if confA < confB then ret (True, confA)
             else ret (True, confB))) (advance s) = (Inr (same, k), s')"
    using assms(5) unfolding SameCluster_def cof [of ro] by (auto simp: bnd_Inr thresholdView_Inr)
  note A = find_member_replay [OF assms(1) R, of a]
  show ?thesis
  proof (cases "find_member a rs")
    case None
    then show ?thesis using SC A(1) by auto
  next
    case (Some ia)
    then obtain i ka where ia: "find_member a rs = Some (i, ka)" by (cases ia) auto
    then obtain rs' where R': "Replay ro' ?ev = Some rs'" and SC': "(case find_member b rs' of
           None \<Rightarrow> ret (False, 0)
         | Some (clusterB, confB) \<Rightarrow>
             if i \<noteq> clusterB then ret (False, 0)
             else if ka < confB then ret (True, ka)
             else ret (True, confB)) (advance (advance s)) = (Inr (same, k), s')"
      using SC unfolding cof [of ro'] by (auto simp: bnd_Inr thresholdView_Inr)
    note B = find_member_replay [OF assms(2) R', of b]
    show ?thesis
    proof (cases "find_member b rs'")
      case None
      then show ?thesis using SC' B(1) by auto
    next
      case (Some ib)
      then obtain j kb where jb: "find_member b rs' = Some (j, kb)" by (cases ib) auto
      obtain fa where fa: "founder ?ev fa" "i = deriveClusterID fa" "(fa, a) \<in> conn (evidence_edges ?ev)"
        using A(2) [OF ia] by blast
      obtain fb where fb: "founder ?ev fb" "j = deriveClusterID fb" "(fb, b) \<in> conn (evidence_edges ?ev)"
        using B(2) [OF jb] by blast
      have "same \<longleftrightarrow> i = j" using SC' jb by (auto split: if_splits)
      also have "\<dots> \<longleftrightarrow> fa = fb" using fa fb assms(4) by (auto simp: inj_on_def)
      also have "\<dots> \<longleftrightarrow> (a, b) \<in> conn (evidence_edges ?ev)"
        using founder_unique [OF fa(1) fb(1)] fa(3) fb(3) by (meson conn_sym conn_trans)
      finally show ?thesis using A(1) B(1) ia jb by simp
    qed
  qed
qed


section \<open>Without faults the rebuild succeeds\<close>

lemma forE_insert_succeeds:
  assumes "schedule s = []" and "c \<in> set (partitions s)" and "distinct (map rClusterID rs)"
    and "set (map rClusterID rs) \<inter> set (cluster_ids c (tblCluster s)) = {}"
    and "\<forall>r \<in> set rs. numericOf (drv s) (rRepresentativeConfidence r) \<noteq> None"
  shows "\<exists>s'. forE (\<lambda>r. wrap (m r) (insert_cluster c now r)) rs s = (Inr (), s') \<and> schedule s' = []"
  using assms
proof (induction rs arbitrary: s)
  case Nil
  then show ?case by (simp add: ret_def)
next
  case (Cons r rs)
  let ?s1 = "s\<lparr>tblCluster := tblCluster s @ cluster_rows (drv s) c now [r]\<rparr>"
  have "insert_cluster c now r s = (Inr (), ?s1)"
    using Cons.prems by (simp add: insert_cluster_Inr)
  moreover have "\<exists>s'. forE (\<lambda>r. wrap (m r) (insert_cluster c now r)) rs ?s1 = (Inr (), s') \<and> schedule s' = []"
    using Cons.prems by (intro Cons.IH) (auto simp: cluster_ids_def cluster_rows_def)
  ultimately show ?case by (auto simp: bnd_Inr)
qed

lemma insert_rows_succeeds:
  assumes "c \<in> set (partitions s)" and "\<forall>m \<in> set (tblMembership s). cmChainID m \<noteq> c"
    and "distinct (map fst rows)" and "\<forall>(a, cid, k) \<in> set rows. numericOf (drv s) k \<noteq> None"
  shows "\<exists>ms. insert_rows c rows s = Inr ms"
  using assms(3,4)
proof (induction rows)
  case (Cons row rows)
  obtain a cid k where row: "row = (a, cid, k)" by (cases row)
  obtain ms where "insert_rows c rows s = Inr ms" using Cons by auto
  moreover have "a \<notin> fst ` set rows" using Cons.prems(1) row by simp
  moreover obtain q where "numericOf (drv s) k = Some q" using Cons.prems(2) row by auto
  ultimately show ?case using assms(1,2) by (auto simp: row)
qed simp

lemma rebuild_body_succeeds:
  assumes "schedule s = []" and "c \<in> set (partitions s)" and "distinct (map rClusterID rs)"
    and "distinct (concat (map member_addresses rs))"
    and "\<forall>r \<in> set rs. numericOf (drv s) (rRepresentativeConfidence r) \<noteq> None"
    and "\<forall>r \<in> set rs. \<forall>m \<in> set (rMembers r). numericOf (drv s) (mConfidence m) \<noteq> None"
  shows "\<exists>s'. rebuild_body c now rs s = (Inr (), s') \<and> schedule s' = []"
proof -
  let ?s2 = "s\<lparr>tblMembership := filter (\<lambda>m. cmChainID m \<noteq> c) (tblMembership s),
    tblCluster := filter (\<lambda>cl. clChainID cl \<noteq> c) (tblCluster s)\<rparr>"
  let ?ins = "forE (\<lambda>r. wrap (''cluster: rebuild: insert cluster '' @ rClusterID r) (insert_cluster c now r)) rs"
  have clear: "clear_membership c s = (Inr (), s\<lparr>tblMembership := filter (\<lambda>m. cmChainID m \<noteq> c) (tblMembership s)\<rparr>)"
    "clear_clusters c (s\<lparr>tblMembership := filter (\<lambda>m. cmChainID m \<noteq> c) (tblMembership s)\<rparr>) = (Inr (), ?s2)"
    using assms(1) by (simp_all add: clear_membership_def clear_clusters_def stmt_Inr)
  have "cluster_ids c (tblCluster ?s2) = []" by (simp add: cluster_ids_def filter_empty_conv)
  then have "\<exists>s3. ?ins ?s2 = (Inr (), s3) \<and> schedule s3 = []"
    using assms(1-3,5) by (intro forE_insert_succeeds) simp_all
  then obtain s3 where 3: "?ins ?s2 = (Inr (), s3)" "schedule s3 = []" by (elim exE conjE)
  note s3 = insert_clusters_Inr [OF 3(1)]
  have o: "drv s3 = drv s" "partitions s3 = partitions s"
    using s3 outside_cache_fields(1,3) [of s3 ?s2] by simp_all
  have "map fst (copy_rows c rs) = concat (map member_addresses rs)"
    by (simp add: copy_rows_def map_concat comp_def member_addresses_def [abs_def])
  then have "\<exists>ms. insert_rows c (copy_rows c rs) s3 = Inr ms"
    using assms(2,4,6) s3 o by (intro insert_rows_succeeds) (auto simp: copy_rows_def)
  then obtain ms where "copy_membership c (copy_rows c rs) s3 = (Inr (), s3\<lparr>tblMembership := tblMembership s3 @ ms\<rparr>)"
    using 3(2) by (auto simp: copy_membership_def stmt_Inr)
  then have "\<exists>s'. (if 0 < length (copy_rows c rs) then wrap ''cluster: rebuild: copy membership''
      (copy_membership c (copy_rows c rs)) else ret ()) s3 = (Inr (), s') \<and> schedule s' = []"
    using 3(2) by (simp add: ret_def)
  then show ?thesis unfolding rebuild_body_def Let_def using clear 3 by (simp add: bnd_Inr)
qed

lemma Replay_ids_distinct:
  assumes "any_order ro" and "Replay ro ev = Some rs" and "inj_on deriveClusterID (Collect (founder ev))"
  shows "distinct (map rClusterID rs)"
proof -
  obtain adj where ok: "\<forall>r \<in> set rs. result_ok ev adj r" and D: "distinct (concat (map member_addresses rs))"
    using Replay_spec [OF assms(1), of ev] assms(2) by (metis option.inject)
  have anchor: "rAnchorAddress r \<in> set (member_addresses r)" if "r \<in> set rs" for r
    using ok that by (auto simp: result_ok_def)
  have "distinct (map rAnchorAddress rs)"
    using D anchor
  proof (induction rs)
    case (Cons r rs)
    have "rAnchorAddress r \<noteq> rAnchorAddress r'" if "r' \<in> set rs" for r'
    proof
      assume eq: "rAnchorAddress r = rAnchorAddress r'"
      have "rAnchorAddress r \<in> set (member_addresses r)" "rAnchorAddress r' \<in> set (member_addresses r')"
        using that by (auto intro: Cons.prems(2))
      with eq that Cons.prems(1) show False by auto
    qed
    with Cons show ?case by auto
  qed simp
  moreover have "map rClusterID rs = map deriveClusterID (map rAnchorAddress rs)"
    using ok by (auto simp: result_ok_def)
  moreover have "inj_on deriveClusterID (set (map rAnchorAddress rs))"
    by (rule inj_on_subset [OF assms(3)]) (use ok result_founder in auto)
  ultimately show ?thesis by (simp only: distinct_map)
qed

lemma unit_conf_active: "log_inv s \<Longrightarrow> driver_ok (drv s) \<Longrightarrow> unit_conf (active_rows s c)"
  by (simp add: unit_conf_def active_rows_entry(3,4))

lemma rebuild_succeeds_lemma:
  assumes "schedule s = []" and "any_order ro" and "log_inv s" and d: "driver_ok (drv s)" and "c \<in> set (partitions s)"
    and "inj_on deriveClusterID (Collect (founder (active_rows s c)))"
    and "int (length (evidence_addresses (active_rows s c))) < 2 ^ 53"
  shows "\<exists>s'. RebuildFromEvidence ro c s = (Inr (), s')"
proof -
  let ?ev = "active_rows s c"
  obtain rs adj where R: "Replay ro ?ev = Some rs" and ok: "\<forall>r \<in> set rs. result_ok ?ev adj r"
    and D: "distinct (concat (map member_addresses rs))"
    and S: "set (concat (map member_addresses rs)) = set (evidence_addresses ?ev)"
    and W: "adj_weights adj \<subseteq> ceConfidence ` set (combined_edges ro (pairs (scan_evidence ?ev)))"
    using Replay_spec [OF assms(2), of ?ev] by metis
  note conf = result_confidences [OF assms(2) unit_conf_active [OF assms(3) d] _ W]
  have num: "numericOf (drv s) k \<noteq> None" if "0 \<le> k" "k \<le> 1" for k using d that by (auto simp: driver_ok_def)
  have len: "int (length (rMembers r)) < 2 ^ 53" if "r \<in> set rs" for r
  proof -
    have "length (rMembers r) \<le> length (concat (map member_addresses rs))"
      using that by (induction rs) (auto simp: member_addresses_def)
    also have "\<dots> = length (evidence_addresses ?ev)"
      using D S distinct_evidence_addresses by (metis distinct_card)
    finally show ?thesis using assms(7) by linarith
  qed
  have "\<exists>s'. rebuild_body c (clock s) rs s = (Inr (), s') \<and> schedule s' = []"
    using assms(1,5) Replay_ids_distinct [OF assms(2) R assms(6)] D
  proof (rule rebuild_body_succeeds)
    show "\<forall>r \<in> set rs. numericOf (drv s) (rRepresentativeConfidence r) \<noteq> None" using num conf(3) ok len by blast
    show "\<forall>r \<in> set rs. \<forall>m \<in> set (rMembers r). numericOf (drv s) (mConfidence m) \<noteq> None" using num conf(1) ok by blast
  qed
  then obtain s' where "rebuild_body c (clock s) rs s = (Inr (), s')" "schedule s' = []" by blast
  then have "transaction ''cluster: rebuild: begin tx'' ''cluster: rebuild: commit'' (rebuild_body c (clock s) rs) s = (Inr (), s')"
    using assms(1) by (simp add: transaction_Inr)
  moreover have W: "wrap ''cluster: rebuild: scan evidence'' (ScanActive c) s = (Inr ?ev, s)"
    using assms(1) by (simp add: ScanActive_Inr)
  ultimately show ?thesis using R unfolding RebuildFromEvidence_unfold W by simp
qed


section \<open>Without faults the queries return\<close>

lemma thresholdEpsilon_small: "thresholdEpsilon < 1 / 4"
  unfolding thresholdEpsilon_def by code_simp

lemma Replay_returns: "any_order ro \<Longrightarrow> \<exists>rs. Replay ro ev = Some rs"
  using Replay_components by blast

lemma ClusterOf_returns:
  assumes "schedule s = []" and "any_order ro"
  shows "\<exists>r. ClusterOf ro c a m s = (Inr r, s)"
proof (cases "m \<le> thresholdEpsilon")
  case True
  then show ?thesis using assms(1) by (auto simp: ClusterOf_def clusterOfMaterialized_def query_Inr)
next
  case False
  obtain rs where "Replay ro (strong s c m) = Some rs" using Replay_returns [OF assms(2)] by blast
  then have "thresholdView ro c m s = (Inr rs, s)" using assms(1) by (simp add: thresholdView_Inr)
  then show ?thesis using False by (auto simp: ClusterOf_def bnd_def ret_def)
qed

lemma SameCluster_returns:
  assumes "schedule s = []" and "any_order ro" and "any_order ro'"
  shows "\<exists>same k. SameCluster ro ro' c a b m s = (Inr (same, k), s)"
proof -
  obtain ra rb where "ClusterOf ro c a m s = (Inr ra, s)" "ClusterOf ro' c b m s = (Inr rb, s)"
    using ClusterOf_returns assms by metis
  then show ?thesis by (auto simp: SameCluster_def bnd_def ret_def split: option.splits)
qed


section \<open>A sample database\<close>

text \<open>
  A database with two addresses linked on one chain; the properties are instantiated on it.
\<close>

definition sample_db :: db where
  "sample_db = empty_db\<lparr>mergeOpSeq := 2, tblEvidence := [sample_entry 1 ''A'' ''B'' ''t1'' (1/2)]\<rparr>"

lemmas sample_db_simps = sample_db_def empty_db_def sample_driver_def sample_entry_def EvidenceStatusActive_def

lemma sample_schedule: "schedule sample_db = []"
  by (simp add: sample_db_def empty_db_def)

lemma sample_log_inv: "log_inv sample_db"
  by (simp add: log_inv_def log_entry_ok_def sample_db_simps)

lemma sample_active: "active_rows sample_db ''eth'' = [sample_entry 1 ''A'' ''B'' ''t1'' (1/2)]"
  by (simp add: active_rows_def collect_def scan_row_def sample_db_simps)

lemma sample_addresses: "evidence_addresses [sample_entry 1 ''A'' ''B'' ''t1'' c] = [''A'', ''B'']"
  by (simp add: evidence_addresses_def ends_def skipped_def sample_db_simps)

lemma sample_edges: "evidence_edges [sample_entry 1 ''A'' ''B'' ''t1'' c] = {(''A'', ''B'')}"
  by (auto simp: evidence_edges_def skipped_def sample_db_simps)

lemma sample_founder: "founder [sample_entry 1 ''A'' ''B'' ''t1'' c] f \<Longrightarrow> f = ''A''"
proof -
  assume f: "founder [sample_entry 1 ''A'' ''B'' ''t1'' c] f"
  then have "f = ''A'' \<or> f = ''B''" by (auto simp: founder_def sample_addresses)
  moreover have "(''B'', ''A'') \<in> conn {(''A'', ''B'')}" by (rule conn_sym) (simp add: conn_edge)
  ultimately show ?thesis using f by (auto simp: founder_def sample_addresses sample_edges)
qed

lemma sample_founders_inj: "inj_on deriveClusterID (Collect (founder [sample_entry 1 ''A'' ''B'' ''t1'' c]))"
proof (rule inj_onI)
  fix x y assume "x \<in> Collect (founder [sample_entry 1 ''A'' ''B'' ''t1'' c])"
    and "y \<in> Collect (founder [sample_entry 1 ''A'' ''B'' ''t1'' c])"
  then show "x = y" using sample_founder by (metis mem_Collect_eq)
qed

lemma sample_rebuild: "\<exists>s'. RebuildFromEvidence reverse_order ''eth'' sample_db = (Inr (), s')"
proof (rule rebuild_succeeds_lemma)
  show "inj_on deriveClusterID (Collect (founder (active_rows sample_db ''eth'')))"
    unfolding sample_active by (rule sample_founders_inj)
  show "log_inv sample_db" by (rule sample_log_inv)
  show "int (length (evidence_addresses (active_rows sample_db ''eth''))) < 2 ^ 53"
    by (simp add: sample_active sample_addresses)
qed (simp_all add: any_order_reverse sample_db_def empty_db_def driver_ok_sample)


section \<open>Properties of the cluster store\<close>

text \<open>
  C9: a successful rebuild makes the cache agree with the log: two addresses have the same
  \<open>cluster_id\<close> in \<open>cluster_membership\<close> exactly when the active evidence of the chain connects them.
\<close>

theorem rebuild_makes_fresh:
  assumes "any_order ro" and "RebuildFromEvidence ro c s = (Inr x, s')"
  shows "cache_fresh s' c"
  using assms(2)
proof (rule RebuildFromEvidence_Inr)
  fix rs
  assume "Replay ro (active_rows s c) = Some rs" "cache_is c (clock s) rs s s'" "outside_cache s' = outside_cache s"
  then show ?thesis by (rule cache_is_fresh [OF assms(1)])
qed

theorem rebuild_makes_fresh_witness:
  "\<exists>s'. RebuildFromEvidence reverse_order ''eth'' sample_db = (Inr (), s') \<and> cache_fresh s' ''eth''"
  using sample_rebuild rebuild_makes_fresh [OF any_order_reverse] by blast

text \<open>
  C6: the rebuild is atomic under every failure. Whatever statement fails, at whatever point,
  and even if the reply to the commit is lost, the cache afterwards is either exactly the old
  one or completely fresh; evidence and all other tables are untouched, and so are the cache rows of
  every other chain.
\<close>

theorem rebuild_atomic:
  assumes "any_order ro" and "RebuildFromEvidence ro c s = (r, s')"
  shows "(tblCluster s' = tblCluster s \<and> tblMembership s' = tblMembership s \<or> cache_fresh s' c) \<and>
    other_rows c s' = other_rows c s \<and> outside_cache s' = outside_cache s"
  using rebuild_old_or_new [OF assms(2)] cache_is_fresh [OF assms(1)] cache_is_other_rows
  by (fastforce simp: other_rows_def)

theorem rebuild_atomic_witness:
  "\<exists>r s'. RebuildFromEvidence reverse_order ''eth'' (sample_db\<lparr>schedule := [Done, Done, Done, Failed]\<rparr>) = (r, s') \<and>
     other_rows ''eth'' s' = other_rows ''eth'' (sample_db\<lparr>schedule := [Done, Done, Done, Failed]\<rparr>)"
  using rebuild_atomic [OF any_order_reverse] by (metis prod.collapse)

text \<open>
  C29: without faults the rebuild succeeds, on every chain that has partitions, as long as the
  shortened hash does not collide on two founders and a chain has fewer than \<open>2^53\<close> addresses:
  confidences fit the columns and no primary key is violated.
\<close>

theorem rebuild_succeeds:
  assumes "schedule s = []" and "any_order ro" and "log_inv s" and "driver_ok (drv s)" and "c \<in> set (partitions s)"
    and "inj_on deriveClusterID (Collect (founder (active_rows s c)))"
    and "int (length (evidence_addresses (active_rows s c))) < 2 ^ 53"
  shows "\<exists>s'. RebuildFromEvidence ro c s = (Inr (), s')"
  using assms by (rule rebuild_succeeds_lemma)

theorem rebuild_succeeds_witness: "\<exists>s'. RebuildFromEvidence insertion_order ''eth'' sample_db = (Inr (), s')"
proof (rule rebuild_succeeds)
  show "inj_on deriveClusterID (Collect (founder (active_rows sample_db ''eth'')))"
    unfolding sample_active by (rule sample_founders_inj)
  show "log_inv sample_db" by (rule sample_log_inv)
  show "int (length (evidence_addresses (active_rows sample_db ''eth''))) < 2 ^ 53"
    by (simp add: sample_active sample_addresses)
qed (simp_all add: any_order_insertion sample_db_def empty_db_def driver_ok_sample)

text \<open>
  C36: a threshold query answers connectivity of the strong evidence. \<open>SameCluster\<close> above the
  epsilon holds exactly when active entries of at least the asked confidence connect the two
  addresses, although it replays twice with two unrelated iteration orders.
\<close>

theorem same_cluster_threshold:
  assumes "any_order ro" and "any_order ro'" and "thresholdEpsilon < minc"
    and "inj_on deriveClusterID (Collect (founder (strong s c minc)))"
    and "SameCluster ro ro' c a b minc s = (Inr (same, k), s')"
  shows "same \<longleftrightarrow> a \<in> Field (evidence_edges (strong s c minc)) \<and> b \<in> Field (evidence_edges (strong s c minc)) \<and>
    (a, b) \<in> conn (evidence_edges (strong s c minc))"
  using assms by (rule SameCluster_strong)

theorem same_cluster_threshold_witness:
  "\<exists>k s'. SameCluster insertion_order reverse_order ''eth'' ''B'' ''A'' (1/4) sample_db = (Inr (True, k), s')"
proof -
  have st: "strong sample_db ''eth'' (1/4) = [sample_entry 1 ''A'' ''B'' ''t1'' (1/2)]"
    by (simp add: strong_def sample_active) (simp add: sample_entry_def)
  obtain same k where S: "SameCluster insertion_order reverse_order ''eth'' ''B'' ''A'' (1/4) sample_db = (Inr (same, k), sample_db)"
    using SameCluster_returns [OF sample_schedule any_order_insertion any_order_reverse] by blast
  have "(''B'', ''A'') \<in> conn {(''A'', ''B'')}" by (rule conn_sym) (simp add: conn_edge)
  then have same using same_cluster_threshold [OF any_order_insertion any_order_reverse thresholdEpsilon_small _ S]
    by (simp add: st sample_founders_inj sample_edges)
  with S show ?thesis by simp
qed

end
