(* ===== verification/Pipeline.thy ===== *)
theory Pipeline
  imports Heuristics ClusterStore
begin

text \<open>
  \<open>internal/merge/engine.go\<close> and \<open>internal/pipeline/pipeline.go\<close>: candidates become
  evidence unless they touch a hub, and one batch goes through ingest, preprocessing,
  heuristics, merge and rebuild in that order.
\<close>

section \<open>The merge engine\<close>

definition evidence_of :: "MergeCandidate \<Rightarrow> MergeEvidence" where
  "evidence_of c =
     \<lparr>meChainID = mcChainID c, meOpID = 0, meAddressA = mcAddressA c, meAddressB = mcAddressB c,
      meHeuristicKey = mcHeuristicKey c, meSourceTxID = mcSourceTxID c, meSourceBlockHash = mcSourceBlockHash c,
      meSourceBlockHeight = mcSourceBlockHeight c, meConfidence = mcConfidence c, meStatus = [],
      meInvalidatedReason = None, meCreatedAt = 0, meCreatedBy = []\<rparr>"

text \<open>The reply is the operation id and whether the candidate was rejected.\<close>

definition RecordAndMerge :: "MergeCandidate \<Rightarrow> (int \<times> bool) sql" where
  "RecordAndMerge c =
     (if mcAddressA c = mcAddressB c then ret (0, True)
      else bnd (wrap (''merge: is_hub('' @ mcAddressA c @ '')'') (IsHub (mcChainID c) (mcAddressA c))) (\<lambda>hubA.
        bnd (wrap (''merge: is_hub('' @ mcAddressB c @ '')'') (IsHub (mcChainID c) (mcAddressB c))) (\<lambda>hubB.
        if hubA \<or> hubB then ret (0, True)
        else bnd (wrap ''merge: record_and_merge'' (Append (evidence_of c))) (\<lambda>opID. ret (opID, False)))))"

record BatchResult =
  brRecorded :: nat
  brRejected :: nat

definition RecordAndMergeBatch :: "MergeCandidate list \<Rightarrow> BatchResult sql" where
  "RecordAndMergeBatch candidates =
     foldE (\<lambda>result c. bnd (RecordAndMerge c) (\<lambda>(_, rejected).
        ret (if rejected then result\<lparr>brRejected := brRejected result + 1\<rparr>
             else result\<lparr>brRecorded := brRecorded result + 1\<rparr>)))
       \<lparr>brRecorded = 0, brRejected = 0\<rparr> candidates"


section \<open>The pipeline\<close>

record PipelineResult =
  prCandidatesGenerated :: nat
  prRecorded :: nat
  prRejected :: nat

definition addressesIn :: "BalanceDelta list \<Rightarrow> string list" where
  "addressesIn deltas = dedup_loop [] (map bdAddress deltas)"

type_synonym engine = "string \<times> (BalanceDelta list \<Rightarrow> MergeCandidate list sql)"

definition generate_all :: "engine list \<Rightarrow> BalanceDelta list \<Rightarrow> MergeCandidate list sql" where
  "generate_all engs deltas =
     foldE (\<lambda>candidates engine.
        bnd (wrap (''pipeline: '' @ fst engine) (snd engine deltas)) (\<lambda>generated.
        ret (candidates @ generated))) [] engs"

definition preprocess :: "string \<Rightarrow> BalanceDelta list \<Rightarrow> PreprocessingParams \<Rightarrow> unit sql" where
  "preprocess chainID deltas params =
     bnd (wrap ''pipeline: mark_hubs'' (MarkHubs chainID (addressesIn deltas) params)) (\<lambda>_.
     bnd (wrap ''pipeline: mark_collaborative_tx'' (MarkCollaborativeTx deltas params)) (\<lambda>_.
     wrap ''pipeline: mark_dust'' (MarkDust deltas params)))"

definition Run :: "height_order \<Rightarrow> range_order \<Rightarrow> engine list \<Rightarrow> string \<Rightarrow> BalanceDelta list \<Rightarrow> PipelineResult sql" where
  "Run ho ro engs chainID deltas =
     (if length deltas = 0 then ret \<lparr>prCandidatesGenerated = 0, prRecorded = 0, prRejected = 0\<rparr>
      else
        bnd (wrap ''pipeline: ingest'' (Ingest ho deltas)) (\<lambda>_.
        bnd (wrap ''pipeline: preprocessing_params_for'' (PreprocessingParamsFor chainID)) (\<lambda>params.
        bnd (preprocess chainID deltas params) (\<lambda>_.
        bnd (generate_all engs deltas) (\<lambda>candidates.
        bnd (wrap ''pipeline: record_and_merge_batch'' (RecordAndMergeBatch candidates)) (\<lambda>batchResult.
        bnd (wrap ''pipeline: rebuild_from_evidence'' (RebuildFromEvidence ro chainID)) (\<lambda>_.
        ret \<lparr>prCandidatesGenerated = length candidates, prRecorded = brRecorded batchResult,
             prRejected = brRejected batchResult\<rparr>)))))))"


section \<open>What merging writes\<close>

definition mergeable :: "db \<Rightarrow> MergeCandidate \<Rightarrow> bool" where
  "mergeable s c \<longleftrightarrow> mcAddressA c \<noteq> mcAddressB c \<and> hub_free s c"

text \<open>The row holds what was to be recorded, with the confidence as the column stores it.\<close>

definition logged :: "db \<Rightarrow> MergeEvidence \<Rightarrow> MergeEvidence \<Rightarrow> bool" where
  "logged s row e \<longleftrightarrow> meChainID row = meChainID e \<and> meAddressA row = meAddressA e \<and> meAddressB row = meAddressB e \<and>
     meHeuristicKey row = meHeuristicKey e \<and> meSourceTxID row = meSourceTxID e \<and> meSourceBlockHash row = meSourceBlockHash e \<and>
     meSourceBlockHeight row = meSourceBlockHeight e \<and> numericOf (drv s) (meConfidence e) = Some (meConfidence row) \<and> is_active row"

lemma outside_log_hub:
  assumes "outside_log t = outside_log s"
  shows "hub_in t c a = hub_in s c a" and "drv t = drv s"
proof -
  have "tblAddress (outside_log t) = tblAddress (outside_log s)" "drv (outside_log t) = drv (outside_log s)" using assms by simp_all
  then show "hub_in t c a = hub_in s c a" and "drv t = drv s" by (simp_all add: outside_log_def hub_in_def find_address_def)
qed

lemma outside_log_advance [simp]: "outside_log (advance s) = outside_log s"
  by (simp add: outside_log_def advance_def)

text \<open>One step, whatever happens: the log grows by at most the row of a mergeable candidate.\<close>

lemma Append_step:
  assumes "Append e s = (r, s')"
  shows "outside_log s' = outside_log s"
    and "tblEvidence s' = tblEvidence s \<and> (\<exists>err. r = Inl err) \<or> (\<exists>row. tblEvidence s' = tblEvidence s @ [row] \<and> logged s row e)"
proof -
  show "outside_log s' = outside_log s" by (rule keepsD [OF keeps_Append(3) refl assms])
  show "tblEvidence s' = tblEvidence s \<and> (\<exists>err. r = Inl err) \<or> (\<exists>row. tblEvidence s' = tblEvidence s @ [row] \<and> logged s row e)"
  proof (cases "meAddressA e = meAddressB e")
    case True
    then show ?thesis using assms by (auto simp: Append_def throw_def)
  next
    case False
    then obtain cb where cb: "Append e s = wrap ''evidence: append'' (stmt (insert_evidence e cb)) s"
      by (auto simp: Append_def Let_def)
    show ?thesis
    proof (cases rule: insert_evidence_cases [of e cb "advance s"])
      case (failed msg)
      then show ?thesis using assms unfolding cb by (cases "next_outcome s") (auto simp: wrap_def stmt_def)
    next
      case (inserted q)
      then have "logged s (evidence_row e cb (mergeOpSeq s) q (clock s)) e" by (simp add: logged_def evidence_row_def)
      with inserted show ?thesis using assms unfolding cb by (cases "next_outcome s") (auto simp: wrap_def stmt_def)
    qed
  qed
qed

lemma query_state: "query f s = (r, s') \<Longrightarrow> s' = advance s"
  by (cases "next_outcome s") (simp_all add: query_def stmt_def)

lemma IsHub_cases:
  obtains (error) e where "IsHub c a s = (Inl e, advance s)" | (answer) "IsHub c a s = (Inr (hub_in s c a), advance s)"
proof (cases "IsHub c a s")
  case (Pair r s')
  then have "s' = advance s"
    by (auto simp: IsHub_def Get_def bnd_def wrap_def ret_def dest: query_state split: sum.splits prod.splits option.splits)
  then show ?thesis using Pair IsHub_Inr [of c a s] that by (cases r) auto
qed

lemma hub_in_advance [simp]: "hub_in (advance s) c a = hub_in s c a"
  by (simp add: hub_in_def)

lemma RecordAndMerge_step:
  assumes "RecordAndMerge c s = (r, s')"
  shows "outside_log s' = outside_log s"
    and "tblEvidence s' = tblEvidence s \<and> (\<forall>x. r = Inr x \<longrightarrow> x = (0, True) \<and> \<not> mergeable s c) \<or>
      (\<exists>row. tblEvidence s' = tblEvidence s @ [row] \<and> logged s row (evidence_of c) \<and> mergeable s c \<and> (\<forall>x. r = Inr x \<longrightarrow> \<not> snd x))"
proof -
  consider "mcAddressA c = mcAddressB c" "r = Inr (0, True)" "s' = s"
    | err where "r = Inl err" "s' = advance s \<or> s' = advance (advance s)"
    | "r = Inr (0, True)" "s' = advance (advance s)" "\<not> hub_free s c"
    | q where "mergeable s c" "Append (evidence_of c) (advance (advance s)) = (q, s')" "\<forall>x. r = Inr x \<longrightarrow> (\<exists>op. q = Inr op \<and> x = (op, False))"
  proof (cases "mcAddressA c = mcAddressB c")
    case True
    then show ?thesis using assms that(1) by (simp add: RecordAndMerge_def ret_def)
  next
    case ne: False
    show ?thesis
    proof (cases rule: IsHub_cases [of "mcChainID c" "mcAddressA c" s])
      case (error e)
      then show ?thesis using assms ne by (intro that(2)) (auto simp: RecordAndMerge_def bnd_def wrap_def)
    next
      case A: answer
      show ?thesis
      proof (cases rule: IsHub_cases [of "mcChainID c" "mcAddressB c" "advance s"])
        case (error e)
        then show ?thesis using assms ne A by (intro that(2)) (auto simp: RecordAndMerge_def bnd_def wrap_def)
      next
        case B: answer
        show ?thesis
        proof (cases "hub_free s c")
          case True
          then have R: "bnd (wrap ''merge: record_and_merge'' (Append (evidence_of c))) (\<lambda>op. ret (op, False)) (advance (advance s)) = (r, s')"
            using assms ne A B by (simp add: RecordAndMerge_def hub_free_def bnd_def wrap_def)
          obtain q t where "Append (evidence_of c) (advance (advance s)) = (q, t)" by fastforce
          with R that(4) [of q] True ne show ?thesis
            by (auto simp: mergeable_def bnd_def wrap_def ret_def split: sum.splits)
        next
          case False
          then show ?thesis using assms ne A B that(3) by (simp add: RecordAndMerge_def hub_free_def bnd_def wrap_def ret_def)
        qed
      qed
    qed
  qed
  note C = this
  show "outside_log s' = outside_log s" using C by cases (auto dest: Append_step(1))
  show "tblEvidence s' = tblEvidence s \<and> (\<forall>x. r = Inr x \<longrightarrow> x = (0, True) \<and> \<not> mergeable s c) \<or>
      (\<exists>row. tblEvidence s' = tblEvidence s @ [row] \<and> logged s row (evidence_of c) \<and> mergeable s c \<and> (\<forall>x. r = Inr x \<longrightarrow> \<not> snd x))"
    using C
  proof cases
    case (4 q)
    have "logged (advance (advance s)) = logged s" by (intro ext) (simp add: logged_def)
    then show ?thesis using Append_step(2) [OF 4(2)] 4(1,3) by fastforce
  qed (auto simp: mergeable_def)
qed


definition merged_by :: "db \<Rightarrow> MergeCandidate list \<Rightarrow> nat \<Rightarrow> MergeEvidence list \<Rightarrow> bool" where
  "merged_by s cs k new \<longleftrightarrow> k \<le> length cs \<and>
     list_all2 (\<lambda>row c. logged s row (evidence_of c)) new (filter (mergeable s) (take k cs))"

lemma merged_by_outside:
  assumes "outside_log t = outside_log s"
  shows "merged_by t cs k new = merged_by s cs k new" and "mergeable t c = mergeable s c"
proof -
  have m: "mergeable t = mergeable s" using outside_log_hub(1) [OF assms] by (intro ext) (simp add: mergeable_def hub_free_def)
  then show "mergeable t c = mergeable s c" by simp
  have "logged t = logged s" using outside_log_hub(2) [OF assms] by (intro ext) (simp add: logged_def)
  with m show "merged_by t cs k new = merged_by s cs k new" by (simp add: merged_by_def)
qed

definition batch_step :: "BatchResult \<Rightarrow> MergeCandidate \<Rightarrow> BatchResult sql" where
  "batch_step result c = bnd (RecordAndMerge c) (\<lambda>(_, rejected).
     ret (if rejected then result\<lparr>brRejected := brRejected result + 1\<rparr> else result\<lparr>brRecorded := brRecorded result + 1\<rparr>))"

lemma RecordAndMergeBatch_eq: "RecordAndMergeBatch cs = foldE batch_step \<lparr>brRecorded = 0, brRejected = 0\<rparr> cs"
  unfolding RecordAndMergeBatch_def batch_step_def ..

lemma batch_loop:
  assumes "foldE batch_step res cs s = (r, s')"
  shows "outside_log s' = outside_log s \<and> (\<exists>k new. tblEvidence s' = tblEvidence s @ new \<and> merged_by s cs k new \<and>
    (\<forall>res'. r = Inr res' \<longrightarrow> k = length cs \<and> brRecorded res' = brRecorded res + length new \<and>
       brRecorded res' + brRejected res' = brRecorded res + brRejected res + length cs))"
  using assms
proof (induction cs arbitrary: res s)
  case Nil
  then show ?case by (intro conjI exI [of _ 0] exI [of _ "[]"]) (auto simp: ret_def merged_by_def)
next
  case (Cons c cs)
  obtain q t where q: "RecordAndMerge c s = (q, t)" by fastforce
  note step = RecordAndMerge_step [OF q]
  note same = merged_by_outside [OF step(1)]
  show ?case
  proof (cases q)
    case (Inl e)
    then have "r = Inl e" "s' = t" using Cons.prems q by (simp_all add: batch_step_def bnd_def)
    with step Inl show ?thesis
      by (auto simp: merged_by_def intro: exI [of _ "Suc 0"] exI [of _ "0::nat"])
  next
    case (Inr x)
    let ?res = "if snd x then res\<lparr>brRejected := brRejected res + 1\<rparr> else res\<lparr>brRecorded := brRecorded res + 1\<rparr>"
    have "batch_step res c s = (Inr ?res, t)"
      using q Inr by (simp add: batch_step_def bnd_def ret_def case_prod_unfold)
    then have "foldE batch_step ?res cs t = (r, s')" using Cons.prems by (simp add: bnd_def)
    from Cons.IH [OF this] obtain k new where o: "outside_log s' = outside_log t" and new: "tblEvidence s' = tblEvidence t @ new"
      and m: "merged_by s cs k new" and k: "\<forall>res'. r = Inr res' \<longrightarrow> k = length cs \<and> brRecorded res' = brRecorded ?res + length new \<and>
       brRecorded res' + brRejected res' = brRecorded ?res + brRejected ?res + length cs"
      unfolding same by blast
    have "\<exists>rows. tblEvidence t = tblEvidence s @ rows \<and> merged_by s (c # cs) (Suc k) (rows @ new) \<and> length rows = (if snd x then 0 else 1)"
      using step(2)
    proof
      assume "tblEvidence t = tblEvidence s \<and> (\<forall>x. q = Inr x \<longrightarrow> x = (0, True) \<and> \<not> mergeable s c)"
      with Inr m show ?thesis by (intro exI [of _ "[]"]) (simp add: merged_by_def)
    next
      assume "\<exists>row. tblEvidence t = tblEvidence s @ [row] \<and> logged s row (evidence_of c) \<and> mergeable s c \<and> (\<forall>x. q = Inr x \<longrightarrow> \<not> snd x)"
      then obtain row where "tblEvidence t = tblEvidence s @ [row]" "logged s row (evidence_of c)" "mergeable s c" "\<forall>x. q = Inr x \<longrightarrow> \<not> snd x"
        by (elim exE conjE)
      with m Inr show ?thesis by (intro exI [of _ "[row]"]) (simp add: merged_by_def)
    qed
    then obtain rows where rows: "tblEvidence t = tblEvidence s @ rows" "merged_by s (c # cs) (Suc k) (rows @ new)"
      "length rows = (if snd x then 0 else 1)" by blast
    have "\<forall>res'. r = Inr res' \<longrightarrow> Suc k = length (c # cs) \<and> brRecorded res' = brRecorded res + length (rows @ new) \<and>
        brRecorded res' + brRejected res' = brRecorded res + brRejected res + length (c # cs)"
    proof (intro allI impI)
      fix res' assume "r = Inr res'"
      with k have "k = length cs" "brRecorded res' = brRecorded ?res + length new"
        "brRecorded res' + brRejected res' = brRecorded ?res + brRejected ?res + length cs" by blast+
      with rows(3) show "Suc k = length (c # cs) \<and> brRecorded res' = brRecorded res + length (rows @ new) \<and>
        brRecorded res' + brRejected res' = brRecorded res + brRejected res + length (c # cs)" by (cases "snd x") simp_all
    qed
    with o new step(1) rows(1,2) show ?thesis
      by (intro conjI exI [of _ "Suc k"] exI [of _ "rows @ new"]) (assumption | simp)+
  qed
qed


section \<open>Invariants of the whole system\<close>

text \<open>
  A predicate kept by every operation that writes is kept by the pipeline. The pipeline reads
  through the registered engines only.
\<close>

locale system_invariant = preprocessing_invariant +
  assumes ingest: "\<And>ho ds. keeps I (Ingest ho ds)"
    and append: "\<And>e. keeps I (Append e)"
    and invalidate: "\<And>c op r. keeps I (Invalidate c op r)"
    and rebuild: "\<And>ro c. keeps I (RebuildFromEvidence ro c)"
    and log: "\<And>a b t r. keeps I (Log a b t r)"
begin

lemma keeps_RecordAndMergeBatch: "keeps I (RecordAndMergeBatch cs)"
  unfolding RecordAndMergeBatch_def RecordAndMerge_def by (intro keep_rules st append)

lemma keeps_generate_all: "set engs \<subseteq> set engines \<Longrightarrow> keeps I (generate_all engs ds)"
  unfolding generate_all_def
proof (intro keep_rules)
  fix e assume "set engs \<subseteq> set engines" "e \<in> set engs"
  then have "(fst e, snd e) \<in> set engines" by auto
  then obtain spec where "heuristic_engine (fst e) (snd e) spec" by (rule engines_contract)
  then show "keeps I (snd e ds)" using st by (rule heuristic_engine.reads_only)
qed

lemma keeps_preprocess: "keeps I (preprocess c ds p)"
  unfolding preprocess_def by (intro keep_rules keeps_preprocessing)

lemma keeps_Run: "set engs \<subseteq> set engines \<Longrightarrow> keeps I (Run ho ro engs c ds)"
  unfolding Run_def
  by (intro keep_rules st ingest rebuild keeps_preprocess keeps_generate_all keeps_RecordAndMergeBatch)

end

text \<open>Each writer leaves the log, or the registry, or both untouched.\<close>

lemma log_frames:
  "outside_addresses s = outside_addresses s' \<Longrightarrow> tblEvidence s = tblEvidence s' \<and> mergeOpSeq s = mergeOpSeq s'"
  "outside_ingest s = outside_ingest s' \<Longrightarrow> tblEvidence s = tblEvidence s' \<and> mergeOpSeq s = mergeOpSeq s'"
  "outside_audit s = outside_audit s' \<Longrightarrow> tblEvidence s = tblEvidence s' \<and> mergeOpSeq s = mergeOpSeq s' \<and> tblAddress s = tblAddress s'"
  "outside_cache s = outside_cache s' \<Longrightarrow> tblAddress s = tblAddress s'"
  "outside_log s = outside_log s' \<Longrightarrow> tblAddress s = tblAddress s'"
  by (drule arg_cong [of _ _ "\<lambda>t. (tblEvidence t, mergeOpSeq t, tblAddress t)"],
      simp add: outside_addresses_def outside_ingest_def outside_audit_def outside_cache_def outside_log_def)+

text \<open>A predicate on the log alone.\<close>

lemma log_predicate_invariant:
  assumes I: "\<And>s. I s \<longleftrightarrow> J (tblEvidence s) (mergeOpSeq s)"
    and "\<And>e. keeps I (Append e)" "\<And>c op r. keeps I (Invalidate c op r)" "\<And>ro c. keeps I (RebuildFromEvidence ro c)"
  shows "system_invariant I"
proof
  show st: "stable I" by (simp add: stable_def I)
  show "keeps I (SetHub c a t q)" for c a t q by (rule keeps_frame [OF keeps_address_writes(2)], drule log_frames(1), simp add: I)
  show "keeps I (SetDustFlag c a)" for c a by (rule keeps_frame [OF keeps_address_writes(3)], drule log_frames(1), simp add: I)
  show "keeps I (Exclude c t r q g)" for c t r q g using st by (rule keeps_Exclude) (simp add: I)
  show "keeps I (Ingest ho ds)" for ho ds by (rule keeps_frame [OF keeps_Ingest_outside], drule log_frames(2), simp add: I)
  show "keeps I (Log a b t r)" for a b t r by (rule keeps_frame [OF keeps_Log], drule log_frames(3), simp add: I)
qed (rule assms(2-4))+

text \<open>A predicate on the registry alone.\<close>

lemma registry_predicate_invariant:
  assumes I: "\<And>s. I s \<longleftrightarrow> J (tblAddress s)"
    and "preprocessing_invariant I" and "\<And>ho ds. keeps I (Ingest ho ds)"
  shows "system_invariant I"
proof (intro_locales)
  show "preprocessing_invariant I" by (rule assms(2))
  show "system_invariant_axioms I"
  proof
    show "keeps I (Append e)" for e by (rule keeps_frame [OF keeps_Append(3)], drule log_frames(5), simp add: I)
    show "keeps I (Invalidate c op r)" for c op r by (rule keeps_frame [OF keeps_Invalidate(3)], drule log_frames(5), simp add: I)
    show "keeps I (RebuildFromEvidence ro c)" for ro c by (rule keeps_frame [OF keeps_Rebuild_outside], drule log_frames(4), simp add: I)
    show "keeps I (Log a b t r)" for a b t r by (rule keeps_frame [OF keeps_Log], drule log_frames(3), simp add: I)
  qed (rule assms(3))
qed

interpretation sys_log: system_invariant log_inv
  by (rule log_predicate_invariant [of _ "\<lambda>l n. sorted_wrt (<) (map meOpID l) \<and> (\<forall>e \<in> set l. meOpID e < n \<and> log_entry_ok e)"])
    (rule log_inv_def keeps_Append keeps_Invalidate keeps_Rebuild_log)+

interpretation sys_history: system_invariant "\<lambda>s. evolves l (tblEvidence s)" for l
  by (rule log_predicate_invariant [of _ "\<lambda>l' _. evolves l l'"]) (simp_all add: keeps_Append keeps_Invalidate keeps_Rebuild_log)

interpretation sys_registry: system_invariant registry_inv
  by (rule registry_predicate_invariant [of _ "\<lambda>t. distinct (map (\<lambda>a. (adChainID a, adAddress a)) t)"])
    (rule registry_inv_def pre_registry.preprocessing_invariant_axioms keeps_Ingest_registry)+

interpretation sys_grows: system_invariant "\<lambda>s. registry_grows t (tblAddress s)" for t
  by (rule registry_predicate_invariant [of _ "registry_grows t"])
    (simp_all add: pre_grows.preprocessing_invariant_axioms keeps_Ingest_registry)


section \<open>What a batch leaves behind\<close>

lemma keeps_same: "keeps (\<lambda>u. f u = f s) m \<Longrightarrow> m s = (r, s') \<Longrightarrow> f s' = f s"
  by (drule keepsD [where s = s]) simp_all

lemma bnd_cases:
  assumes "bnd m f s = (r, s')"
  obtains (stopped) e where "m s = (Inl e, s')" "r = Inl e" | (continued) x t where "m s = (Inr x, t)" "f x t = (r, s')"
  using assms by (auto simp: bnd_def split: sum.splits prod.splits)

lemma wrap_cases:
  assumes "wrap p m s = (r, s')"
  obtains q where "m s = (q, s')" "\<And>x. r = Inr x \<longleftrightarrow> q = Inr x"
  using assms by (auto simp: wrap_def split: sum.splits prod.splits)

lemma computes_generate_all:
  "computes (generate_all engines ds) (\<lambda>s. concat (map (\<lambda>e. snd (snd e) s ds) engine_specs))"
  unfolding generate_all_def engines_def foldE.simps fst_conv snd_conv
  by (rule computes_cong, (rule computes_CommonInput computes_Sweep computes_Change computes_Funding computes_Deployer computes_Behavioral reads)+)
    (simp add: engine_specs_def)

text \<open>The candidates of the engines that look at exclusions come from transactions that are not excluded.\<close>

definition from_included :: "db \<Rightarrow> string \<Rightarrow> string \<Rightarrow> string option \<Rightarrow> bool" where
  "from_included s key c src \<longleftrightarrow> (key \<in> {HeuristicKeyCommonInput, HeuristicKeyChange} \<longrightarrow> (\<exists>t. src = Some t \<and> \<not> excluded_in s c t))"

lemmas heuristic_keys = HeuristicKeyCommonInput_def HeuristicKeySweepSeed_def HeuristicKeyChange_def
  HeuristicKeyFunding_def HeuristicKeyDeployer_def HeuristicKeyBehavioral_def

lemma spec_included:
  assumes "(key, generate, spec) \<in> set engine_specs" and "c \<in> set (spec s ds)"
  shows "from_included s (mcHeuristicKey c) (mcChainID c) (mcSourceTxID c)"
proof -
  have common: "from_included s (mcHeuristicKey c) (mcChainID c) (mcSourceTxID c)" if "c \<in> set (common_input_spec s ds)"
    using that unfolding common_input_spec_def configured_mem
    by (auto elim!: common_input_of_mem simp: from_included_def candidate_def)
  have change: "from_included s (mcHeuristicKey c) (mcChainID c) (mcSourceTxID c)" if "c \<in> set (change_spec s ds)"
    using that unfolding change_spec_def configured_mem
    by (auto elim!: change_of_mem simp: from_included_def candidate_def)
  have other: "from_included s (mcHeuristicKey c) (mcChainID c) (mcSourceTxID c)"
    if "grounded s k ds c" "k \<notin> {HeuristicKeyCommonInput, HeuristicKeyChange}" for k
    using that by (auto simp: grounded_def from_included_def candidate_def)
  show ?thesis
    using assms common change
      other [OF sweep.spec_grounded] other [OF funding.spec_grounded] other [OF deployer.spec_grounded] other [OF behavioral.spec_grounded]
    by (auto simp: engine_specs_def) (simp_all add: heuristic_keys)
qed

lemma table_excluded: "table_fun (\<lambda>s. excluded_in s c t)"
  by (simp add: table_fun_def)

text \<open>The second half of a batch, from the marks on.\<close>

definition merge_phase :: "range_order \<Rightarrow> engine list \<Rightarrow> string \<Rightarrow> BalanceDelta list \<Rightarrow> PipelineResult sql" where
  "merge_phase ro engs chainID deltas =
     bnd (generate_all engs deltas) (\<lambda>candidates.
     bnd (wrap ''pipeline: record_and_merge_batch'' (RecordAndMergeBatch candidates)) (\<lambda>batchResult.
     bnd (wrap ''pipeline: rebuild_from_evidence'' (RebuildFromEvidence ro chainID)) (\<lambda>_.
     ret \<lparr>prCandidatesGenerated = length candidates, prRecorded = brRecorded batchResult,
          prRejected = brRejected batchResult\<rparr>)))"

definition respects_marks :: "db \<Rightarrow> MergeEvidence \<Rightarrow> bool" where
  "respects_marks s e \<longleftrightarrow> \<not> hub_in s (meChainID e) (meAddressA e) \<and> \<not> hub_in s (meChainID e) (meAddressB e) \<and>
     from_included s (meHeuristicKey e) (meChainID e) (meSourceTxID e)"

lemma respects_marks_cong:
  assumes "tblAddress t = tblAddress s" and "tblExcluded t = tblExcluded s"
  shows "respects_marks t = respects_marks s"
  using assms by (intro ext) (simp add: respects_marks_def hub_in_def find_address_def from_included_def excluded_in_def)

lemma mark_frames:
  "outside_log t = outside_log s \<Longrightarrow> tblAddress t = tblAddress s \<and> tblExcluded t = tblExcluded s \<and> drv t = drv s"
  "outside_cache t = outside_cache s \<Longrightarrow> tblAddress t = tblAddress s \<and> tblExcluded t = tblExcluded s \<and> tblEvidence t = tblEvidence s"
  by (drule arg_cong [of _ _ "\<lambda>u. (tblAddress u, tblExcluded u, drv u, tblEvidence u)"], simp add: outside_log_def outside_cache_def)+

lemma list_all2_partner: "list_all2 P xs ys \<Longrightarrow> x \<in> set xs \<Longrightarrow> \<exists>y \<in> set ys. P x y"
  by (induction rule: list_all2_induct) auto

lemma merged_respects:
  assumes "driver_ok (drv s)" and "generate_all engines ds s = (Inr cs, t)" and "merged_by t cs k new" and "e \<in> set new"
  shows "respects_marks t e"
proof -
  note gen = computesD [OF computes_generate_all assms(1,2)]
  have "list_all2 (\<lambda>row c. logged t row (evidence_of c)) new (filter (mergeable t) (take k cs))"
    using assms(3) by (simp add: merged_by_def)
  from list_all2_partner [OF this assms(4)]
  obtain c where "c \<in> set (filter (mergeable t) (take k cs))" and lg: "logged t e (evidence_of c)" by (elim bexE)
  then have c: "c \<in> set cs" "mergeable t c" by (auto dest: in_set_takeD)
  from c(1) gen(1) obtain es where es: "es \<in> set engine_specs" "c \<in> set (snd (snd es) s ds)" by auto
  then have "from_included s (mcHeuristicKey c) (mcChainID c) (mcSourceTxID c)"
    by (intro spec_included [of "fst es" "fst (snd es)" "snd (snd es)"]) simp_all
  then have "from_included t (mcHeuristicKey c) (mcChainID c) (mcSourceTxID c)"
    using moved_table [OF gen(2) table_excluded] by (simp add: from_included_def)
  with c(2) lg show ?thesis by (simp add: respects_marks_def mergeable_def hub_free_def logged_def evidence_of_def)
qed

lemma merge_phase_respects:
  assumes "driver_ok (drv s)" and "merge_phase ro engines c ds s = (r, s')"
  shows "\<exists>new. tblEvidence s' = tblEvidence s @ new \<and> (\<forall>e \<in> set new. respects_marks s' e)"
  using assms(2) unfolding merge_phase_def
proof (cases rule: bnd_cases)
  case (stopped e)
  have "keeps (\<lambda>u. tblEvidence u = tblEvidence s) (generate_all engines ds)"
  proof (unfold generate_all_def, intro keep_rules)
    fix en assume "en \<in> set engines"
    then obtain spec where "heuristic_engine (fst en) (snd en) spec" using engines_contract by (metis prod.collapse)
    then show "keeps (\<lambda>u. tblEvidence u = tblEvidence s) (snd en ds)"
      by (rule heuristic_engine.reads_only) (simp add: stable_def)
  qed
  then have "tblEvidence s' = tblEvidence s" using stopped(1) by (rule keeps_same)
  then show ?thesis by simp
next
  case (continued cs t)
  have ev: "tblEvidence t = tblEvidence s"
    by (rule moved_table [OF computesD(2) [OF computes_generate_all assms(1) continued(1)]]) (simp add: table_fun_def)
  from continued(2) show ?thesis
  proof (cases rule: bnd_cases)
    case (stopped e)
    obtain q where "foldE batch_step \<lparr>brRecorded = 0, brRejected = 0\<rparr> cs t = (q, s')"
      using stopped(1) unfolding RecordAndMergeBatch_eq by (rule wrap_cases)
    from batch_loop [OF this] obtain k new where o: "outside_log s' = outside_log t"
      and new: "tblEvidence s' = tblEvidence t @ new" "merged_by t cs k new" by (elim conjE exE)
    have "respects_marks s' = respects_marks t" using mark_frames(1) [OF o] by (intro respects_marks_cong) simp_all
    with new ev merged_respects [OF assms(1) continued(1) new(2)] show ?thesis by (intro exI [of _ new]) simp
  next
    case merged: (continued br u)
    have "foldE batch_step \<lparr>brRecorded = 0, brRejected = 0\<rparr> cs t = (Inr br, u)"
      using merged(1) unfolding RecordAndMergeBatch_eq by simp
    from batch_loop [OF this] obtain k new where o: "outside_log u = outside_log t"
      and new: "tblEvidence u = tblEvidence t @ new" "merged_by t cs k new" by (elim conjE exE)
    have "keeps (\<lambda>v. outside_cache v = outside_cache u)
      (bnd (wrap ''pipeline: rebuild_from_evidence'' (RebuildFromEvidence ro c)) (\<lambda>_. ret \<lparr>prCandidatesGenerated = length cs,
        prRecorded = brRecorded br, prRejected = brRejected br\<rparr>))" by (intro keep_rules)
    then have u: "outside_cache s' = outside_cache u" using merged(2) by (rule keeps_same)
    have "respects_marks s' = respects_marks t"
      using mark_frames(1) [OF o] mark_frames(2) [OF u] by (intro respects_marks_cong) simp_all
    with new ev mark_frames(2) [OF u] merged_respects [OF assms(1) continued(1) new(2)] show ?thesis
      by (intro exI [of _ new]) simp
  qed
qed


section \<open>Properties of the pipeline\<close>

lemma Run_eq:
  "Run ho ro engs c ds =
     (if ds = [] then ret \<lparr>prCandidatesGenerated = 0, prRecorded = 0, prRejected = 0\<rparr>
      else bnd (wrap ''pipeline: ingest'' (Ingest ho ds)) (\<lambda>_.
        bnd (wrap ''pipeline: preprocessing_params_for'' (PreprocessingParamsFor c)) (\<lambda>params.
        bnd (preprocess c ds params) (\<lambda>_. merge_phase ro engs c ds))))"
  by (simp add: Run_def merge_phase_def)

text \<open>What marking and loading leave alone.\<close>

definition log_view :: "db \<Rightarrow> MergeEvidence list \<times> driver \<times> Cluster list \<times> ClusterMembership list" where
  "log_view s = (tblEvidence s, drv s, tblCluster s, tblMembership s)"

lemma log_view_frames:
  "outside_ingest s = outside_ingest s' \<Longrightarrow> log_view s = log_view s'"
  "outside_pre s = outside_pre s' \<Longrightarrow> log_view s = log_view s' \<and> tblDelta s = tblDelta s' \<and> tblChain s = tblChain s'"
  by (drule arg_cong [of _ _ "\<lambda>t. (log_view t, tblDelta t, tblChain t)"], simp add: outside_ingest_def outside_pre_def log_view_def)+

lemma keeps_preprocess_frame: "keeps (\<lambda>s. outside_pre s = k) (preprocess c ds p)"
  unfolding preprocess_def by (intro keep_rules pre_frame.keeps_preprocessing)

lemma keeps_log_view:
  "keeps (\<lambda>s. log_view s = k) (Ingest ho ds)" "keeps (\<lambda>s. log_view s = k) (preprocess c ds p)"
  "keeps (\<lambda>s. log_view s = k) (PreprocessingParamsFor c)"
proof -
  show "keeps (\<lambda>s. log_view s = k) (Ingest ho ds)" by (rule keeps_frame [OF keeps_Ingest_outside], drule log_view_frames(1), simp)
  show "keeps (\<lambda>s. log_view s = k) (preprocess c ds p)" by (rule keeps_frame [OF keeps_preprocess_frame], drule log_view_frames(2), simp)
  show "keeps (\<lambda>s. log_view s = k) (PreprocessingParamsFor c)" by (intro keep_rules) (simp add: stable_def log_view_def)
qed

text \<open>A batch stops in its first half with the log untouched, or reaches the merge phase.\<close>

lemma Run_phases:
  assumes "Run ho ro engs c ds s = (r, s')"
  obtains (early) "log_view s' = log_view s" "\<And>x. r = Inr x \<Longrightarrow> ds = []"
  | (merging) ir p s1 s2 s3 where "ds \<noteq> []" "Ingest ho ds s = (Inr ir, s1)" "PreprocessingParamsFor c s1 = (Inr p, s2)"
      "preprocess c ds p s2 = (Inr (), s3)" "log_view s3 = log_view s" "merge_phase ro engs c ds s3 = (r, s')"
proof (cases "ds = []")
  case True
  then show thesis using assms early by (simp add: Run_eq ret_def)
next
  case ne: False
  then have R: "bnd (wrap ''pipeline: ingest'' (Ingest ho ds)) (\<lambda>_.
        bnd (wrap ''pipeline: preprocessing_params_for'' (PreprocessingParamsFor c)) (\<lambda>params.
        bnd (preprocess c ds params) (\<lambda>_. merge_phase ro engs c ds))) s = (r, s')"
    using assms by (simp add: Run_eq)
  from R show thesis
  proof (cases rule: bnd_cases)
    case (stopped e)
    have "log_view s' = log_view s" by (rule keeps_same [OF keeps_wrap [OF keeps_log_view(1)] stopped(1)])
    with stopped(2) show thesis using early by simp
  next
    case 1: (continued ir s1)
    have v1: "log_view s1 = log_view s" by (rule keeps_same [OF keeps_wrap [OF keeps_log_view(1)] 1(1)])
    from 1(2) show thesis
    proof (cases rule: bnd_cases)
      case (stopped e)
      have "log_view s' = log_view s1" by (rule keeps_same [OF keeps_wrap [OF keeps_log_view(3)] stopped(1)])
      with v1 stopped(2) show thesis using early by simp
    next
      case 2: (continued p s2)
      have v2: "log_view s2 = log_view s1" by (rule keeps_same [OF keeps_wrap [OF keeps_log_view(3)] 2(1)])
      from 2(2) show thesis
      proof (cases rule: bnd_cases)
        case (stopped e)
        have "log_view s' = log_view s2" by (rule keeps_same [OF keeps_log_view(2) stopped(1)])
        with v1 v2 stopped(2) show thesis using early by simp
      next
        case 3: (continued x s3)
        have "log_view s3 = log_view s2" by (rule keeps_same [OF keeps_log_view(2) 3(1)])
        with v1 v2 show thesis using merging ne 1(1) 2(1) 3 by simp
      qed
    qed
  qed
qed


lemma Ingest_has:
  assumes "Ingest ho ds s = (Inr r, s')" and "ds \<noteq> []" and "d \<in> set ds"
  shows "has_delta s' d"
  using assms(1,2)
proof (rule Ingest_Inr)
  fix q s1
  assume q: "queue_deltas ds = Inr q" "batch_done q \<lparr>irInserted = 0, irSkipped = 0\<rparr> s r s1" "tblDelta s' = tblDelta s1"
  have "ds = map fst q" using queue_deltas_Inr [OF q(1)] by simp
  with q(2,3) assms(3) show ?thesis by (auto simp: batch_done_def has_delta_def)
qed

lemma delta_frames:
  "outside_log s = outside_log s' \<Longrightarrow> tblDelta s = tblDelta s'"
  "outside_cache s = outside_cache s' \<Longrightarrow> tblDelta s = tblDelta s'"
  by (drule arg_cong [of _ _ tblDelta], simp add: outside_log_def outside_cache_def)+

lemma stable_deltas: "stable (\<lambda>s. tblDelta s = k)"
  by (simp add: stable_def)

lemma keeps_merge_deltas: "keeps (\<lambda>s. tblDelta s = k) (merge_phase ro engines c ds)"
proof -
  have a: "keeps (\<lambda>s. tblDelta s = k) (Append e)" for e by (rule keeps_frame [OF keeps_Append(3)], drule delta_frames(1), simp)
  have b: "keeps (\<lambda>s. tblDelta s = k) (RebuildFromEvidence ro c)" by (rule keeps_frame [OF keeps_Rebuild_outside], drule delta_frames(2), simp)
  have g: "keeps (\<lambda>s. tblDelta s = k) (generate_all engines ds)"
    unfolding generate_all_def
  proof (intro keep_rules)
    fix e assume "e \<in> set engines"
    then have "(fst e, snd e) \<in> set engines" by simp
    then obtain spec where "heuristic_engine (fst e) (snd e) spec" by (rule engines_contract)
    then show "keeps (\<lambda>s. tblDelta s = k) (snd e ds)" using stable_deltas by (rule heuristic_engine.reads_only)
  qed
  show ?thesis unfolding merge_phase_def RecordAndMergeBatch_def RecordAndMerge_def
    by (intro keep_rules stable_deltas a b g)
qed

lemma Run_stores:
  assumes "Run ho ro engines c ds s = (Inr res, s')" and "ds \<noteq> []"
  shows "list_all (has_delta s') ds"
  using assms(1)
proof (cases rule: Run_phases)
  case early
  then show ?thesis using assms(2) by simp
next
  case (merging ir p s1 s2 s3)
  have "tblDelta s2 = tblDelta s1" by (rule keeps_same [OF keeps_registry_reads(4) merging(3)]) (rule stable_deltas)
  moreover have "keeps (\<lambda>u. tblDelta u = k) (preprocess c ds p)" for k
    by (rule keeps_frame [OF keeps_preprocess_frame], drule log_view_frames(2), simp)
  then have "tblDelta s3 = tblDelta s2" using merging(4) by (rule keeps_same)
  moreover have "tblDelta s' = tblDelta s3" by (rule keeps_same [OF keeps_merge_deltas merging(6)])
  ultimately show ?thesis
    using Ingest_has [OF merging(2,1)] by (simp add: list_all_iff has_delta_def)
qed

text \<open>
  A batch reported as processed is queryable. All its deltas are stored and the
  materialised clusters of the chain answer connectivity of the active evidence.
\<close>

theorem run_makes_queryable:
  assumes "any_order ro" and "ds \<noteq> []" and "Run ho ro engines c ds s = (Inr res, s')"
  shows "cache_fresh s' c \<and> list_all (has_delta s') ds"
  using assms(3)
proof (cases rule: Run_phases)
  case early
  then show ?thesis using assms(2) by simp
next
  case (merging ir p s1 s2 s3)
  obtain t where "RebuildFromEvidence ro c t = (Inr (), s')" using merging(6) by (auto simp: merge_phase_def bnd_Inr)
  then show ?thesis
  proof (rule RebuildFromEvidence_Inr)
    fix rs
    assume "Replay ro (active_rows t c) = Some rs" "cache_is c (clock t) rs t s'" "outside_cache s' = outside_cache t"
    then show ?thesis using cache_is_fresh [OF assms(1)] Run_stores [OF assms(3,2)] by blast
  qed
qed

definition sample_chain_db :: db where
  "sample_chain_db = empty_db\<lparr>tblChain := [\<lparr>chChainID = ''eth'', chModelType = ''account'', chConfig = RawEmpty, chEnabled = True\<rparr>]\<rparr>"

lemma sample_run: "\<exists>res s'. Run rev reverse_order engines ''eth'' sample_batch sample_chain_db = (Inr res, s')"
proof -
  have "fst (Run rev reverse_order engines ''eth'' sample_batch sample_chain_db) =
      Inr \<lparr>prCandidatesGenerated = 0, prRecorded = 0, prRejected = 0\<rparr>" by code_simp
  then show ?thesis by (metis prod.collapse)
qed


theorem run_makes_queryable_witness:
  "\<exists>res s'. Run rev reverse_order engines ''eth'' sample_batch sample_chain_db = (Inr res, s') \<and> cache_fresh s' ''eth''"
  using sample_run run_makes_queryable [OF any_order_reverse, of sample_batch rev "''eth''" sample_chain_db]
  by (fastforce simp: sample_batch_def)

text \<open>
  C10: the merge engine records exactly the mergeable candidates, in order. On every outcome the new log entries
  are those of a prefix of the candidates with self-merges and hubs left out, nothing outside
  the log changes, and on success the prefix is the whole batch and the counters add up.
\<close>

theorem merge_batch_exact:
  assumes "RecordAndMergeBatch cs s = (r, s')"
  shows "outside_log s' = outside_log s \<and> (\<exists>k new. tblEvidence s' = tblEvidence s @ new \<and> k \<le> length cs \<and>
    list_all2 (\<lambda>row c. logged s row (evidence_of c)) new (filter (mergeable s) (take k cs)) \<and>
    (\<forall>res. r = Inr res \<longrightarrow> k = length cs \<and> brRecorded res = length new \<and> brRecorded res + brRejected res = length cs))"
proof -
  from batch_loop [OF assms [unfolded RecordAndMergeBatch_eq]] obtain k new
    where "outside_log s' = outside_log s" "tblEvidence s' = tblEvidence s @ new" "merged_by s cs k new"
      "\<forall>res. r = Inr res \<longrightarrow> k = length cs \<and> brRecorded res = brRecorded \<lparr>brRecorded = 0, brRejected = 0\<rparr> + length new \<and>
        brRecorded res + brRejected res = brRecorded \<lparr>brRecorded = 0, brRejected = 0\<rparr> + brRejected \<lparr>brRecorded = 0, brRejected = 0\<rparr> + length cs"
    by (elim conjE exE)
  then show ?thesis unfolding merged_by_def BatchResult.select_convs add_0
    by (elim conjE) (intro conjI exI [of _ k] exI [of _ new], assumption+)
qed

theorem merge_batch_exact_witness:
  "\<exists>r s'. RecordAndMergeBatch [candidate sample_spend_tx HeuristicKeyCommonInput ''A'' ''B'' (1 / 2)] sample_engines_db = (r, s') \<and>
     outside_log s' = outside_log sample_engines_db"
  using merge_batch_exact by (metis prod.collapse)

text \<open>
  A chain that is not registered gets no evidence. The run fails, and log and clusters
  stay as they were, although the deltas may already be stored.
\<close>

theorem run_unregistered_chain:
  assumes "ds \<noteq> []" and "c \<notin> chChainID ` set (tblChain s)" and "Run ho ro engines c ds s = (r, s')"
  shows "(\<exists>e. r = Inl e) \<and> tblEvidence s' = tblEvidence s \<and> tblCluster s' = tblCluster s \<and> tblMembership s' = tblMembership s"
  using assms(3)
proof (cases rule: Run_phases)
  case early
  then show ?thesis using assms(1) by (cases r) (auto simp: log_view_def)
next
  case (merging ir p s1 s2 s3)
  have "keeps (\<lambda>u. tblChain u = tblChain s) (Ingest ho ds)"
    by (rule keeps_frame [OF keeps_Ingest_outside], drule arg_cong [of _ _ tblChain]) (simp add: outside_ingest_def)
  then have "tblChain s1 = tblChain s" using merging(2) by (rule keeps_same)
  then have "List.find (\<lambda>ch. chChainID ch = c) (tblChain s1) = None" using assms(2) by (auto simp: find_None_iff)
  with merging(3) have False by (auto simp: PreprocessingParamsFor_def bnd_Inr query_Inr)
  then show ?thesis ..
qed

theorem run_unregistered_chain_witness:
  "\<exists>e s'. Run rev reverse_order engines ''btc'' sample_batch sample_chain_db = (Inl e, s') \<and> tblEvidence s' = tblEvidence sample_chain_db"
proof -
  have "sample_batch \<noteq> []" "''btc'' \<notin> chChainID ` set (tblChain sample_chain_db)"
    by (simp_all add: sample_batch_def sample_chain_db_def)
  from run_unregistered_chain [OF this] show ?thesis by (metis prod.collapse)
qed

end
