(* ===== verification/ReorgHandler.thy ===== *)
theory ReorgHandler
  imports Pipeline
begin

text \<open>
  \<open>internal/reorg/handler.go\<close>: rollback of blocks and manual correction, both as invalidation of
  evidence followed by a rebuild. The count that accompanies an error is dropped: no caller reads it.
  The flag \<open>audited\<close> says whether an audit logger is wired.
\<close>

section \<open>Operations\<close>

definition derefOrEmpty :: "string option \<Rightarrow> string" where
  "derefOrEmpty s = (case s of None \<Rightarrow> [] | Some x \<Rightarrow> x)"

text \<open>The JSON encoding of \<open>reorgTarget\<close>, with \<open>omitempty\<close> on the block hash.\<close>

definition reorgTarget :: "string \<Rightarrow> int \<Rightarrow> string \<Rightarrow> json" where
  "reorgTarget chainID opID blockHash =
     JObj ([(''chain_id'', JStr chainID), (''op_id'', JInt opID)] @
       (if blockHash = [] then [] else [(''source_block_hash'', JStr blockHash)]))"

definition reorg_entry :: "bool \<Rightarrow> string \<Rightarrow> nat \<Rightarrow> MergeEvidence \<Rightarrow> nat sql" where
  "reorg_entry audited chainID invalidatedCount e =
     (if meStatus e \<noteq> EvidenceStatusActive then ret invalidatedCount
      else bnd (wrap (''reorg: on_reorg: invalidate(op_id='' @ itoa (meOpID e) @ '')'') (Invalidate chainID (meOpID e) ''reorg'')) (\<lambda>invalidated.
        if \<not> invalidated then ret invalidatedCount
        else bnd (if audited then wrap ''reorg: on_reorg: audit log''
              (Log ''system'' ''invalidate'' (reorgTarget chainID (meOpID e) (derefOrEmpty (meSourceBlockHash e))) ''reorg rollback'')
            else ret ()) (\<lambda>_. ret (invalidatedCount + 1))))"

definition OnReorg :: "range_order \<Rightarrow> bool \<Rightarrow> string \<Rightarrow> string list \<Rightarrow> nat sql" where
  "OnReorg ro audited chainID rolledBackBlockHashes =
     (if length rolledBackBlockHashes = 0 then ret 0
      else bnd (wrap ''reorg: on_reorg: by_block_hash'' (ByBlockHash chainID rolledBackBlockHashes)) (\<lambda>candidates.
        bnd (foldE (reorg_entry audited chainID) 0 candidates) (\<lambda>invalidatedCount.
        if invalidatedCount = 0 then ret 0
        else bnd (wrap ''reorg: on_reorg: rebuild'' (RebuildFromEvidence ro chainID)) (\<lambda>_. ret invalidatedCount))))"

definition OnManualCorrection :: "range_order \<Rightarrow> bool \<Rightarrow> string \<Rightarrow> int \<Rightarrow> string \<Rightarrow> bool sql" where
  "OnManualCorrection ro audited chainID opID rationale =
     bnd (wrap (''reorg: on_manual_correction: invalidate(op_id='' @ itoa opID @ '')'') (Invalidate chainID opID ''manual-correction'')) (\<lambda>invalidated.
     if \<not> invalidated then ret False
     else bnd (if audited then wrap ''reorg: on_manual_correction: audit log''
           (Log ''operator'' ''invalidate'' (reorgTarget chainID opID []) rationale)
         else ret ()) (\<lambda>_.
       bnd (wrap ''reorg: on_manual_correction: rebuild'' (RebuildFromEvidence ro chainID)) (\<lambda>_. ret True)))"


section \<open>Invariants\<close>

context system_invariant
begin

lemma keeps_OnReorg: "keeps I (OnReorg ro audited c hs)"
  unfolding OnReorg_def reorg_entry_def by (intro keep_rules st invalidate log rebuild)

lemma keeps_OnManualCorrection: "keeps I (OnManualCorrection ro audited c op why)"
  unfolding OnManualCorrection_def by (intro keep_rules st invalidate log rebuild)

end


section \<open>What a rollback does to the log\<close>

text \<open>Invalidation of a set of operations.\<close>

definition invalidate_ops :: "string \<Rightarrow> int set \<Rightarrow> string \<Rightarrow> MergeEvidence list \<Rightarrow> MergeEvidence list" where
  "invalidate_ops c ops r l = map (\<lambda>e. if meChainID e = c \<and> meOpID e \<in> ops \<and> is_active e then invalidate_row r e else e) l"

lemma invalidate_ops_empty [simp]: "invalidate_ops c {} r l = l"
  by (simp add: invalidate_ops_def)

lemma invalidate_ops_insert: "invalidate_where c op r (invalidate_ops c ops r l) = invalidate_ops c (insert op ops) r l"
  by (auto simp: invalidate_where_def invalidate_ops_def invalidates_def)

lemma Log_Inr: "Log a b t r s = (Inr x, s') \<Longrightarrow> outside_audit s' = outside_audit s"
  by (rule keeps_same [OF keeps_Log])

definition outside_rollback :: "db \<Rightarrow> db" where
  "outside_rollback s = s\<lparr>schedule := [], mergeOpSeq := 0, tblEvidence := [], auditSeq := 0, tblAudit := []\<rparr>"

lemma outside_rollback_frames:
  "outside_audit s' = outside_audit s \<Longrightarrow> outside_rollback s' = outside_rollback s \<and> tblEvidence s' = tblEvidence s"
  "outside_log s' = outside_log s \<Longrightarrow> outside_rollback s' = outside_rollback s"
  by (drule arg_cong [of _ _ "\<lambda>t. (outside_rollback t, tblEvidence t)"], simp add: outside_audit_def outside_rollback_def)
    (drule arg_cong [of _ _ outside_rollback], simp add: outside_log_def outside_rollback_def)

lemma outside_rollback_fields:
  assumes "outside_rollback s' = outside_rollback s"
  shows "drv s' = drv s" "tblMembership s' = tblMembership s" "tblCluster s' = tblCluster s"
  using arg_cong [OF assms, of drv] arg_cong [OF assms, of tblMembership] arg_cong [OF assms, of tblCluster]
  by (simp_all add: outside_rollback_def)

lemma reorg_entry_Inr:
  assumes "reorg_entry audited c n e s = (Inr m, s')"
  shows "outside_rollback s' = outside_rollback s"
    and "tblEvidence s' = (if is_active e then invalidate_where c (meOpID e) ''reorg'' (tblEvidence s) else tblEvidence s)"
    and "m = (if is_active e \<and> (\<exists>x \<in> set (tblEvidence s). invalidates c (meOpID e) x) then n + 1 else n)"
proof -
  consider "\<not> is_active e" "m = n" "s' = s"
    | t where "is_active e" "Invalidate c (meOpID e) ''reorg'' s = (Inr False, t)" "s' = t" "m = n"
    | t where "is_active e" "Invalidate c (meOpID e) ''reorg'' s = (Inr True, t)" "outside_audit s' = outside_audit t" "m = n + 1"
    using assms by (auto simp: reorg_entry_def bnd_Inr split: if_splits dest: Log_Inr)
  note C = this
  have out: "outside_rollback t = outside_rollback s" if "Invalidate c (meOpID e) ''reorg'' s = (Inr b, t)" for b t
    by (rule outside_rollback_frames(2)) (rule keeps_same [OF keeps_Invalidate(3) that])
  show "outside_rollback s' = outside_rollback s"
    using C by cases (auto dest!: out outside_rollback_frames(1))
  show "tblEvidence s' = (if is_active e then invalidate_where c (meOpID e) ''reorg'' (tblEvidence s) else tblEvidence s)"
    using C by cases (auto simp: Invalidate_Inr dest!: outside_rollback_frames(1))
  show "m = (if is_active e \<and> (\<exists>x \<in> set (tblEvidence s). invalidates c (meOpID e) x) then n + 1 else n)"
    using C by cases (auto simp: Invalidate_Inr)
qed

lemma reorg_loop:
  assumes "foldE (reorg_entry audited c) n es s = (Inr m, s')" and "tblEvidence s = invalidate_ops c ops ''reorg'' l"
  shows "outside_rollback s' = outside_rollback s \<and>
    tblEvidence s' = invalidate_ops c (ops \<union> meOpID ` {e \<in> set es. is_active e}) ''reorg'' l \<and>
    n \<le> m \<and> (m = n \<longrightarrow> tblEvidence s' = tblEvidence s)"
  using assms
proof (induction es arbitrary: n s ops)
  case Nil
  then show ?case by simp
next
  case (Cons e es)
  obtain k t where k: "reorg_entry audited c n e s = (Inr k, t)" and rest: "foldE (reorg_entry audited c) k es t = (Inr m, s')"
    using Cons.prems(1) by (auto simp: bnd_Inr)
  note step = reorg_entry_Inr [OF k]
  let ?ops = "if is_active e then insert (meOpID e) ops else ops"
  have t: "tblEvidence t = invalidate_ops c ?ops ''reorg'' l"
    using step(2) Cons.prems(2) by (simp add: invalidate_ops_insert)
  note IH = Cons.IH [OF rest t]
  have idle: "tblEvidence t = tblEvidence s" if "k = n"
    using that step(2,3) invalidate_where_idle [of "tblEvidence s" c "meOpID e" "''reorg''"] by (auto split: if_splits)
  have ops: "?ops \<union> meOpID ` {e \<in> set es. is_active e} = ops \<union> meOpID ` {e' \<in> set (e # es). is_active e'}" by auto
  have nk: "n \<le> k" using step(3) by simp
  have "tblEvidence s' = tblEvidence s" if "m = n"
  proof -
    from that nk IH have "k = n" "m = k" by simp_all
    with IH have "tblEvidence s' = tblEvidence t" by blast
    then show ?thesis using idle [OF \<open>k = n\<close>] by (rule trans)
  qed
  then show ?case using IH step(1) nk unfolding ops by simp
qed

lemma ByBlockHash_Inr:
  "ByBlockHash c hs s = (Inr es, s') \<longleftrightarrow> next_outcome s = Done \<and> s' = advance s \<and>
     es = collect s (heapEvidence (drv s) (filter (anchored c hs) (tblEvidence s)))"
  by (auto simp: ByBlockHash_def query_Inr collect_def scan_row_def)

definition rolled_back :: "string \<Rightarrow> string list \<Rightarrow> MergeEvidence list \<Rightarrow> MergeEvidence list" where
  "rolled_back c hs l = map (\<lambda>e. if anchored c hs e \<and> is_active e then invalidate_row ''reorg'' e else e) l"

lemma invalidate_candidates:
  assumes "log_inv s" and "driver_ok (drv s)"
  shows "invalidate_ops c (meOpID ` {e \<in> set (collect s (heapEvidence (drv s) (filter (anchored c hs) (tblEvidence s)))). is_active e})
      ''reorg'' (tblEvidence s) = rolled_back c hs (tblEvidence s)"
proof -
  let ?fl = "filter (anchored c hs) (tblEvidence s)"
  have "mset (heapEvidence (drv s) ?fl) = mset ?fl" using assms(2) by (simp add: driver_ok_def)
  then have fl: "set (heapEvidence (drv s) ?fl) = set ?fl" by (rule mset_eq_setD)
  have "meOpID ` {e \<in> set (collect s (heapEvidence (drv s) ?fl)). is_active e} = meOpID ` {e \<in> set (tblEvidence s). anchored c hs e \<and> is_active e}"
    unfolding collect_def set_map fl by (force simp: scan_row_def image_iff)
  moreover have "meChainID e = c \<and> meOpID e \<in> meOpID ` {e \<in> set (tblEvidence s). anchored c hs e \<and> is_active e} \<and> is_active e \<longleftrightarrow>
      anchored c hs e \<and> is_active e" if "e \<in> set (tblEvidence s)" for e
    using that log_inv_op_unique [OF assms(1) that] by (auto simp: anchored_def image_iff)
  ultimately show ?thesis unfolding invalidate_ops_def rolled_back_def by (intro map_cong) simp_all
qed

lemma same_cached_cong: "tblMembership s' = tblMembership s \<Longrightarrow> same_cached s' c a b = same_cached s c a b"
  by (simp add: same_cached_def cached_cluster_def)

lemma cache_fresh_cong:
  assumes "tblMembership s' = tblMembership s" and "tblEvidence s' = tblEvidence s" and "drv s' = drv s"
  shows "cache_fresh s' c = cache_fresh s c"
proof -
  have "active_rows s' c = active_rows s c" using assms by (simp add: active_rows_def collect_def scan_row_def)
  then show ?thesis unfolding cache_fresh_def using same_cached_cong [OF assms(1)] by simp
qed

lemma OnReorg_Inr:
  assumes "log_inv s" and "driver_ok (drv s)" and "hs \<noteq> []" and "OnReorg ro audited c hs s = (Inr n, s')"
  obtains t where "outside_rollback t = outside_rollback s" "tblEvidence t = rolled_back c hs (tblEvidence s)"
    "n = 0 \<and> s' = t \<and> tblEvidence t = tblEvidence s \<or> 0 < n \<and> RebuildFromEvidence ro c t = (Inr (), s')"
proof -
  obtain es t where es: "ByBlockHash c hs s = (Inr es, advance s)"
    and loop: "foldE (reorg_entry audited c) 0 es (advance s) = (Inr n, t)"
    and tail: "n = 0 \<and> s' = t \<or> 0 < n \<and> RebuildFromEvidence ro c t = (Inr (), s')"
    using assms(3,4) by (auto simp: OnReorg_def bnd_Inr ByBlockHash_Inr split: if_splits)
  have es_eq: "es = collect s (heapEvidence (drv s) (filter (anchored c hs) (tblEvidence s)))" using es by (simp add: ByBlockHash_Inr)
  have "tblEvidence (advance s) = invalidate_ops c {} ''reorg'' (tblEvidence s)" by simp
  note L = reorg_loop [OF loop this, unfolded es_eq Un_empty_left invalidate_candidates [OF assms(1,2)]]
  have "outside_rollback (advance s) = outside_rollback s" by (simp add: outside_rollback_def advance_def)
  with L tail show thesis by (intro that [of t]) auto
qed

text \<open>
  C7: a rollback invalidates exactly the evidence of the rolled back blocks. After \<open>OnReorg\<close> succeeds,
  every active entry anchored to one of the blocks is invalidated with reason \<open>reorg\<close>, every other entry
  is as before, and a cache that agreed with the log before agrees with it afterwards, also when
  nothing had to be invalidated and the rebuild was skipped.
\<close>

theorem reorg_exact:
  assumes "log_inv s" and "driver_ok (drv s)" and "any_order ro" and "hs \<noteq> []" and "cache_fresh s c"
    and "OnReorg ro audited c hs s = (Inr n, s')"
  shows "tblEvidence s' = rolled_back c hs (tblEvidence s) \<and> cache_fresh s' c"
  using assms(1,2,4,6)
proof (rule OnReorg_Inr)
  fix t
  assume t: "outside_rollback t = outside_rollback s" "tblEvidence t = rolled_back c hs (tblEvidence s)"
    and "n = 0 \<and> s' = t \<and> tblEvidence t = tblEvidence s \<or> 0 < n \<and> RebuildFromEvidence ro c t = (Inr (), s')"
  from this(3) show ?thesis
  proof
    assume n: "n = 0 \<and> s' = t \<and> tblEvidence t = tblEvidence s"
    then have "cache_fresh t c = cache_fresh s c"
      using outside_rollback_fields [OF t(1)] by (intro cache_fresh_cong) simp_all
    with n t(2) assms(5) show ?thesis by simp
  next
    assume "0 < n \<and> RebuildFromEvidence ro c t = (Inr (), s')"
    then show ?thesis
      using RebuildFromEvidence_Inr [of ro c t "()" s'] cache_is_fresh [OF assms(3)] mark_frames(2) [of s' t] t(2) by metis
  qed
qed

definition sample_cached_db :: db where
  "sample_cached_db = empty_db\<lparr>mergeOpSeq := 2,
     tblEvidence := [(sample_entry 1 ''A'' ''B'' ''t1'' (1/2))\<lparr>meSourceBlockHash := Some ''h1''\<rparr>],
     tblMembership := [\<lparr>cmChainID = ''eth'', cmAddress = ''A'', cmClusterID = ''x'', cmMembershipConfidence = 1/2\<rparr>,
       \<lparr>cmChainID = ''eth'', cmAddress = ''B'', cmClusterID = ''x'', cmMembershipConfidence = 1/2\<rparr>]\<rparr>"

text \<open>
  A rollback that fails between invalidation and rebuild is not repaired by its retry. Here the rebuild fails once,
  the redelivered notice then succeeds with nothing to invalidate and skips the rebuild, and
  the cache still joins two addresses that no active evidence connects.
\<close>

theorem reorg_retry_leaves_stale_cache:
  "\<exists>e s1 s2. OnReorg reverse_order True ''eth'' [''h1''] (sample_cached_db\<lparr>schedule := [Done, Done, Done, Failed]\<rparr>) = (Inl e, s1) \<and>
     OnReorg reverse_order True ''eth'' [''h1''] s1 = (Inr 0, s2) \<and> \<not> cache_fresh s2 ''eth''"
proof -
  let ?r1 = "OnReorg reverse_order True ''eth'' [''h1''] (sample_cached_db\<lparr>schedule := [Done, Done, Done, Failed]\<rparr>)"
  let ?r2 = "OnReorg reverse_order True ''eth'' [''h1''] (snd ?r1)"
  have "case fst ?r1 of Inl _ \<Rightarrow> True | Inr _ \<Rightarrow> False" by code_simp
  then obtain e where 1: "?r1 = (Inl e, snd ?r1)" by (metis old.sum.simps(6) prod.collapse sum.exhaust)
  have "fst ?r2 = Inr 0" by code_simp
  then have 2: "?r2 = (Inr 0, snd ?r2)" by (metis prod.collapse)
  have ev: "active_rows (snd ?r2) ''eth'' = []" by code_simp
  have "same_cached (snd ?r2) ''eth'' ''A'' ''B''" by code_simp
  then have "\<not> cache_fresh (snd ?r2) ''eth''" unfolding cache_fresh_def ev by (auto simp: evidence_edges_def Field_def)
  with 1 2 show ?thesis by blast
qed

lemma sample_cached_fresh: "cache_fresh sample_cached_db ''eth''"
proof -
  have ev: "active_rows sample_cached_db ''eth'' = [(sample_entry 1 ''A'' ''B'' ''t1'' (1/2))\<lparr>meSourceBlockHash := Some ''h1''\<rparr>]"
    by (simp add: active_rows_def collect_def scan_row_def sample_cached_db_def sample_db_simps)
  have edges: "evidence_edges (active_rows sample_cached_db ''eth'') = {(''A'', ''B'')}"
    unfolding ev by (auto simp: evidence_edges_def skipped_def sample_db_simps)
  have cc: "cached_cluster sample_cached_db ''eth'' a = (if a = ''A'' \<or> a = ''B'' then Some ''x'' else None)" for a
    by (simp add: cached_cluster_def sample_cached_db_def)
  have "(''A'', ''B'') \<in> conn {(''A'', ''B'')}" "(''B'', ''A'') \<in> conn {(''A'', ''B'')}" "(a, a) \<in> conn {(''A'', ''B'')}" for a
    by (auto intro: conn_edge conn_sym conn_refl)
  then show ?thesis unfolding cache_fresh_def edges same_cached_def cc by (auto simp: Field_def split: if_splits)
qed

lemma sample_cached_ok: "log_inv sample_cached_db" "driver_ok (drv sample_cached_db)"
  by (simp_all add: log_inv_def log_entry_ok_def sample_cached_db_def sample_entry_def empty_db_def driver_ok_sample)

theorem reorg_exact_witness:
  "\<exists>s'. OnReorg reverse_order True ''eth'' [''h0'', ''h1''] sample_cached_db = (Inr 1, s') \<and> cache_fresh s' ''eth''"
proof -
  have "fst (OnReorg reverse_order True ''eth'' [''h0'', ''h1''] sample_cached_db) = Inr 1" by code_simp
  then obtain s' where s': "OnReorg reverse_order True ''eth'' [''h0'', ''h1''] sample_cached_db = (Inr 1, s')" by (metis prod.collapse)
  from reorg_exact [OF sample_cached_ok any_order_reverse _ sample_cached_fresh s'] s' show ?thesis by simp
qed

text \<open>
  C30: a manual correction takes back exactly one merge. It answers whether the operation was active,
  invalidates that entry alone, and a cache that agreed with the log still does.
\<close>

theorem manual_correction_exact:
  assumes "log_inv s" and "any_order ro" and "cache_fresh s c" and "OnManualCorrection ro audited c op why s = (Inr b, s')"
  shows "(b \<longleftrightarrow> (\<exists>e \<in> set (tblEvidence s). invalidates c op e)) \<and>
    tblEvidence s' = invalidate_where c op ''manual-correction'' (tblEvidence s) \<and> cache_fresh s' c"
proof -
  obtain t where t: "Invalidate c op ''manual-correction'' s = (Inr b, t)"
    and tail: "\<not> b \<and> s' = t \<or> b \<and> (\<exists>u. outside_audit u = outside_audit t \<and> RebuildFromEvidence ro c u = (Inr (), s'))"
    using assms(4) by (fastforce simp: OnManualCorrection_def bnd_Inr split: if_splits dest: Log_Inr)
  have b: "b \<longleftrightarrow> (\<exists>e \<in> set (tblEvidence s). invalidates c op e)"
    and ev: "tblEvidence t = invalidate_where c op ''manual-correction'' (tblEvidence s)"
    and same: "tblMembership t = tblMembership s" "drv t = drv s"
    using t by (simp_all add: Invalidate_Inr)
  from tail have "tblEvidence s' = tblEvidence t \<and> cache_fresh s' c"
  proof
    assume n: "\<not> b \<and> s' = t"
    then have "tblEvidence t = tblEvidence s" using b ev by (simp add: invalidate_where_idle)
    with n same assms(3) show ?thesis using cache_fresh_cong [of t s c] by simp
  next
    assume "b \<and> (\<exists>u. outside_audit u = outside_audit t \<and> RebuildFromEvidence ro c u = (Inr (), s'))"
    then obtain u where u: "outside_audit u = outside_audit t" "RebuildFromEvidence ro c u = (Inr (), s')" by blast
    from u(2) show ?thesis
    proof (rule RebuildFromEvidence_Inr)
      fix rs assume R: "Replay ro (active_rows u c) = Some rs" "cache_is c (clock u) rs u s'" "outside_cache s' = outside_cache u"
      then show ?thesis using cache_is_fresh [OF assms(2) R] mark_frames(2) [OF R(3)] outside_rollback_frames(1) [OF u(1)] by simp
    qed
  qed
  with b ev show ?thesis by simp
qed

theorem manual_correction_exact_witness:
  "\<exists>s'. OnManualCorrection reverse_order True ''eth'' 1 ''wrong'' sample_cached_db = (Inr True, s') \<and> cache_fresh s' ''eth''"
proof -
  have "fst (OnManualCorrection reverse_order True ''eth'' 1 ''wrong'' sample_cached_db) = Inr True" by code_simp
  then obtain s' where s': "OnManualCorrection reverse_order True ''eth'' 1 ''wrong'' sample_cached_db = (Inr True, s')" by (metis prod.collapse)
  from manual_correction_exact [OF sample_cached_ok(1) any_order_reverse sample_cached_fresh s'] s' show ?thesis by simp
qed

end
