(* ===== verification/Consumer.thy ===== *)
theory Consumer
  imports ReorgHandler
begin

text \<open>
  \<open>internal/consumer\<close> (\<open>message.go\<close>, \<open>batcher.go\<close>, \<open>consumer.go\<close>): decoding of topic messages, grouping of
  deltas by block, and the loop that runs the pipeline and commits offsets. A message value is
  the document its bytes parse to. The loop is driven by a list of events, one per turn
  of its \<open>select\<close>; the broker is the list of committed messages and a schedule of commit outcomes.
\<close>

section \<open>Messages\<close>

record ReorgNotice =
  rnChainID :: string
  rnRolledBackBlockHashes :: "string list"

datatype parsed = ParsedDelta BalanceDelta | ParsedReorg ReorgNotice

definition dec_int32 :: "json \<Rightarrow> int option" where
  "dec_int32 j = (case j of JInt n \<Rightarrow> if - (2 ^ 31) \<le> n \<and> n < 2 ^ 31 then Some n else None | _ \<Rightarrow> None)"

text \<open>A \<open>json.RawMessage\<close> field takes the bytes of its member, \<open>null\<close> included.\<close>

fun json_raw :: "string \<Rightarrow> (string \<times> json) list \<Rightarrow> RawMessage \<Rightarrow> RawMessage" where
  "json_raw k [] cur = cur"
| "json_raw k ((k', v) # ms) cur = (if ToLower k' = ToLower k then json_raw k ms (RawDoc v) else json_raw k ms cur)"

text \<open>A \<open>[]string\<close> field: a \<open>null\<close> element is the empty string.\<close>

fun dec_strings :: "json list \<Rightarrow> string list option" where
  "dec_strings [] = Some []"
| "dec_strings (j # js) =
     (case (if j = JNull then Some [] else dec_string j) of
        None \<Rightarrow> None
      | Some s \<Rightarrow> map_option (Cons s) (dec_strings js))"

definition dec_string_array :: "json \<Rightarrow> string list option" where
  "dec_string_array j = (case j of JArr js \<Rightarrow> dec_strings js | _ \<Rightarrow> None)"

record balanceDeltaPayload =
  bpChainID :: string
  bpTxID :: string
  bpDeltaIndex :: int
  bpAddress :: string
  bpAmount :: string
  bpKind :: string
  bpBlockHeight :: int
  bpBlockHash :: string
  bpMeta :: RawMessage

definition decode_delta :: "(string \<times> json) list \<Rightarrow> balanceDeltaPayload option" where
  "decode_delta ms =
     Option.bind (json_val dec_string ''chain_id'' ms []) (\<lambda>a.
     Option.bind (json_val dec_string ''txid'' ms []) (\<lambda>b.
     Option.bind (json_val dec_int32 ''delta_index'' ms 0) (\<lambda>c.
     Option.bind (json_val dec_string ''address'' ms []) (\<lambda>d.
     Option.bind (json_val dec_string ''amount'' ms []) (\<lambda>e.
     Option.bind (json_val dec_string ''kind'' ms []) (\<lambda>f.
     Option.bind (json_val dec_int ''block_height'' ms 0) (\<lambda>g.
     Option.bind (json_val dec_string ''block_hash'' ms []) (\<lambda>h.
       Some \<lparr>bpChainID = a, bpTxID = b, bpDeltaIndex = c, bpAddress = d, bpAmount = e, bpKind = f,
         bpBlockHeight = g, bpBlockHash = h, bpMeta = json_raw ''meta'' ms RawEmpty\<rparr>))))))))"

definition decode_reorg :: "(string \<times> json) list \<Rightarrow> ReorgNotice option" where
  "decode_reorg ms =
     Option.bind (json_val dec_string ''chain_id'' ms []) (\<lambda>a.
     Option.bind (json_val dec_string_array ''rolled_back_block_hashes'' ms []) (\<lambda>b.
       Some \<lparr>rnChainID = a, rnRolledBackBlockHashes = b\<rparr>))"

definition ParseMessage :: "RawMessage \<Rightarrow> error + parsed" where
  "ParseMessage raw =
     (case Option.bind (json_members raw) (\<lambda>ms. map_option (Pair ms) (json_val dec_string ''type'' ms [])) of
        None \<Rightarrow> Inl (ErrWrap ''consumer: decode envelope'' (ErrMsg ''json''))
      | Some (ms, ty) \<Rightarrow>
          if ty = ''balance_delta'' then
            (case decode_delta ms of
               None \<Rightarrow> Inl (ErrWrap ''consumer: decode balance_delta'' (ErrMsg ''json''))
             | Some p \<Rightarrow>
                 (case SetString10 (bpAmount p) of
                    None \<Rightarrow> Inl (ErrMsg (''consumer: amount '' @ bpAmount p @ '' is not an integer string''))
                  | Some amount \<Rightarrow> Inr (ParsedDelta
                      \<lparr>bdChainID = bpChainID p, bdTxID = bpTxID p, bdDeltaIndex = bpDeltaIndex p, bdAddress = bpAddress p,
                       bdAmount = Some amount, bdKind = bpKind p, bdBlockHeight = bpBlockHeight p,
                       bdBlockHash = bpBlockHash p, bdMeta = bpMeta p\<rparr>)))
          else if ty = ''reorg'' then
            (case decode_reorg ms of
               None \<Rightarrow> Inl (ErrWrap ''consumer: decode reorg'' (ErrMsg ''json''))
             | Some n \<Rightarrow> Inr (ParsedReorg n))
          else Inl (ErrMsg (''consumer: unknown message type '' @ ty)))"


section \<open>Batching\<close>

record Message =
  kmPartition :: int
  kmOffset :: int
  kmValue :: RawMessage

record Batcher =
  btChainID :: string
  btBlockHash :: string
  btDeltas :: "BalanceDelta list"
  btMessages :: "Message list"

definition NewBatcher :: Batcher where
  "NewBatcher = \<lparr>btChainID = [], btBlockHash = [], btDeltas = [], btMessages = []\<rparr>"

record batch =
  baDeltas :: "BalanceDelta list"
  baMessages :: "Message list"
  baChainID :: string

text \<open>The flushed batch, when \<open>ready\<close>, and the batcher afterwards.\<close>

definition Batcher_Add :: "BalanceDelta \<Rightarrow> Message \<Rightarrow> Batcher \<Rightarrow> batch option \<times> Batcher" where
  "Batcher_Add d m b =
     (let ready = (btBlockHash b \<noteq> [] \<and> (bdBlockHash d \<noteq> btBlockHash b \<or> bdChainID d \<noteq> btChainID b));
          flush = (if ready then Some \<lparr>baDeltas = btDeltas b, baMessages = btMessages b, baChainID = btChainID b\<rparr> else None);
          b1 = (if ready then b\<lparr>btDeltas := [], btMessages := []\<rparr> else b)
      in (flush, b1\<lparr>btChainID := bdChainID d, btBlockHash := bdBlockHash d, btDeltas := btDeltas b1 @ [d], btMessages := btMessages b1 @ [m]\<rparr>))"

definition Batcher_Flush :: "Batcher \<Rightarrow> batch \<times> Batcher" where
  "Batcher_Flush b = (\<lparr>baDeltas = btDeltas b, baMessages = btMessages b, baChainID = btChainID b\<rparr>,
     b\<lparr>btDeltas := [], btMessages := [], btBlockHash := []\<rparr>)"


section \<open>The consumer\<close>

record consumer =
  coDb :: db
  coBatcher :: Batcher
  coCommits :: "bool list"
  coCommitted :: "Message list"

type_synonym 'a consume = "(consumer, 'a) io"

definition on_db :: "'a sql \<Rightarrow> 'a consume" where
  "on_db m s = (case m (coDb s) of (r, d) \<Rightarrow> (r, s\<lparr>coDb := d\<rparr>))"

text \<open>\<open>reader.CommitMessages\<close>: the broker may refuse, as the schedule says.\<close>

definition CommitMessages :: "Message list \<Rightarrow> unit consume" where
  "CommitMessages msgs s =
     (let s1 = s\<lparr>coCommits := tl (coCommits s)\<rparr> in
      if coCommits s \<noteq> [] \<and> \<not> hd (coCommits s) then (Inl (ErrMsg ''kafka: commit failed''), s1)
      else (Inr (), s1\<lparr>coCommitted := coCommitted s @ msgs\<rparr>))"

definition runAndCommit :: "height_order \<Rightarrow> range_order \<Rightarrow> batch \<Rightarrow> unit consume" where
  "runAndCommit ho ro b =
     (if length (baDeltas b) = 0 then ret ()
      else bnd (wrap (''consumer: pipeline run (chain='' @ baChainID b @ '')'') (on_db (Run ho ro engines (baChainID b) (baDeltas b)))) (\<lambda>_.
        wrap ''consumer: commit offsets'' (CommitMessages (baMessages b))))"

definition flushBatch :: "height_order \<Rightarrow> range_order \<Rightarrow> unit consume" where
  "flushBatch ho ro s =
     (case Batcher_Flush (coBatcher s) of (b, bt) \<Rightarrow> runAndCommit ho ro b (s\<lparr>coBatcher := bt\<rparr>))"

definition add_message :: "BalanceDelta \<Rightarrow> Message \<Rightarrow> batch option consume" where
  "add_message d m s = (case Batcher_Add d m (coBatcher s) of (f, bt) \<Rightarrow> (Inr f, s\<lparr>coBatcher := bt\<rparr>))"

definition handle :: "height_order \<Rightarrow> range_order \<Rightarrow> Message \<Rightarrow> unit consume" where
  "handle ho ro m =
     (case ParseMessage (kmValue m) of
        Inl e \<Rightarrow> CommitMessages [m]
      | Inr (ParsedReorg notice) \<Rightarrow>
          bnd (flushBatch ho ro) (\<lambda>_.
          bnd (wrap ''consumer: on_reorg'' (on_db (OnReorg ro True (rnChainID notice) (rnRolledBackBlockHashes notice)))) (\<lambda>_.
          CommitMessages [m]))
      | Inr (ParsedDelta d) \<Rightarrow>
          bnd (add_message d m) (\<lambda>f. case f of None \<Rightarrow> ret () | Some b \<Rightarrow> runAndCommit ho ro b))"

text \<open>
  One turn of the \<open>select\<close>: the context is cancelled, the ticker fires, or a fetch returned. A failed
  periodic flush is only logged. After cancellation or an error the loop is left.
\<close>

datatype event = Cancelled | Tick | FetchFailed | Fetched Message

definition ignoring :: "unit consume \<Rightarrow> unit consume" where
  "ignoring m s = (Inr (), snd (m s))"

fun ConsumerRun :: "height_order \<Rightarrow> range_order \<Rightarrow> event list \<Rightarrow> unit consume" where
  "ConsumerRun ho ro [] = ret ()"
| "ConsumerRun ho ro (Cancelled # evs) = flushBatch ho ro"
| "ConsumerRun ho ro (Tick # evs) = bnd (ignoring (flushBatch ho ro)) (\<lambda>_. ConsumerRun ho ro evs)"
| "ConsumerRun ho ro (FetchFailed # evs) = throw (ErrMsg ''consumer: fetch message'')"
| "ConsumerRun ho ro (Fetched m # evs) =
     bnd (wrap (''consumer: handle message (partition='' @ itoa (kmPartition m) @ '' offset='' @ itoa (kmOffset m) @ '')'') (handle ho ro m))
       (\<lambda>_. ConsumerRun ho ro evs)"


section \<open>Batches\<close>

definition batcher_ok :: "Batcher \<Rightarrow> bool" where
  "batcher_ok b \<longleftrightarrow>
     list_all2 (\<lambda>d m. ParseMessage (kmValue m) = Inr (ParsedDelta d)) (btDeltas b) (btMessages b)"

definition batch_ok :: "batch \<Rightarrow> bool" where
  "batch_ok b \<longleftrightarrow> list_all2 (\<lambda>d m. ParseMessage (kmValue m) = Inr (ParsedDelta d)) (baDeltas b) (baMessages b)"

lemma batcher_ok_new: "batcher_ok NewBatcher"
  by (simp add: batcher_ok_def NewBatcher_def)

lemma batcher_ok_Flush: "batcher_ok b \<Longrightarrow> batch_ok (fst (Batcher_Flush b)) \<and> batcher_ok (snd (Batcher_Flush b))"
  by (simp add: batcher_ok_def batch_ok_def Batcher_Flush_def)

lemma batcher_ok_Add:
  assumes "batcher_ok b" and "ParseMessage (kmValue m) = Inr (ParsedDelta d)"
  shows "batcher_ok (snd (Batcher_Add d m b)) \<and> (\<forall>f. fst (Batcher_Add d m b) = Some f \<longrightarrow> batch_ok f)"
  using assms by (auto simp: batcher_ok_def batch_ok_def Batcher_Add_def Let_def list_all_iff intro!: list_all2_appendI)

text \<open>Feeding a sequence of deltas: the batches handed out and the batcher left.\<close>

fun feed :: "(BalanceDelta \<times> Message) list \<Rightarrow> Batcher \<Rightarrow> batch list \<times> Batcher" where
  "feed [] b = ([], b)"
| "feed ((d, m) # xs) b =
     (case Batcher_Add d m b of (f, b1) \<Rightarrow>
        case feed xs b1 of (fs, b2) \<Rightarrow> ((case f of None \<Rightarrow> fs | Some x \<Rightarrow> x # fs), b2))"

lemma feed_keeps_all:
  "concat (map baDeltas (fst (feed xs b))) @ btDeltas (snd (feed xs b)) = btDeltas b @ map fst xs \<and>
   concat (map baMessages (fst (feed xs b))) @ btMessages (snd (feed xs b)) = btMessages b @ map snd xs"
proof (induction xs arbitrary: b)
  case (Cons x xs)
  obtain d m where x: "x = (d, m)" by fastforce
  show ?case using Cons.IH [of "snd (Batcher_Add d m b)"]
    by (auto simp: x Batcher_Add_def Let_def split: prod.splits)
qed simp

definition uniform :: "batch \<Rightarrow> bool" where
  "uniform b \<longleftrightarrow> (\<exists>h. list_all (\<lambda>d. bdChainID d = baChainID b \<and> bdBlockHash d = h) (baDeltas b))"

definition filling :: "Batcher \<Rightarrow> bool" where
  "filling b \<longleftrightarrow> (if btBlockHash b = [] then btDeltas b = []
     else list_all (\<lambda>d. bdChainID d = btChainID b \<and> bdBlockHash d = btBlockHash b) (btDeltas b))"

lemma feed_uniform:
  assumes "filling b" and "list_all (\<lambda>x. bdBlockHash (fst x) \<noteq> []) xs"
  shows "list_all uniform (fst (feed xs b)) \<and> filling (snd (feed xs b))"
  using assms
proof (induction xs arbitrary: b)
  case (Cons x xs)
  obtain d m where x: "x = (d, m)" by fastforce
  have "filling (snd (Batcher_Add d m b))"
    using Cons.prems by (auto simp: x filling_def Batcher_Add_def Let_def)
  moreover have "uniform f" if "fst (Batcher_Add d m b) = Some f" for f
    using that Cons.prems(1) by (auto simp: filling_def Batcher_Add_def Let_def uniform_def split: if_splits)
  ultimately show ?case using Cons.IH [of "snd (Batcher_Add d m b)"] Cons.prems(2)
    by (auto simp: x split: prod.splits option.splits)
qed simp


definition sample_message :: "int \<Rightarrow> Message" where
  "sample_message i = \<lparr>kmPartition = 0, kmOffset = i, kmValue = RawEmpty\<rparr>"


text \<open>
  Deltas without a block hash are batched across chains. The batcher takes an empty hash for \<open>no batch yet\<close>,
  so a batch can be run under the chain of its last delta only.
\<close>

theorem batcher_mixes_chains_without_hash:
  "\<exists>f. fst (feed [((sample_delta ''t1'' 0 ''A'' 1)\<lparr>bdBlockHash := []\<rparr>, sample_message 0),
       ((sample_delta ''t2'' 0 ''B'' 2)\<lparr>bdChainID := ''btc''\<rparr>, sample_message 1),
       (sample_delta ''t3'' 0 ''C'' 2, sample_message 2)] NewBatcher) = [f] \<and>
     baChainID f = ''btc'' \<and> map bdChainID (baDeltas f) = [''eth'', ''btc'']"
  by (simp add: Batcher_Add_def NewBatcher_def sample_delta_def Let_def)


section \<open>Offsets\<close>

text \<open>Deltas are never removed.\<close>

lemma delta_predicate_frames:
  "outside_addresses s = outside_addresses s' \<Longrightarrow> tblDelta s = tblDelta s'"
  "outside_audit s = outside_audit s' \<Longrightarrow> tblDelta s = tblDelta s'"
  by (drule arg_cong [of _ _ tblDelta], simp add: outside_addresses_def outside_audit_def)+

interpretation sys_deltas: system_invariant "\<lambda>s. has_delta s d" for d
proof
  have fr: "has_delta s d = has_delta s' d" if "tblDelta s = tblDelta s'" for s s' using that by (simp add: has_delta_def)
  show st: "stable (\<lambda>s. has_delta s d)" by (simp add: stable_def has_delta_def)
  show "keeps (\<lambda>s. has_delta s d) (SetHub c a t q)" for c a t q
    by (rule keeps_frame [OF keeps_address_writes(2)], drule delta_predicate_frames(1), rule fr)
  show "keeps (\<lambda>s. has_delta s d) (SetDustFlag c a)" for c a
    by (rule keeps_frame [OF keeps_address_writes(3)], drule delta_predicate_frames(1), rule fr)
  show "keeps (\<lambda>s. has_delta s d) (Exclude c t r q g)" for c t r q g using st by (rule keeps_Exclude) (simp add: has_delta_def)
  have "keeps (\<lambda>s. has_delta s d) (Upsert c a h)" for c a h
    by (rule keeps_frame [OF keeps_address_writes(1)], drule delta_predicate_frames(1), rule fr)
  then show "keeps (\<lambda>s. has_delta s d) (Ingest ho ds)" for ho ds
    by (intro keeps_Ingest st) (auto simp: has_delta_def)
  show "keeps (\<lambda>s. has_delta s d) (Append e)" for e by (rule keeps_frame [OF keeps_Append(3)], drule delta_frames(1), rule fr)
  show "keeps (\<lambda>s. has_delta s d) (Invalidate c op r)" for c op r by (rule keeps_frame [OF keeps_Invalidate(3)], drule delta_frames(1), rule fr)
  show "keeps (\<lambda>s. has_delta s d) (RebuildFromEvidence ro c)" for ro c by (rule keeps_frame [OF keeps_Rebuild_outside], drule delta_frames(2), rule fr)
  show "keeps (\<lambda>s. has_delta s d) (Log a b t r)" for a b t r by (rule keeps_frame [OF keeps_Log], drule delta_predicate_frames(2), rule fr)
qed

definition processed :: "db \<Rightarrow> Message \<Rightarrow> bool" where
  "processed s m \<longleftrightarrow> (\<forall>d. ParseMessage (kmValue m) = Inr (ParsedDelta d) \<longrightarrow> has_delta s d)"

definition commits_ok :: "consumer \<Rightarrow> bool" where
  "commits_ok s \<longleftrightarrow> batcher_ok (coBatcher s) \<and> list_all (processed (coDb s)) (coCommitted s)"

lemma processed_mono:
  assumes "\<And>d. has_delta s d \<Longrightarrow> has_delta s' d" and "processed s m"
  shows "processed s' m"
  using assms by (simp add: processed_def)

lemma keeps_on_db:
  assumes "\<And>d. keeps (\<lambda>s. has_delta s d) m"
  shows "keeps commits_ok (on_db m)"
proof (rule keepsI)
  fix s assume ok: "commits_ok s"
  obtain r t where m: "m (coDb s) = (r, t)" by fastforce
  have "has_delta t d" if "has_delta (coDb s) d" for d using assms that m by (rule keepsD)
  then have "processed t x" if "processed (coDb s) x" for x using that by (rule processed_mono)
  with ok m show "commits_ok (snd (on_db m s))" by (auto simp: commits_ok_def on_db_def list_all_iff)
qed

lemma list_all2_partner2: "list_all2 P xs ys \<Longrightarrow> y \<in> set ys \<Longrightarrow> \<exists>x \<in> set xs. P x y"
  by (induction rule: list_all2_induct) auto

lemma runAndCommit_ok:
  assumes "batch_ok b" and "commits_ok s"
  shows "commits_ok (snd (runAndCommit ho ro b s))"
proof (cases "baDeltas b = []")
  case True
  then show ?thesis using assms(2) by (simp add: runAndCommit_def ret_def)
next
  case ne: False
  obtain r t where R: "on_db (Run ho ro engines (baChainID b) (baDeltas b)) s = (r, t)" by fastforce
  have "keeps commits_ok (on_db (Run ho ro engines (baChainID b) (baDeltas b)))"
    by (intro keeps_on_db sys_deltas.keeps_Run) simp
  then have t: "commits_ok t" using assms(2) R by (rule keepsD)
  show ?thesis
  proof (cases r)
    case (Inl e)
    with R t ne show ?thesis by (simp add: runAndCommit_def bnd_def wrap_def)
  next
    case (Inr res)
    then have "Run ho ro engines (baChainID b) (baDeltas b) (coDb s) = (Inr res, coDb t)"
      using R by (auto simp: on_db_def split: prod.splits)
    then have stored: "has_delta (coDb t) d" if "d \<in> set (baDeltas b)" for d
      using Run_stores [OF _ ne] that by (simp add: list_all_iff)
    have "processed (coDb t) m" if m: "m \<in> set (baMessages b)" for m
    proof -
      obtain d where "d \<in> set (baDeltas b)" "ParseMessage (kmValue m) = Inr (ParsedDelta d)"
        using list_all2_partner2 [OF assms(1) [unfolded batch_ok_def] m] by blast
      with stored show ?thesis by (simp add: processed_def)
    qed
    with t show ?thesis using R Inr ne
      by (auto simp: runAndCommit_def bnd_def wrap_def CommitMessages_def Let_def commits_ok_def list_all_iff)
  qed
qed

lemma flushBatch_ok: "keeps commits_ok (flushBatch ho ro)"
proof (rule keepsI)
  fix s assume ok: "commits_ok s"
  obtain b bt where f: "Batcher_Flush (coBatcher s) = (b, bt)" by fastforce
  with ok batcher_ok_Flush [of "coBatcher s"] have "batch_ok b" "commits_ok (s\<lparr>coBatcher := bt\<rparr>)" by (simp_all add: commits_ok_def)
  then show "commits_ok (snd (flushBatch ho ro s))" unfolding flushBatch_def f by (simp add: runAndCommit_ok)
qed

lemma commit_ok:
  assumes "\<And>d. ParseMessage (kmValue m) \<noteq> Inr (ParsedDelta d)"
  shows "keeps commits_ok (CommitMessages [m])"
  by (rule keepsI) (simp add: CommitMessages_def Let_def commits_ok_def processed_def assms)

lemma handle_ok: "keeps commits_ok (handle ho ro m)"
proof (cases "ParseMessage (kmValue m)")
  case (Inl e)
  then show ?thesis using commit_ok [of m] by (simp add: handle_def)
next
  case (Inr p)
  show ?thesis
  proof (cases p)
    case (ParsedReorg n)
    with Inr show ?thesis using commit_ok [of m]
      by (simp add: handle_def) (intro keep_rules flushBatch_ok keeps_on_db sys_deltas.keeps_OnReorg, simp)
  next
    case (ParsedDelta d)
    show ?thesis
    proof (rule keepsI)
      fix s assume ok: "commits_ok s"
      obtain f bt where f: "Batcher_Add d m (coBatcher s) = (f, bt)" by fastforce
      have "batcher_ok bt" "\<And>x. f = Some x \<Longrightarrow> batch_ok x"
        using batcher_ok_Add [of "coBatcher s" m d] ok Inr ParsedDelta f by (simp_all add: commits_ok_def)
      then show "commits_ok (snd (handle ho ro m s))"
        using ok Inr ParsedDelta f runAndCommit_ok
        by (cases f) (simp_all add: handle_def bnd_def add_message_def ret_def commits_ok_def)
    qed
  qed
qed

lemma ConsumerRun_ok: "keeps commits_ok (ConsumerRun ho ro evs)"
proof (induction evs rule: ConsumerRun.induct [where ?a0.0 = ho and ?a1.0 = ro])
  case (3 ho ro evs)
  have "keeps commits_ok (ignoring (flushBatch ho ro))"
    using flushBatch_ok [of ho ro] by (simp add: keeps_def ignoring_def)
  with 3 show ?case by (simp add: keeps_bnd)
next
  case (5 ho ro m evs)
  then show ?case using handle_ok by (auto intro!: keep_rules)
qed (simp_all add: flushBatch_ok)


section \<open>Properties of the consumer\<close>

definition fresh_consumer :: "db \<Rightarrow> consumer" where
  "fresh_consumer s = \<lparr>coDb = s, coBatcher = NewBatcher, coCommits = [], coCommitted = []\<rparr>"

definition sample_value :: "string \<Rightarrow> string \<Rightarrow> string \<Rightarrow> RawMessage" where
  "sample_value tx a amount = RawDoc (JObj [(''type'', JStr ''balance_delta''), (''chain_id'', JStr ''eth''), (''txid'', JStr tx),
     (''delta_index'', JInt 0), (''address'', JStr a), (''amount'', JStr amount), (''kind'', JStr ''native''),
     (''block_height'', JInt 7), (''block_hash'', JStr ''h7'')])"


definition sample_fetch :: "int \<Rightarrow> string \<Rightarrow> event" where
  "sample_fetch i tx = Fetched \<lparr>kmPartition = 0, kmOffset = i, kmValue = sample_value tx ''A'' ''5''\<rparr>"

lemma sample_value_parses: "ParseMessage (sample_value tx a ''5'') = Inr (ParsedDelta (sample_delta tx 0 a 5))"
proof -
  have "SetString10 ''5'' = Some 5" by code_simp
  then show ?thesis
    by (simp add: ParseMessage_def sample_value_def decode_delta_def ToLower_def lower_char_def dec_int32_def in_int64_def sample_delta_def)
qed

lemma sample_consumer_run:
  obtains res s' where "Run rev reverse_order engines ''eth'' [sample_delta ''t2'' 0 ''A'' 5] sample_chain_db = (Inr res, s')"
    "map bdTxID (tblDelta s') = [''t2'']"
proof -
  let ?r = "Run rev reverse_order engines ''eth'' [sample_delta ''t2'' 0 ''A'' 5] sample_chain_db"
  have "fst ?r = Inr \<lparr>prCandidatesGenerated = 0, prRecorded = 0, prRejected = 0\<rparr>" by code_simp
  moreover have "map bdTxID (tblDelta (snd ?r)) = [''t2'']" by code_simp
  ultimately show thesis by (intro that [of _ "snd ?r"]) (simp_all add: prod_eq_iff)
qed

text \<open>Fetching one delta and letting the ticker fire runs the pipeline on that delta.\<close>

lemma fetch_then_tick:
  assumes "coBatcher s = NewBatcher\<lparr>btChainID := c0\<rparr>" and "ParseMessage (kmValue m) = Inr (ParsedDelta d)" and "bdBlockHash d \<noteq> []"
  shows "ConsumerRun ho ro [Fetched m, Tick] s =
    (Inr (), snd (runAndCommit ho ro \<lparr>baDeltas = [d], baMessages = [m], baChainID = bdChainID d\<rparr>
       (s\<lparr>coBatcher := NewBatcher\<lparr>btChainID := bdChainID d\<rparr>\<rparr>)))"
  using assms
  by (simp add: handle_def add_message_def Batcher_Add_def Let_def NewBatcher_def bnd_def wrap_def ret_def ignoring_def flushBatch_def Batcher_Flush_def)

lemma ConsumerRun_append:
  assumes "list_all (\<lambda>e. e \<noteq> Cancelled) evs" and "ConsumerRun ho ro evs s = (Inr (), s1)"
  shows "ConsumerRun ho ro (evs @ evs') s = ConsumerRun ho ro evs' s1"
  using assms
proof (induction evs arbitrary: s)
  case (Cons e evs)
  show ?case
  proof (cases e)
    case Tick
    then show ?thesis using Cons by (simp add: bnd_def ignoring_def)
  next
    case (Fetched m)
    then show ?thesis using Cons by (auto simp: bnd_def split: sum.splits prod.splits)
  qed (use Cons in simp_all)
qed (simp add: ret_def)


text \<open>
  A failed periodic flush loses its batch. The batch is taken out of the batcher before it is run and the
  error is only logged; the next block of the partition is then committed past it, so the delta at
  offset 0 is neither stored nor pending while offset 1 is committed.
\<close>

theorem failed_tick_loses_batch:
  "\<exists>s'. ConsumerRun rev reverse_order [sample_fetch 0 ''t1'', Tick, sample_fetch 1 ''t2'', Tick]
       (fresh_consumer (sample_chain_db\<lparr>schedule := [Failed]\<rparr>)) = (Inr (), s') \<and>
     map kmOffset (coCommitted s') = [1] \<and> map bdTxID (tblDelta (coDb s')) = [''t2''] \<and> btDeltas (coBatcher s') = []"
proof (rule sample_consumer_run)
  fix res t
  assume R: "Run rev reverse_order engines ''eth'' [sample_delta ''t2'' 0 ''A'' 5] sample_chain_db = (Inr res, t)"
    and t2: "map bdTxID (tblDelta t) = [''t2'']"
  let ?s = "fresh_consumer (sample_chain_db\<lparr>schedule := [Failed]\<rparr>)"
  let ?m = "\<lambda>i tx. \<lparr>kmPartition = 0, kmOffset = i, kmValue = sample_value tx ''A'' ''5''\<rparr>"
  let ?eth = "NewBatcher\<lparr>btChainID := ''eth''\<rparr>"
  have chain: "bdChainID (sample_delta tx 0 ''A'' 5) = ''eth''" "bdBlockHash (sample_delta tx 0 ''A'' 5) \<noteq> []" for tx
    by (simp_all add: sample_delta_def)
  have sch: "schedule sample_chain_db = []" by (simp add: sample_chain_db_def empty_db_def)
  have fail: "\<exists>e. Run rev reverse_order engines ''eth'' [sample_delta ''t1'' 0 ''A'' 5] (sample_chain_db\<lparr>schedule := [Failed]\<rparr>) = (Inl e, sample_chain_db)"
  proof -
    have "sample_chain_db\<lparr>schedule := []\<rparr> = sample_chain_db" using sch by simp
    then show ?thesis
      by (simp add: Run_def Ingest_def bnd_def wrap_def send_batch_def read_tag_def stmt_def next_outcome_def advance_def
          rollback_def FromBigInt_def sample_delta_def)
  qed
  have F1: "ConsumerRun rev reverse_order [Fetched (?m 0 ''t1''), Tick] ?s =
    (Inr (), snd (runAndCommit rev reverse_order \<lparr>baDeltas = [sample_delta ''t1'' 0 ''A'' 5], baMessages = [?m 0 ''t1''],
       baChainID = bdChainID (sample_delta ''t1'' 0 ''A'' 5)\<rparr> (?s\<lparr>coBatcher := NewBatcher\<lparr>btChainID := bdChainID (sample_delta ''t1'' 0 ''A'' 5)\<rparr>\<rparr>)))"
    by (rule fetch_then_tick [of _ "[]"]) (simp_all add: fresh_consumer_def NewBatcher_def sample_value_parses chain)
  obtain e where e: "Run rev reverse_order engines ''eth'' [sample_delta ''t1'' 0 ''A'' 5] (sample_chain_db\<lparr>schedule := [Failed]\<rparr>) = (Inl e, sample_chain_db)"
    using fail by blast
  have 1: "ConsumerRun rev reverse_order [Fetched (?m 0 ''t1''), Tick] ?s = (Inr (), (fresh_consumer sample_chain_db)\<lparr>coBatcher := ?eth\<rparr>)"
    unfolding F1 chain by (simp add: runAndCommit_def on_db_def bnd_def wrap_def fresh_consumer_def e)
  have F2: "ConsumerRun rev reverse_order [Fetched (?m 1 ''t2''), Tick] ((fresh_consumer sample_chain_db)\<lparr>coBatcher := ?eth\<rparr>) =
    (Inr (), snd (runAndCommit rev reverse_order \<lparr>baDeltas = [sample_delta ''t2'' 0 ''A'' 5], baMessages = [?m 1 ''t2''],
       baChainID = bdChainID (sample_delta ''t2'' 0 ''A'' 5)\<rparr>
       ((fresh_consumer sample_chain_db)\<lparr>coBatcher := ?eth\<rparr>\<lparr>coBatcher := NewBatcher\<lparr>btChainID := bdChainID (sample_delta ''t2'' 0 ''A'' 5)\<rparr>\<rparr>)))"
    by (rule fetch_then_tick [of _ "''eth''"]) (simp_all add: fresh_consumer_def sample_value_parses chain)
  have 2: "ConsumerRun rev reverse_order [Fetched (?m 1 ''t2''), Tick] ((fresh_consumer sample_chain_db)\<lparr>coBatcher := ?eth\<rparr>) =
      (Inr (), \<lparr>coDb = t, coBatcher = ?eth, coCommits = [], coCommitted = [?m 1 ''t2'']\<rparr>)"
    unfolding F2 chain
    by (simp add: runAndCommit_def on_db_def bnd_def wrap_def fresh_consumer_def R CommitMessages_def Let_def)
  have "ConsumerRun rev reverse_order ([Fetched (?m 0 ''t1''), Tick] @ [Fetched (?m 1 ''t2''), Tick]) ?s =
      ConsumerRun rev reverse_order [Fetched (?m 1 ''t2''), Tick] ((fresh_consumer sample_chain_db)\<lparr>coBatcher := ?eth\<rparr>)"
    by (rule ConsumerRun_append [OF _ 1]) simp
  note run = this [unfolded 2 append.simps]
  show ?thesis unfolding sample_fetch_def run using t2 by (simp add: NewBatcher_def)
qed

text \<open>
  A message that cannot be decoded is committed past deltas that are still pending. The offset
  of the undecodable message is committed at once, while the delta before it waits in the batcher and is stored
  nowhere.
\<close>

theorem undecodable_message_overtakes_pending:
  "\<exists>s'. ConsumerRun rev reverse_order [sample_fetch 0 ''t1'', Fetched \<lparr>kmPartition = 0, kmOffset = 1, kmValue = RawBad\<rparr>]
       (fresh_consumer sample_chain_db) = (Inr (), s') \<and>
     map kmOffset (coCommitted s') = [1] \<and> tblDelta (coDb s') = [] \<and> map bdTxID (btDeltas (coBatcher s')) = [''t1'']"
proof -
  let ?r = "ConsumerRun rev reverse_order [sample_fetch 0 ''t1'', Fetched \<lparr>kmPartition = 0, kmOffset = 1, kmValue = RawBad\<rparr>]
       (fresh_consumer sample_chain_db)"
  have "fst ?r = Inr ()" by code_simp
  moreover have "map kmOffset (coCommitted (snd ?r)) = [1]" by code_simp
  moreover have "tblDelta (coDb (snd ?r)) = []" by code_simp
  moreover have "map bdTxID (btDeltas (coBatcher (snd ?r))) = [''t1'']" by code_simp
  ultimately show ?thesis by (intro exI [of _ "snd ?r"]) (metis prod.collapse)
qed

lemma json_val_bad_member:
  assumes "(k', v) \<in> set ms" and "ToLower k' = ToLower k" and "v \<noteq> JNull" and "dec v = None"
  shows "json_val dec k ms cur = None"
  using assms(1)
proof (induction ms arbitrary: cur)
  case (Cons x ms)
  obtain k2 v2 where x: "x = (k2, v2)" by fastforce
  show ?case
  proof (cases "x = (k', v)")
    case True
    then show ?thesis using assms(2-4) by simp
  next
    case False
    then have "json_val dec k ms c = None" for c using Cons by simp
    then show ?thesis by (simp add: x split: option.split)
  qed
qed simp

text \<open>
  An amount must be a string of an integer. A delta message whose \<open>amount\<close> member is a JSON number is rejected,
  whatever else it contains.
\<close>

theorem parse_rejects_numeric_amount:
  assumes "json_members raw = Some ms" and "json_val dec_string ''type'' ms [] = Some ''balance_delta''"
    and "(''amount'', v) \<in> set ms" and "v = JInt n \<or> v = JDec q"
  shows "\<exists>e. ParseMessage raw = Inl e"
proof -
  have "json_val dec_string ''amount'' ms [] = None"
    by (rule json_val_bad_member [OF assms(3)]) (use assms(4) in auto)
  then have "decode_delta ms = None" by (simp add: decode_delta_def bind_eq_None_conv)
  then show ?thesis using assms(1,2) by (simp add: ParseMessage_def)
qed

theorem parse_rejects_numeric_amount_witness:
  "\<exists>e. ParseMessage (RawDoc (JObj [(''type'', JStr ''balance_delta''), (''amount'', JInt 5)])) = Inl e"
  by (rule parse_rejects_numeric_amount [of _ "[(''type'', JStr ''balance_delta''), (''amount'', JInt 5)]" "JInt 5" 5 0])
    (simp_all add: ToLower_def lower_char_def)

end
