(* ===== verification/EthereumAdapter.thy ===== *)
theory EthereumAdapter
  imports Consumer "HOL-Library.Word"
begin

text \<open>
  The Ethereum side of the indexer (\<open>blockchain-indexer\<close>): the published records
  (\<open>internal/domain/delta.go\<close>), the extraction of balance deltas from a transaction and its receipt
  (\<open>internal/adapter/ethereum/ethereum.go\<close>) and the serialisation for the topic
  (\<open>internal/kafka/publisher.go\<close>).

  The types of \<open>go-ethereum\<close> are records with the fields the adapter reads; its functions are a
  parameter, the record \<open>geth\<close>, of which \<open>geth_ok\<close> states the documented behaviour: hashes print as
  lower-case hexadecimal, an address prints as the hexadecimal digits of its value in some
  capitalisation, and \<open>HexToAddress\<close> keeps the last twenty bytes.
\<close>

section \<open>Published records\<close>

definition MetaContractCreation :: string where
  "MetaContractCreation = ''contract_creation''"

definition MetaTokenContract :: string where
  "MetaTokenContract = ''token_contract''"

definition KindNative :: string where
  "KindNative = ''native''"

definition KindToken :: string where
  "KindToken = ''token''"

text \<open>\<open>Meta\<close> is a map, \<open>None\<close> when it is nil.\<close>

record IxBalanceDelta =
  ixType :: string
  ixChainID :: string
  ixTxID :: string
  ixDeltaIndex :: int
  ixAddress :: string
  ixAmount :: string
  ixKind :: string
  ixBlockHeight :: int
  ixBlockHash :: string
  ixMeta :: "(string \<times> json) list option"

record ReorgEvent =
  reType :: string
  reChainID :: string
  reRolledBackBlockHashes :: "string list"

record RawBlock =
  rbHeight :: int
  rbHash :: string
  rbParentHash :: string

text \<open>
  \<open>json.Marshal\<close> of the two records: members in field order, an empty \<open>meta\<close> left out, and
  a nil slice as \<open>null\<close>.
\<close>

definition marshal_delta :: "IxBalanceDelta \<Rightarrow> json" where
  "marshal_delta d = JObj
     ([(''type'', JStr (ixType d)), (''chain_id'', JStr (ixChainID d)), (''txid'', JStr (ixTxID d)),
       (''delta_index'', JInt (ixDeltaIndex d)), (''address'', JStr (ixAddress d)), (''amount'', JStr (ixAmount d)),
       (''kind'', JStr (ixKind d)), (''block_height'', JInt (ixBlockHeight d)), (''block_hash'', JStr (ixBlockHash d))] @
      (case ixMeta d of None \<Rightarrow> [] | Some m \<Rightarrow> if m = [] then [] else [(''meta'', JObj m)]))"

definition marshal_reorg :: "ReorgEvent \<Rightarrow> json" where
  "marshal_reorg e = JObj
     [(''type'', JStr (reType e)), (''chain_id'', JStr (reChainID e)),
      (''rolled_back_block_hashes'', if reRolledBackBlockHashes e = [] then JNull else JArr (map JStr (reRolledBackBlockHashes e)))]"


section \<open>Extraction\<close>

type_synonym eth_hash = "256 word"
type_synonym eth_address = "160 word"

record Transaction =
  etHash :: eth_hash
  etValue :: int
  etTo :: "eth_address option"

record EthLog =
  lgAddress :: eth_address
  lgTopics :: "eth_hash list"
  lgData :: "8 word list"

record Receipt =
  rcStatus :: nat
  rcContractAddress :: eth_address
  rcLogs :: "EthLog list"

record geth =
  hashHex :: "eth_hash \<Rightarrow> string"
  addressHex :: "eth_address \<Rightarrow> string"
  HexToAddress :: "string \<Rightarrow> eth_address"
  Keccak256Hash :: "string \<Rightarrow> eth_hash"
  Sender :: "int \<Rightarrow> Transaction \<Rightarrow> eth_address option"

definition transferTopic :: "geth \<Rightarrow> eth_hash" where
  "transferTopic g = Keccak256Hash g ''Transfer(address,address,uint256)''"

definition ReceiptStatusFailed :: nat where
  "ReceiptStatusFailed = 0"

definition normalize_addr :: "string \<Rightarrow> string" where
  "normalize_addr addr = ToLower addr"

definition negString :: "int \<Rightarrow> string" where
  "negString v = itoa (- v)"

definition posString :: "int \<Rightarrow> string" where
  "posString v = itoa v"

text \<open>\<open>(*big.Int).SetBytes\<close>: a big-endian unsigned number of any length.\<close>

definition SetBytes :: "8 word list \<Rightarrow> int" where
  "SetBytes bs = foldl (\<lambda>v b. v * 256 + uint b) 0 bs"

definition newDelta :: "string \<Rightarrow> string \<Rightarrow> 32 word \<Rightarrow> string \<Rightarrow> string \<Rightarrow> string \<Rightarrow> RawBlock \<Rightarrow> (string \<times> json) list option \<Rightarrow> IxBalanceDelta" where
  "newDelta chainID txID di address amount kind block meta =
     \<lparr>ixType = [], ixChainID = chainID, ixTxID = txID, ixDeltaIndex = sint di, ixAddress = normalize_addr address,
      ixAmount = amount, ixKind = kind, ixBlockHeight = rbHeight block, ixBlockHash = rbHash block, ixMeta = meta\<rparr>"

definition is_transfer :: "geth \<Rightarrow> EthLog \<Rightarrow> bool" where
  "is_transfer g l \<longleftrightarrow> \<not> (length (lgTopics l) \<noteq> 3 \<or> lgTopics l ! 0 \<noteq> transferTopic g)"

definition transfer_step :: "geth \<Rightarrow> string \<Rightarrow> string \<Rightarrow> RawBlock \<Rightarrow> IxBalanceDelta list \<times> 32 word \<Rightarrow> EthLog \<Rightarrow> IxBalanceDelta list \<times> 32 word" where
  "transfer_step g chainID txid block st l =
     (if \<not> is_transfer g l then st
      else let fromAddr = HexToAddress g (hashHex g (lgTopics l ! 1));
               toAddr = HexToAddress g (hashHex g (lgTopics l ! 2));
               value = SetBytes (lgData l);
               token = addressHex g (lgAddress l);
               deltas = fst st; di = snd st
           in (deltas @
                 [newDelta chainID txid di (addressHex g fromAddr) (''-'' @ itoa value) KindToken block
                    (Some [(MetaTokenContract, JStr (normalize_addr token))]),
                  newDelta chainID txid (di + 1) (addressHex g toAddr) (itoa value) KindToken block
                    (Some [(MetaTokenContract, JStr (normalize_addr token))])],
               di + 2))"

definition spend_side :: "geth \<Rightarrow> string \<Rightarrow> Transaction \<Rightarrow> eth_address \<Rightarrow> RawBlock \<Rightarrow> IxBalanceDelta list \<times> 32 word" where
  "spend_side g chainID tx from block =
     (if 0 < etValue tx
      then ([newDelta chainID (hashHex g (etHash tx)) 0 (addressHex g from) (negString (etValue tx)) KindNative block None], 1)
      else ([], 0))"

definition receive_side :: "geth \<Rightarrow> string \<Rightarrow> Transaction \<Rightarrow> Receipt \<Rightarrow> RawBlock \<Rightarrow> IxBalanceDelta list \<times> 32 word \<Rightarrow> IxBalanceDelta list \<times> 32 word" where
  "receive_side g chainID tx receipt block st =
     (case etTo tx of
        Some to \<Rightarrow>
          if 0 < etValue tx
          then (fst st @ [newDelta chainID (hashHex g (etHash tx)) (snd st) (addressHex g to) (posString (etValue tx)) KindNative block None], snd st + 1)
          else st
      | None \<Rightarrow>
          if rcContractAddress receipt \<noteq> 0
          then (fst st @ [newDelta chainID (hashHex g (etHash tx)) (snd st) (addressHex g (rcContractAddress receipt)) (posString (etValue tx))
                  KindNative block (Some [(MetaContractCreation, JBool True)])], snd st + 1)
          else st)"

definition extractDeltas :: "geth \<Rightarrow> string \<Rightarrow> Transaction \<Rightarrow> Receipt \<Rightarrow> int \<Rightarrow> RawBlock \<Rightarrow> error + IxBalanceDelta list" where
  "extractDeltas g chainID tx receipt networkChainID block =
     (if rcStatus receipt = ReceiptStatusFailed then Inr []
      else case Sender g networkChainID tx of
        None \<Rightarrow> Inl (ErrWrap (''sender of '' @ hashHex g (etHash tx)) (ErrMsg ''invalid signature''))
      | Some from \<Rightarrow>
          Inr (fst (foldl (transfer_step g chainID (hashHex g (etHash tx)) block)
            (receive_side g chainID tx receipt block (spend_side g chainID tx from block)) (rcLogs receipt))))"


section \<open>What the consumer reads\<close>

definition delta_message :: "IxBalanceDelta \<Rightarrow> RawMessage" where
  "delta_message d = RawDoc (marshal_delta (d\<lparr>ixType := ''balance_delta''\<rparr>))"

definition reorg_message :: "ReorgEvent \<Rightarrow> RawMessage" where
  "reorg_message e = RawDoc (marshal_reorg (e\<lparr>reType := ''reorg''\<rparr>))"

definition decoded :: "IxBalanceDelta \<Rightarrow> int \<Rightarrow> BalanceDelta" where
  "decoded d v =
     \<lparr>bdChainID = ixChainID d, bdTxID = ixTxID d, bdDeltaIndex = ixDeltaIndex d, bdAddress = ixAddress d, bdAmount = Some v,
      bdKind = ixKind d, bdBlockHeight = ixBlockHeight d, bdBlockHash = ixBlockHash d,
      bdMeta = (case ixMeta d of None \<Rightarrow> RawEmpty | Some m \<Rightarrow> if m = [] then RawEmpty else RawDoc (JObj m))\<rparr>"

lemma lower_keys:
  "ToLower ''type'' = ''type''" "ToLower ''chain_id'' = ''chain_id''" "ToLower ''txid'' = ''txid''"
  "ToLower ''delta_index'' = ''delta_index''" "ToLower ''address'' = ''address''" "ToLower ''amount'' = ''amount''"
  "ToLower ''kind'' = ''kind''" "ToLower ''block_height'' = ''block_height''" "ToLower ''block_hash'' = ''block_hash''"
  "ToLower ''meta'' = ''meta''" "ToLower ''rolled_back_block_hashes'' = ''rolled_back_block_hashes''"
  by code_simp+

lemma dec_strings_map [simp]: "dec_strings (map JStr xs) = Some xs"
  by (induction xs) auto

lemma ParseMessage_delta:
  assumes "SetString10 (ixAmount d) = Some v" and "- (2 ^ 31) \<le> ixDeltaIndex d" "ixDeltaIndex d < 2 ^ 31"
    and "in_int64 (ixBlockHeight d)"
  shows "ParseMessage (delta_message d) = Inr (ParsedDelta (decoded d v))"
  using assms
  by (cases "ixMeta d")
     (simp_all add: ParseMessage_def delta_message_def marshal_delta_def decode_delta_def decoded_def lower_keys dec_int32_def)

lemma ParseMessage_reorg:
  "ParseMessage (reorg_message e) =
     Inr (ParsedReorg \<lparr>rnChainID = reChainID e, rnRolledBackBlockHashes = reRolledBackBlockHashes e\<rparr>)"
  by (simp add: ParseMessage_def reorg_message_def marshal_reorg_def decode_reorg_def lower_keys dec_string_array_def)


section \<open>What extraction guarantees\<close>

definition hex_char :: "nat \<Rightarrow> char" where
  "hex_char d = char_of (if d < 10 then 48 + d else 87 + d)"

fun hexlow :: "nat \<Rightarrow> nat \<Rightarrow> string" where
  "hexlow 0 v = []"
| "hexlow (Suc n) v = hexlow n (v div 16) @ [hex_char (v mod 16)]"

definition geth_ok :: "geth \<Rightarrow> bool" where
  "geth_ok g \<longleftrightarrow>
     (\<forall>h. hashHex g h = ''0x'' @ hexlow 64 (unat h)) \<and>
     (\<forall>a. ToLower (addressHex g a) = ''0x'' @ hexlow 40 (unat a)) \<and>
     (\<forall>h. HexToAddress g (hashHex g h) = ucast h)"

definition canonical :: "eth_address \<Rightarrow> string" where
  "canonical a = ''0x'' @ hexlow 40 (unat a)"

lemma of_char_hex_char [simp]: "d < 16 \<Longrightarrow> (of_char (hex_char d) :: nat) = (if d < 10 then 48 + d else 87 + d)"
  by (simp add: hex_char_def of_char_of)

lemma hex_char_inj: "c < 16 \<Longrightarrow> d < 16 \<Longrightarrow> hex_char c = hex_char d \<longleftrightarrow> c = d"
proof
  assume "c < 16" "d < 16" "hex_char c = hex_char d"
  then have "(if c < 10 then 48 + c else 87 + c) = (if d < 10 then 48 + d else 87 + d)"
    by (metis of_char_hex_char)
  then show "c = d" using \<open>c < 16\<close> \<open>d < 16\<close> by (simp split: if_splits)
qed simp

lemma hexlow_inj: "v < 16 ^ n \<Longrightarrow> w < 16 ^ n \<Longrightarrow> hexlow n v = hexlow n w \<longleftrightarrow> v = w"
proof (induction n arbitrary: v w)
  case (Suc n)
  have "v div 16 < 16 ^ n" "w div 16 < 16 ^ n" using Suc.prems by (auto simp: less_mult_imp_div_less)
  moreover have "v = w \<longleftrightarrow> v div 16 = w div 16 \<and> v mod 16 = w mod 16" by (metis div_mult_mod_eq)
  ultimately show ?case using Suc.IH by (simp add: hex_char_inj)
qed simp

lemma canonical_inj: "canonical a = canonical b \<longleftrightarrow> a = b"
proof -
  have "unat a < 16 ^ 40" "unat b < 16 ^ 40" using unsigned_less [of a, where 'a = nat] unsigned_less [of b, where 'a = nat] by simp_all
  then show ?thesis by (simp add: canonical_def hexlow_inj word_unat_eq_iff)
qed

lemma normalize_address: "geth_ok g \<Longrightarrow> normalize_addr (addressHex g a) = canonical a"
  by (simp add: geth_ok_def normalize_addr_def canonical_def)

lemma HexToAddress_hash: "geth_ok g \<Longrightarrow> HexToAddress g (hashHex g h) = ucast h"
  unfolding geth_ok_def by blast

lemma SetBytes_nonneg: "0 \<le> SetBytes bs"
proof -
  have "0 \<le> v \<Longrightarrow> 0 \<le> foldl (\<lambda>v b. v * 256 + uint (b :: 8 word)) v bs" for v
    by (induction bs arbitrary: v) auto
  then show ?thesis by (simp add: SetBytes_def)
qed

lemma atou_itoa: "0 \<le> v \<Longrightarrow> atou (itoa v) = Some (nat v)"
  by (simp add: itoa_def atou_utoa)

text \<open>
  A movement is what a delta says: who, in which asset (\<open>None\<close> is the native coin), how much, and whether a
  contract was created. The movements of a transaction that did not fail, in order:
\<close>

record movement =
  mvWho :: eth_address
  mvToken :: "eth_address option"
  mvAmount :: int
  mvCreation :: bool

definition native_moves :: "Transaction \<Rightarrow> Receipt \<Rightarrow> eth_address \<Rightarrow> movement list" where
  "native_moves tx receipt from =
     (if 0 < etValue tx then [\<lparr>mvWho = from, mvToken = None, mvAmount = - etValue tx, mvCreation = False\<rparr>] else []) @
     (case etTo tx of
        Some to \<Rightarrow> if 0 < etValue tx then [\<lparr>mvWho = to, mvToken = None, mvAmount = etValue tx, mvCreation = False\<rparr>] else []
      | None \<Rightarrow> if rcContractAddress receipt = 0 then []
          else [\<lparr>mvWho = rcContractAddress receipt, mvToken = None, mvAmount = etValue tx, mvCreation = True\<rparr>])"

definition token_moves :: "EthLog \<Rightarrow> movement list" where
  "token_moves l =
     [\<lparr>mvWho = ucast (lgTopics l ! 1), mvToken = Some (lgAddress l), mvAmount = - SetBytes (lgData l), mvCreation = False\<rparr>,
      \<lparr>mvWho = ucast (lgTopics l ! 2), mvToken = Some (lgAddress l), mvAmount = SetBytes (lgData l), mvCreation = False\<rparr>]"

definition moves :: "geth \<Rightarrow> Transaction \<Rightarrow> Receipt \<Rightarrow> eth_address \<Rightarrow> movement list" where
  "moves g tx receipt from = native_moves tx receipt from @ concat (map token_moves (filter (is_transfer g) (rcLogs receipt)))"

definition meta_of :: "movement \<Rightarrow> (string \<times> json) list option" where
  "meta_of m = (case mvToken m of
     Some t \<Rightarrow> Some [(MetaTokenContract, JStr (canonical t))]
   | None \<Rightarrow> if mvCreation m then Some [(MetaContractCreation, JBool True)] else None)"

text \<open>A delta renders a movement of the transaction at a position.\<close>

definition renders :: "string \<Rightarrow> string \<Rightarrow> RawBlock \<Rightarrow> nat \<Rightarrow> movement \<Rightarrow> IxBalanceDelta \<Rightarrow> bool" where
  "renders chainID txid block k m d \<longleftrightarrow>
     ixChainID d = chainID \<and> ixTxID d = txid \<and> ixDeltaIndex d = sint (of_nat k :: 32 word) \<and> ixAddress d = canonical (mvWho m) \<and>
     SetString10 (ixAmount d) = Some (mvAmount m) \<and> ixKind d = (if mvToken m = None then KindNative else KindToken) \<and>
     ixBlockHeight d = rbHeight block \<and> ixBlockHash d = rbHash block \<and> ixMeta d = meta_of m"

definition rendered :: "string \<Rightarrow> string \<Rightarrow> RawBlock \<Rightarrow> movement list \<Rightarrow> IxBalanceDelta list \<times> 32 word \<Rightarrow> bool" where
  "rendered chainID txid block ms st \<longleftrightarrow>
     length (fst st) = length ms \<and> (\<forall>k < length ms. renders chainID txid block k (ms ! k) (fst st ! k)) \<and> snd st = of_nat (length ms)"

lemma rendered_snoc:
  assumes "rendered c t b ms st" and "renders c t b (length ms) m d"
  shows "rendered c t b (ms @ [m]) (fst st @ [d], snd st + 1)"
  using assms by (auto simp: rendered_def nth_append less_Suc_eq add.commute)

lemma rendered_newDelta:
  assumes "rendered c t b ms st" and "normalize_addr a = canonical (mvWho m)" "SetString10 v = Some (mvAmount m)"
    and "k = (if mvToken m = None then KindNative else KindToken)" and "meta = meta_of m"
  shows "rendered c t b (ms @ [m]) (fst st @ [newDelta c t (snd st) a v k b meta], snd st + 1)"
  by (rule rendered_snoc [OF assms(1)]) (use assms in \<open>auto simp: renders_def newDelta_def rendered_def\<close>)

lemma rendered_native:
  assumes g: "geth_ok g"
  shows "rendered c (hashHex g (etHash tx)) b (native_moves tx r from) (receive_side g c tx r b (spend_side g c tx from b))"
proof -
  let ?t = "hashHex g (etHash tx)"
  define ms0 where "ms0 = (if 0 < etValue tx then [\<lparr>mvWho = from, mvToken = None, mvAmount = - etValue tx, mvCreation = False\<rparr>] else [])"
  have nil: "rendered c ?t b [] ([], 0)" by (simp add: rendered_def)
  have spend: "rendered c ?t b ms0 (spend_side g c tx from b)"
    using rendered_newDelta [OF nil, of "addressHex g from" "\<lparr>mvWho = from, mvToken = None, mvAmount = - etValue tx, mvCreation = False\<rparr>"
        "negString (etValue tx)" KindNative None] nil
    by (auto simp: ms0_def spend_side_def normalize_address [OF g] negString_def SetString10_itoa meta_of_def)
  show ?thesis
    using rendered_newDelta [OF spend, of "addressHex g (the (etTo tx))"
        "\<lparr>mvWho = the (etTo tx), mvToken = None, mvAmount = etValue tx, mvCreation = False\<rparr>" "posString (etValue tx)" KindNative None]
      rendered_newDelta [OF spend, of "addressHex g (rcContractAddress r)"
        "\<lparr>mvWho = rcContractAddress r, mvToken = None, mvAmount = etValue tx, mvCreation = True\<rparr>" "posString (etValue tx)" KindNative
        "Some [(MetaContractCreation, JBool True)]"] spend
    by (cases "etTo tx")
       (auto simp: native_moves_def receive_side_def ms0_def [symmetric] normalize_address [OF g] posString_def SetString10_itoa meta_of_def
          split: if_splits)
qed

lemma rendered_transfer:
  assumes g: "geth_ok g" and st: "rendered c t b ms st"
  shows "rendered c t b (ms @ (if is_transfer g l then token_moves l else [])) (transfer_step g c t b st l)"
proof (cases "is_transfer g l")
  case True
  define m1 m2 where "m1 = token_moves l ! 0" and "m2 = token_moves l ! 1"
  note mv = m1_def [unfolded token_moves_def, simplified] m2_def [unfolded token_moves_def, simplified]
  have tm: "token_moves l = [m1, m2]" by (simp add: mv token_moves_def)
  have who: "HexToAddress g (hashHex g (lgTopics l ! 1)) = mvWho m1" "HexToAddress g (hashHex g (lgTopics l ! 2)) = mvWho m2"
    by (simp_all add: HexToAddress_hash [OF g] mv)
  let ?meta = "Some [(MetaTokenContract, JStr (normalize_addr (addressHex g (lgAddress l))))]"
  have meta: "?meta = meta_of m1" "?meta = meta_of m2" by (simp_all add: meta_of_def mv normalize_address [OF g])
  let ?d1 = "newDelta c t (snd st) (addressHex g (mvWho m1)) (CHR ''-'' # itoa (SetBytes (lgData l))) KindToken b ?meta"
  let ?d2 = "newDelta c t (snd st + 1) (addressHex g (mvWho m2)) (itoa (SetBytes (lgData l))) KindToken b ?meta"
  have one: "rendered c t b (ms @ [m1]) (fst st @ [?d1], snd st + 1)"
    by (rule rendered_newDelta [OF st])
       (use meta in \<open>simp_all add: normalize_address [OF g] atou_itoa SetBytes_nonneg mv\<close>)
  have "rendered c t b ((ms @ [m1]) @ [m2]) ((fst st @ [?d1]) @ [?d2], (snd st + 1) + 1)"
    by (rule rendered_newDelta [OF one, unfolded fst_conv snd_conv])
       (use meta in \<open>simp_all add: normalize_address [OF g] SetString10_itoa mv\<close>)
  moreover have "transfer_step g c t b st l = ((fst st @ [?d1]) @ [?d2], (snd st + 1) + 1)"
    using True by (simp add: transfer_step_def Let_def who [simplified])
  ultimately show ?thesis using True by (simp add: tm)
qed (use st in \<open>simp add: transfer_step_def\<close>)

lemma rendered_transfers:
  assumes g: "geth_ok g"
  shows "rendered c t b ms st \<Longrightarrow>
    rendered c t b (ms @ concat (map token_moves (filter (is_transfer g) ls))) (foldl (transfer_step g c t b) st ls)"
proof (induction ls arbitrary: ms st)
  case (Cons l ls)
  from Cons.IH [OF rendered_transfer [OF g Cons.prems, of l]] show ?case by (cases "is_transfer g l") simp_all
qed simp

lemma extract_rendered:
  assumes g: "geth_ok g" and "rcStatus r \<noteq> ReceiptStatusFailed" "Sender g n tx = Some from"
    and "extractDeltas g c tx r n b = Inr ds"
  shows "\<exists>di. rendered c (hashHex g (etHash tx)) b (moves g tx r from) (ds, di)"
  using rendered_transfers [OF g rendered_native [OF g, of c tx b r "from"], of "rcLogs r"] assms(2-)
  by (simp add: extractDeltas_def moves_def) (metis prod.collapse)

text \<open>Movements of one asset cancel out.\<close>

definition net :: "eth_address option \<Rightarrow> movement list \<Rightarrow> int" where
  "net asset ms = sum_list (map mvAmount (filter (\<lambda>m. mvToken m = asset) ms))"

lemma net_append [simp]: "net a (xs @ ys) = net a xs + net a ys"
  by (simp add: net_def)

lemma net_tokens: "net a (concat (map token_moves ls)) = 0"
  by (induction ls) (simp_all add: net_def token_moves_def)

lemma net_native:
  assumes "0 \<le> etValue tx" and "etTo tx = None \<Longrightarrow> rcContractAddress r \<noteq> 0"
  shows "net a (native_moves tx r from) = 0"
  using assms by (cases "etTo tx") (auto simp: native_moves_def net_def)

lemma net_moves:
  assumes "0 \<le> etValue tx" and "etTo tx = None \<Longrightarrow> rcContractAddress r \<noteq> 0"
  shows "net a (moves g tx r from) = 0"
  using assms by (simp add: moves_def net_tokens net_native)

lemma sint_small: "k < 2 ^ 31 \<Longrightarrow> sint (of_nat k :: 32 word) = int k"
  by (simp add: signed_of_nat signed_take_bit_int_eq_self)


text \<open>The delta that the clustering side should receive for a movement.\<close>

definition delta_of :: "string \<Rightarrow> string \<Rightarrow> RawBlock \<Rightarrow> nat \<Rightarrow> movement \<Rightarrow> BalanceDelta" where
  "delta_of chainID txid block k m =
     \<lparr>bdChainID = chainID, bdTxID = txid, bdDeltaIndex = int k, bdAddress = canonical (mvWho m), bdAmount = Some (mvAmount m),
      bdKind = (if mvToken m = None then KindNative else KindToken), bdBlockHeight = rbHeight block, bdBlockHash = rbHash block,
      bdMeta = (case meta_of m of None \<Rightarrow> RawEmpty | Some j \<Rightarrow> RawDoc (JObj j))\<rparr>"

lemma meta_of_nonempty: "meta_of m \<noteq> Some []"
  by (auto simp: meta_of_def split: option.splits)

lemma renders_parse:
  assumes "renders c t b k m d" and "k < 2 ^ 31" and "in_int64 (rbHeight b)"
  shows "ParseMessage (delta_message d) = Inr (ParsedDelta (delta_of c t b k m))"
proof -
  have "ixDeltaIndex d = int k" using assms by (simp add: renders_def sint_small)
  moreover from assms(2) have "int k < 2 ^ 31" by simp
  ultimately have "ParseMessage (delta_message d) = Inr (ParsedDelta (decoded d (mvAmount m)))"
    using assms by (intro ParseMessage_delta) (auto simp: renders_def)
  moreover have "decoded d (mvAmount m) = delta_of c t b k m"
    using assms \<open>ixDeltaIndex d = int k\<close> meta_of_nonempty [of m]
    by (auto simp: renders_def decoded_def delta_of_def split: option.splits)
  ultimately show ?thesis by simp
qed

lemma rendered_parse:
  assumes r: "rendered c t b ms (ds, di)" and n: "length ds < 2 ^ 31" and h: "in_int64 (rbHeight b)"
  shows "map (\<lambda>d. ParseMessage (delta_message d)) ds = map (\<lambda>(k, m). Inr (ParsedDelta (delta_of c t b k m))) (enumerate 0 ms)"
proof (rule nth_equalityI)
  show "length (map (\<lambda>d. ParseMessage (delta_message d)) ds) = length (map (\<lambda>(k, m). Inr (ParsedDelta (delta_of c t b k m))) (enumerate 0 ms))"
    using r by (simp add: rendered_def)
  fix k
  assume "k < length (map (\<lambda>d. ParseMessage (delta_message d)) ds)"
  then have k: "k < length ds" "k < length ms" "k < 2 ^ 31" using r n by (auto simp: rendered_def)
  with r have "renders c t b k (ms ! k) (ds ! k)" by (simp add: rendered_def)
  from renders_parse [OF this k(3) h] k
  show "map (\<lambda>d. ParseMessage (delta_message d)) ds ! k = map (\<lambda>(k, m). Inr (ParsedDelta (delta_of c t b k m))) (enumerate 0 ms) ! k"
    by (simp add: nth_enumerate_eq)
qed

definition asset_of :: "IxBalanceDelta \<Rightarrow> string option" where
  "asset_of d = (if ixKind d = KindNative then None
     else case ixMeta d of Some [(k, JStr t)] \<Rightarrow> Some t | _ \<Rightarrow> Some [])"

lemma rendered_net:
  assumes "rendered c t b ms (ds, di)"
  shows "sum_list (map (\<lambda>d. the (SetString10 (ixAmount d))) (filter (\<lambda>d. asset_of d = map_option canonical a) ds)) = net a ms"
proof -
  define amt where "amt = (\<lambda>d :: IxBalanceDelta. the (SetString10 (ixAmount d)))"
  have "list_all2 (\<lambda>m d. amt d = mvAmount m \<and> asset_of d = map_option canonical (mvToken m)) ms ds"
    using assms by (auto simp: rendered_def list_all2_conv_all_nth renders_def asset_of_def amt_def meta_of_def KindNative_def KindToken_def
        split: option.splits)
  then have "sum_list (map amt (filter (\<lambda>d. asset_of d = map_option canonical a) ds)) = net a ms"
  proof (induction ms ds rule: list_all2_induct)
    case (Cons m ms d ds)
    have "map_option canonical (mvToken m) = map_option canonical a \<longleftrightarrow> mvToken m = a"
      by (cases "mvToken m"; cases a) (simp_all add: canonical_inj)
    then show ?case using Cons by (simp add: net_def)
  qed (simp add: net_def)
  then show ?thesis by (simp add: amt_def)
qed

text \<open>
  C8: what the indexer publishes for a transaction is what the consumer reads, and it is what the chain did. For a transaction
  that succeeded, the messages of the extracted deltas decode, in order, to the movements of its value and of its ERC-20 transfers,
  with the positions as indices, amounts without loss, and every address in one lower-case form.
\<close>

theorem extracted_deltas_arrive:
  assumes "geth_ok g" and "rcStatus r \<noteq> ReceiptStatusFailed" and "Sender g n tx = Some from"
    and "extractDeltas g c tx r n b = Inr ds" and "length ds < 2 ^ 31" and "in_int64 (rbHeight b)"
  shows "map (\<lambda>d. ParseMessage (delta_message d)) ds =
    map (\<lambda>(k, m). Inr (ParsedDelta (delta_of c (hashHex g (etHash tx)) b k m))) (enumerate 0 (moves g tx r from))"
  using extract_rendered [OF assms(1-4)] rendered_parse [OF _ assms(5,6)] by blast

text \<open>
  C28: extraction conserves every asset. The amounts of the native deltas of a transaction add up to zero, and so do those of the deltas
  of every token contract; a transaction that was reverted has no deltas.
\<close>

theorem extraction_conserves:
  assumes "geth_ok g" and "extractDeltas g c tx r n b = Inr ds" and "0 \<le> etValue tx"
    and "etTo tx = None \<Longrightarrow> rcContractAddress r \<noteq> 0"
  shows "sum_list (map (\<lambda>d. the (SetString10 (ixAmount d))) (filter (\<lambda>d. asset_of d = map_option canonical a) ds)) = 0 \<and>
    (rcStatus r = ReceiptStatusFailed \<longrightarrow> ds = [])"
proof (cases "rcStatus r = ReceiptStatusFailed")
  case True
  then show ?thesis using assms(2) by (auto simp: extractDeltas_def)
next
  case False
  then obtain from' where from': "Sender g n tx = Some from'" using assms(2) by (auto simp: extractDeltas_def split: option.splits)
  with extract_rendered [OF assms(1) False from' assms(2)] rendered_net net_moves [OF assms(3,4)] False show ?thesis by metis
qed


section \<open>A concrete transaction\<close>

fun unhex :: "nat \<Rightarrow> string \<Rightarrow> nat" where
  "unhex acc [] = acc"
| "unhex acc (c # cs) = unhex (acc * 16 + (let n = (of_char c :: nat) in if n < 58 then n - 48 else n - 87)) cs"

definition sample_geth :: geth where
  "sample_geth =
     \<lparr>hashHex = (\<lambda>h. ''0x'' @ hexlow 64 (unat h)), addressHex = (\<lambda>a. ''0x'' @ hexlow 40 (unat a)),
      HexToAddress = (\<lambda>s. of_nat (unhex 0 (drop 2 s))), Keccak256Hash = (\<lambda>s. of_nat (length s)), Sender = (\<lambda>n tx. Some 17)\<rparr>"

definition sample_transfer :: EthLog where
  "sample_transfer = \<lparr>lgAddress = 34, lgTopics = [33, 17, 51], lgData = [1, 0]\<rparr>"

definition sample_eth_tx :: Transaction where
  "sample_eth_tx = \<lparr>etHash = 5, etValue = 9, etTo = Some 18\<rparr>"

definition sample_receipt :: Receipt where
  "sample_receipt = \<lparr>rcStatus = 1, rcContractAddress = 0, rcLogs = [sample_transfer]\<rparr>"

definition sample_raw_block :: RawBlock where
  "sample_raw_block = \<lparr>rbHeight = 7, rbHash = ''0xb7'', rbParentHash = ''0xb6''\<rparr>"

lemma unhex_append: "unhex acc (xs @ ys) = unhex (unhex acc xs) ys"
  by (induction xs arbitrary: acc) auto

lemma unhex_hexlow: "v < 16 ^ n \<Longrightarrow> unhex 0 (hexlow n v) = v"
proof (induction n arbitrary: v)
  case (Suc n)
  have "v div 16 < 16 ^ n" using Suc.prems by (auto simp: less_mult_imp_div_less)
  with Suc.IH show ?case by (simp add: unhex_append)
qed simp

lemma lower_hex_char: "d < 16 \<Longrightarrow> lower_char (hex_char d) = hex_char d"
  by (simp add: lower_char_def)

lemma ToLower_hexlow: "ToLower (hexlow n v) = hexlow n v"
  by (induction n arbitrary: v) (simp_all add: ToLower_def lower_hex_char)

lemma sample_geth_ok: "geth_ok sample_geth"
proof -
  have "ToLower (''0x'' @ hexlow 40 (unat a)) = ''0x'' @ hexlow 40 (unat a)" for a :: eth_address
  proof -
    have "ToLower (''0x'' @ s) = ''0x'' @ ToLower s" for s by (simp add: ToLower_def) code_simp
    then show ?thesis by (simp only: ToLower_hexlow)
  qed
  moreover have "(of_nat (unhex 0 (hexlow 64 (unat h))) :: eth_address) = ucast h" for h :: eth_hash
  proof -
    have "unat h < 16 ^ 64" using unsigned_less [of h, where 'a = nat] by simp
    then show ?thesis by (simp add: unhex_hexlow)
  qed
  ultimately show ?thesis by (simp add: geth_ok_def sample_geth_def)
qed

lemma sample_extract:
  "\<exists>ds. extractDeltas sample_geth ''eth'' sample_eth_tx sample_receipt 1 sample_raw_block = Inr ds \<and> length ds = 4"
  by (simp add: extractDeltas_def sample_receipt_def sample_eth_tx_def ReceiptStatusFailed_def spend_side_def receive_side_def
      sample_geth_def transfer_step_def is_transfer_def transferTopic_def sample_transfer_def Let_def)

theorem extracted_deltas_arrive_witness:
  "\<exists>ds. extractDeltas sample_geth ''eth'' sample_eth_tx sample_receipt 1 sample_raw_block = Inr ds \<and> length ds = 4 \<and>
     map (\<lambda>d. ParseMessage (delta_message d)) ds =
     map (\<lambda>(k, m). Inr (ParsedDelta (delta_of ''eth'' (hashHex sample_geth 5) sample_raw_block k m)))
       (enumerate 0 (moves sample_geth sample_eth_tx sample_receipt 17))"
proof -
  obtain ds where ds: "extractDeltas sample_geth ''eth'' sample_eth_tx sample_receipt 1 sample_raw_block = Inr ds" "length ds = 4"
    using sample_extract by blast
  with extracted_deltas_arrive [OF sample_geth_ok, of sample_receipt 1 sample_eth_tx 17 "''eth''" sample_raw_block ds] show ?thesis
    by (simp add: sample_receipt_def ReceiptStatusFailed_def sample_geth_def sample_eth_tx_def in_int64_def sample_raw_block_def)
qed

theorem extraction_conserves_witness:
  "\<exists>ds. extractDeltas sample_geth ''eth'' sample_eth_tx sample_receipt 1 sample_raw_block = Inr ds \<and> length ds = 4 \<and>
     sum_list (map (\<lambda>d. the (SetString10 (ixAmount d))) (filter (\<lambda>d. asset_of d = Some (canonical 34)) ds)) = 0"
proof -
  obtain ds where ds: "extractDeltas sample_geth ''eth'' sample_eth_tx sample_receipt 1 sample_raw_block = Inr ds" "length ds = 4"
    using sample_extract by blast
  with extraction_conserves [OF sample_geth_ok ds(1), of "Some 34"] show ?thesis by (simp add: sample_eth_tx_def)
qed


section \<open>Consequences for the clustering service\<close>

definition arrives :: "IxBalanceDelta list \<Rightarrow> BalanceDelta list \<Rightarrow> bool" where
  "arrives ds bds \<longleftrightarrow> map (\<lambda>d. ParseMessage (delta_message d)) ds = map (\<lambda>b. Inr (ParsedDelta b)) bds"

lemma arrives_moves:
  assumes "geth_ok g" and "rcStatus r \<noteq> ReceiptStatusFailed" and "Sender g n tx = Some from"
    and "extractDeltas g c tx r n b = Inr ds" and "length ds < 2 ^ 31" and "in_int64 (rbHeight b)" and "arrives ds bds"
  shows "bds = map (\<lambda>(k, m). delta_of c (hashHex g (etHash tx)) b k m) (enumerate 0 (moves g tx r from))"
proof -
  obtain di where di: "rendered c (hashHex g (etHash tx)) b (moves g tx r from) (ds, di)" using extract_rendered [OF assms(1-4)] by blast
  have "map (\<lambda>b. Inr (ParsedDelta b) :: error + parsed) bds =
      map (\<lambda>b. Inr (ParsedDelta b)) (map (\<lambda>(k, m). delta_of c (hashHex g (etHash tx)) b k m) (enumerate 0 (moves g tx r from)))"
    using rendered_parse [OF di assms(5,6)] assms(7) unfolding arrives_def case_prod_unfold by (simp add: comp_def)
  moreover have "inj (\<lambda>b. Inr (ParsedDelta b) :: error + parsed)" by (simp add: inj_def)
  ultimately show ?thesis using map_injective by blast
qed

lemma moves_member:
  assumes "m \<in> set ms" and "bds = map (\<lambda>(k, m). delta_of c t b k m) (enumerate 0 ms)"
  shows "\<exists>d \<in> set bds. bdAmount d = Some (mvAmount m)"
  using assms by (force simp: in_set_conv_nth nth_enumerate_eq delta_of_def)

lemma read_tags_in_range:
  "foldE read_tag acc q s = (Inr r, s') \<Longrightarrow> \<forall>(d, v) \<in> set q. \<bar>v\<bar> < 10 ^ 78"
proof (induction q arbitrary: acc s)
  case (Cons x q)
  then show ?case
    by (auto simp: bnd_Inr read_tag_def stmt_def insert_delta_def split: outcome.splits if_splits prod.splits)
qed simp

lemma Ingest_overflow:
  assumes "d \<in> set ds" and "bdAmount d = Some v" and "10 ^ 78 \<le> \<bar>v\<bar>"
  shows "\<exists>e s'. Ingest ho ds s = (Inl e, s') \<and> tblDelta s' = tblDelta s"
proof (cases "queue_deltas ds")
  case (Inl e)
  then show ?thesis using assms(1) by (auto simp: Ingest_def throw_def)
next
  case (Inr q)
  have "(d, v) \<in> set q" using queue_deltas_Inr [OF Inr] assms(1,2) by force
  with read_tags_in_range assms(3)
  have fail: "\<nexists>r s'. foldE read_tag \<lparr>irInserted = 0, irSkipped = 0\<rparr> q s = (Inr r, s')" by fastforce
  then obtain e s1 where "foldE read_tag \<lparr>irInserted = 0, irSkipped = 0\<rparr> q s = (Inl e, s1)" by (metis sum.exhaust surj_pair)
  with Inr assms(1) show ?thesis by (auto simp: Ingest_def send_batch_def bnd_def rollback_def)
qed


definition oversized_transfer :: EthLog where
  "oversized_transfer = sample_transfer\<lparr>lgData := replicate 33 255\<rparr>"

lemma arrives_extracted:
  assumes "geth_ok g" and "rcStatus r \<noteq> ReceiptStatusFailed" and "Sender g n tx = Some from"
    and "extractDeltas g c tx r n b = Inr ds" and "length ds < 2 ^ 31" and "in_int64 (rbHeight b)"
  obtains bds where "arrives ds bds"
proof -
  obtain di where di: "rendered c (hashHex g (etHash tx)) b (moves g tx r from) (ds, di)" using extract_rendered [OF assms(1-4)] by blast
  show thesis
    by (rule that [of "map (\<lambda>(k, m). delta_of c (hashHex g (etHash tx)) b k m) (enumerate 0 (moves g tx r from))"])
       (use rendered_parse [OF di assms(5,6)] in \<open>unfold arrives_def case_prod_unfold, simp add: comp_def\<close>)
qed


text \<open>
  A contract deployed without value is never joined to its deployer. Extraction flags the contract with a delta of amount zero,
  and the deployer engine skips amounts that are not positive, whatever the database holds.
\<close>

theorem zero_value_deployment_unseen:
  assumes "geth_ok g" and "rcStatus r \<noteq> ReceiptStatusFailed" and "Sender g n tx = Some from"
    and "extractDeltas g c tx r n b = Inr ds" and "length ds < 2 ^ 31" and "in_int64 (rbHeight b)"
    and "etTo tx = None" and "etValue tx = 0" and "arrives ds bds"
    and "driver_ok (drv s)" and "Deployer_Generate bds s = (Inr cs, s')"
  shows "cs = []"
proof -
  have keys: "ToLower ''token_contract'' \<noteq> ToLower ''contract_creation''" by code_simp
  have "\<not> (positive d \<and> isContractCreationDelta d)" if d: "d \<in> set bds" for d
  proof -
    from d arrives_moves [OF assms(1-6,9)] obtain k m where m: "m \<in> set (moves g tx r from)" "d = delta_of c (hashHex g (etHash tx)) b k m"
      by (auto simp: in_set_enumerate_eq) (metis nth_mem)
    then show ?thesis using assms(7,8) keys
      by (auto simp: moves_def native_moves_def token_moves_def delta_of_def meta_of_def positive_def isContractCreationDelta_def MetaTokenContract_def
          split: if_splits)
  qed
  then have "deployer_of s cfg t = []" if "t \<in> set (GroupByTx bds)" for cfg t
    using GroupByTx_nonempty [OF that] by (auto simp: deployer_of_def Let_def filter_empty_conv)
  then have "deployer_spec s bds = []" by (auto simp: deployer_spec_def configured_def split: option.splits)
  then show ?thesis using deployer.generate_value [OF assms(10,11)] by simp
qed

theorem zero_value_deployment_unseen_witness:
  "\<exists>ds bds. extractDeltas sample_geth ''eth'' (sample_eth_tx\<lparr>etValue := 0, etTo := None\<rparr>) (sample_receipt\<lparr>rcContractAddress := 99, rcLogs := []\<rparr>) 1
       sample_raw_block = Inr ds \<and> length ds = 1 \<and> arrives ds bds \<and> fst (Deployer_Generate bds sample_engines_db) = Inr []"
proof -
  let ?r = "sample_receipt\<lparr>rcContractAddress := 99, rcLogs := []\<rparr>" and ?t = "sample_eth_tx\<lparr>etValue := 0, etTo := None\<rparr>"
  obtain ds where ds: "extractDeltas sample_geth ''eth'' ?t ?r 1 sample_raw_block = Inr ds" "length ds = 1"
    by (simp add: extractDeltas_def sample_receipt_def sample_eth_tx_def ReceiptStatusFailed_def spend_side_def receive_side_def sample_geth_def)
  have ok: "rcStatus ?r \<noteq> ReceiptStatusFailed" "Sender sample_geth 1 ?t = Some 17" "length ds < 2 ^ 31" "in_int64 (rbHeight sample_raw_block)"
    and t: "etTo ?t = None" "etValue ?t = 0"
    using ds(2) by (simp_all add: sample_receipt_def ReceiptStatusFailed_def sample_geth_def in_int64_def sample_raw_block_def)
  obtain bds where bds: "arrives ds bds" by (rule arrives_extracted [OF sample_geth_ok ok(1,2) ds(1) ok(3,4)])
  note run = deployer.generate_succeeds [OF driver_sample_engines, of bds]
  from zero_value_deployment_unseen [OF sample_geth_ok ok(1,2) ds(1) ok(3,4) t bds driver_sample_engines(1) run] run ds bds show ?thesis by fastforce
qed

end
