(* ===== verification/IndexerLoop.thy ===== *)
theory IndexerLoop
  imports EthereumAdapter
begin

text \<open>
  The indexer's worker (\<open>blockchain-indexer/cmd/indexer/main.go\<close>), its reorg detector
  (\<open>internal/reorg/detector.go\<close>) and publisher (\<open>internal/kafka/publisher.go\<close>): one chain is followed block by block,
  the deltas of a block are published, and then block and cursor are recorded.

  The node, the topic and the database are the environment. What the node answers may change with every request
  (\<open>inNode\<close> is indexed by a request counter), a statement succeeds, fails or loses its reply as \<open>inSchedule\<close> says, and a write
  to the topic either succeeds or fails with some of its messages written. The generated query code of
  \<open>internal/state\<close> is the statements it runs.
\<close>

section \<open>State\<close>

record EthBlock =
  ebNumber :: int
  ebHash :: eth_hash
  ebParentHash :: eth_hash
  ebTime :: int
  ebTransactions :: "Transaction list"

record NodeView =
  nvBlockNumber :: "int option"
  nvBlockByNumber :: "int \<Rightarrow> EthBlock option"
  nvHeaderHash :: "int \<Rightarrow> eth_hash option"
  nvReceipt :: "eth_hash \<Rightarrow> Receipt option"

record StoredBlock =
  sbChainID :: string
  sbHeight :: int
  sbHash :: string
  sbParentHash :: string
  sbTimestamp :: int

record backoff =
  boCur :: int
  boMax :: int

record indexer =
  inNode :: "nat \<Rightarrow> NodeView"
  inRequests :: nat
  inSchedule :: "outcome list"
  inWrites :: "bool list option list"
  inChains :: "string list"
  inBlocks :: "StoredBlock list"
  inCursors :: "(string \<times> int) list"
  inTopic :: "(string \<times> RawMessage) list"
  inBackoff :: backoff
  inSlept :: "int list"

type_synonym 'a index = "(indexer, 'a) io"


section \<open>Node, database and topic\<close>

definition node_call :: "string \<Rightarrow> (NodeView \<Rightarrow> 'a option) \<Rightarrow> 'a index" where
  "node_call msg f s =
     (let s1 = s\<lparr>inRequests := inRequests s + 1\<rparr> in
      case f (inNode s (inRequests s)) of
        None \<Rightarrow> (Inl (ErrWrap msg (ErrMsg ''rpc'')), s1)
      | Some x \<Rightarrow> (Inr x, s1))"

definition LatestHeight :: "int index" where
  "LatestHeight = node_call ''latest height'' nvBlockNumber"

definition FetchBlock :: "int \<Rightarrow> EthBlock index" where
  "FetchBlock height = node_call ''fetch block'' (\<lambda>v. nvBlockByNumber v height)"

definition to_RawBlock :: "geth \<Rightarrow> EthBlock \<Rightarrow> RawBlock" where
  "to_RawBlock g block = \<lparr>rbHeight = ebNumber block, rbHash = hashHex g (ebHash block), rbParentHash = hashHex g (ebParentHash block)\<rparr>"

definition BlockHash :: "geth \<Rightarrow> int \<Rightarrow> string index" where
  "BlockHash g height = bnd (node_call ''header'' (\<lambda>v. nvHeaderHash v height)) (\<lambda>h. ret (hashHex g h))"

definition Extract :: "geth \<Rightarrow> int \<Rightarrow> string \<Rightarrow> Transaction \<Rightarrow> RawBlock \<Rightarrow> IxBalanceDelta list index" where
  "Extract g networkChainID chainID tx block =
     bnd (node_call ''receipt'' (\<lambda>v. nvReceipt v (etHash tx))) (\<lambda>receipt.
     case extractDeltas g chainID tx receipt networkChainID block of Inl e \<Rightarrow> throw e | Inr ds \<Rightarrow> ret ds)"

definition ix_stmt :: "(indexer \<Rightarrow> (string + 'a) \<times> indexer) \<Rightarrow> 'a index" where
  "ix_stmt f s =
     (let s1 = s\<lparr>inSchedule := tl (inSchedule s)\<rparr> in
      case (if inSchedule s = [] then Done else hd (inSchedule s)) of
        Failed \<Rightarrow> (Inl (ErrDb ''statement failed''), s1)
      | Done \<Rightarrow> (case f s1 of (Inl e, s2) \<Rightarrow> (Inl (ErrDb e), s2) | (Inr x, s2) \<Rightarrow> (Inr x, s2))
      | Lost \<Rightarrow> (case f s1 of (Inl e, s2) \<Rightarrow> (Inl (ErrDb e), s2) | (Inr x, s2) \<Rightarrow> (Inl (ErrDb ''connection lost''), s2)))"

text \<open>A transaction: an error before the commit restores the tables, a commit whose reply is lost has happened.\<close>

definition ix_rollback :: "indexer \<Rightarrow> indexer \<Rightarrow> indexer" where
  "ix_rollback s0 s = s\<lparr>inBlocks := inBlocks s0, inCursors := inCursors s0\<rparr>"

definition ix_transaction :: "'a index \<Rightarrow> 'a index" where
  "ix_transaction body s =
     (case wrap ''begin'' (ix_stmt (\<lambda>s. (Inr (), s))) s of
        (Inl e, s1) \<Rightarrow> (Inl e, s1)
      | (Inr _, s1) \<Rightarrow>
          (case body s1 of
             (Inl e, s2) \<Rightarrow> (Inl e, ix_rollback s1 s2)
           | (Inr x, s2) \<Rightarrow>
               let s3 = s2\<lparr>inSchedule := tl (inSchedule s2)\<rparr> in
               (case (if inSchedule s2 = [] then Done else hd (inSchedule s2)) of
                  Done \<Rightarrow> (Inr x, s3)
                | Failed \<Rightarrow> (Inl (ErrDb ''commit failed''), ix_rollback s1 s3)
                | Lost \<Rightarrow> (Inl (ErrDb ''connection lost''), s3))))"

definition at_height :: "string \<Rightarrow> int \<Rightarrow> StoredBlock \<Rightarrow> bool" where
  "at_height chainID height b \<longleftrightarrow> sbChainID b = chainID \<and> sbHeight b = height"

definition GetBlockHash :: "string \<Rightarrow> int \<Rightarrow> string option index" where
  "GetBlockHash chainID height = ix_stmt (\<lambda>s. (Inr (map_option sbHash (find (at_height chainID height) (inBlocks s))), s))"

definition InsertBlock :: "StoredBlock \<Rightarrow> unit index" where
  "InsertBlock b = ix_stmt (\<lambda>s.
     if sbChainID b \<notin> set (inChains s) then (Inl ''foreign key violation'', s)
     else if \<exists>b' \<in> set (inBlocks s). sbChainID b' = sbChainID b \<and> sbHash b' = sbHash b then (Inr (), s)
     else (Inr (), s\<lparr>inBlocks := inBlocks s @ [b]\<rparr>))"

definition DeleteBlocksFromHeight :: "string \<Rightarrow> int \<Rightarrow> unit index" where
  "DeleteBlocksFromHeight chainID height = ix_stmt (\<lambda>s.
     (Inr (), s\<lparr>inBlocks := filter (\<lambda>b. \<not> (sbChainID b = chainID \<and> height \<le> sbHeight b)) (inBlocks s)\<rparr>))"

definition GetHeight :: "string \<Rightarrow> int option index" where
  "GetHeight chainID = ix_stmt (\<lambda>s. (Inr (map_of (inCursors s) chainID), s))"

definition UpsertCursor :: "string \<Rightarrow> int \<Rightarrow> unit index" where
  "UpsertCursor chainID height = ix_stmt (\<lambda>s.
     if chainID \<notin> set (inChains s) then (Inl ''foreign key violation'', s)
     else (Inr (), s\<lparr>inCursors := AList.update chainID height (inCursors s)\<rparr>))"

text \<open>\<open>WriteMessages\<close>: on failure an arbitrary part of the messages may have been written.\<close>

definition WriteMessages :: "(string \<times> RawMessage) list \<Rightarrow> unit index" where
  "WriteMessages msgs s =
     (if msgs = [] then (Inr (), s)
      else let s1 = s\<lparr>inWrites := tl (inWrites s)\<rparr> in
        case (if inWrites s = [] then None else hd (inWrites s)) of
          None \<Rightarrow> (Inr (), s1\<lparr>inTopic := inTopic s @ msgs\<rparr>)
        | Some written \<Rightarrow> (Inl (ErrMsg ''kafka: write failed''), s1\<lparr>inTopic := inTopic s @ map fst (filter snd (zip msgs written))\<rparr>))"

definition PublishDeltas :: "IxBalanceDelta list \<Rightarrow> unit index" where
  "PublishDeltas deltas = WriteMessages (map (\<lambda>d. (ixChainID d, delta_message d)) deltas)"

definition PublishReorg :: "ReorgEvent \<Rightarrow> unit index" where
  "PublishReorg event = WriteMessages [(reChainID event, reorg_message event)]"


section \<open>The reorg detector\<close>

definition IsContinuous :: "string \<Rightarrow> int \<Rightarrow> string \<Rightarrow> bool index" where
  "IsContinuous chainID newHeight newParentHash =
     bnd (GetBlockHash chainID (newHeight - 1)) (\<lambda>stored.
     case stored of None \<Rightarrow> ret True | Some storedHash \<Rightarrow> ret (storedHash = newParentHash))"

text \<open>The loop of \<open>FindRollback\<close> ends because the reads leave the finitely many stored blocks alone.\<close>

definition below :: "string \<Rightarrow> int \<Rightarrow> StoredBlock \<Rightarrow> bool" where
  "below chainID h b \<longleftrightarrow> sbChainID b = chainID \<and> sbHeight b \<le> h"

lemma below_decreases:
  assumes "\<exists>b \<in> set bs. at_height chainID h b"
  shows "length (filter (below chainID (h - 1)) bs) < length (filter (below chainID h) bs)"
proof -
  obtain b where b: "b \<in> set bs" "at_height chainID h b" using assms by blast
  have "filter (below chainID (h - 1)) bs = filter (below chainID (h - 1)) (filter (below chainID h) bs)"
    by (auto simp: below_def intro: filter_cong)
  also have "length \<dots> < length (filter (below chainID h) bs)"
    using b by (intro length_filter_less [of b]) (auto simp: below_def at_height_def)
  finally show ?thesis .
qed

lemma GetBlockHash_found:
  assumes "GetBlockHash chainID h s = (Inr (Some hash), s1)"
  shows "inBlocks s1 = inBlocks s \<and> (\<exists>b \<in> set (inBlocks s). at_height chainID h b \<and> sbHash b = hash)"
  using assms
  by (auto simp: GetBlockHash_def ix_stmt_def Let_def find_Some_iff split: outcome.splits if_splits intro: nth_mem)

lemma BlockHash_blocks: "BlockHash g h s = (r, s1) \<Longrightarrow> inBlocks s1 = inBlocks s"
  by (auto simp: BlockHash_def node_call_def bnd_def ret_def Let_def split: option.splits)

function rollback_loop :: "geth \<Rightarrow> string \<Rightarrow> int \<Rightarrow> string list \<Rightarrow> indexer \<Rightarrow> (error + string list \<times> int) \<times> indexer" where
  "rollback_loop g chainID h rolledBack s =
     (case GetBlockHash chainID h s of
        (Inl e, s1) \<Rightarrow> (Inl e, s1)
      | (Inr None, s1) \<Rightarrow> (Inr (rolledBack, h), s1)
      | (Inr (Some storedHash), s1) \<Rightarrow>
          (case BlockHash g h s1 of
             (Inl e, s2) \<Rightarrow> (Inl e, s2)
           | (Inr actualHash, s2) \<Rightarrow>
               if storedHash = actualHash then (Inr (rolledBack, h), s2)
               else rollback_loop g chainID (h - 1) (rolledBack @ [storedHash]) s2))"
  by pat_completeness auto
termination
proof (relation "measure (\<lambda>(g, chainID, h, rb, s). length (filter (below chainID h) (inBlocks s)))")
  fix g chainID h rolledBack s p q s1 opt hash p' q' s2 actual
  assume "(q, s1) = GetBlockHash chainID h s" "q = Inr opt" "opt = Some hash" "(q', s2) = BlockHash g h s1"
  then have "inBlocks s2 = inBlocks s" and "\<exists>b \<in> set (inBlocks s). at_height chainID h b"
    using GetBlockHash_found [of chainID h s hash s1] BlockHash_blocks [of g h s1 q' s2] by auto
  then show "((g, chainID, h - 1, rolledBack @ [hash], s2), g, chainID, h, rolledBack, s)
      \<in> measure (\<lambda>(g, chainID, h, rb, s). length (filter (below chainID h) (inBlocks s)))"
    using below_decreases by simp
qed simp

declare rollback_loop.simps [simp del]

definition FindRollback :: "geth \<Rightarrow> string \<Rightarrow> int \<Rightarrow> (string list \<times> int) index" where
  "FindRollback g chainID newHeight = rollback_loop g chainID (newHeight - 1) []"


section \<open>The worker\<close>

text \<open>Durations are in seconds.\<close>

definition newBackoff :: backoff where
  "newBackoff = \<lparr>boCur = 1, boMax = 60\<rparr>"

definition backoff_next :: "backoff \<Rightarrow> int \<times> backoff" where
  "backoff_next b = (boCur b, b\<lparr>boCur := min (boCur b * 2) (boMax b)\<rparr>)"

definition backoff_reset :: "backoff \<Rightarrow> backoff" where
  "backoff_reset b = b\<lparr>boCur := 1\<rparr>"

definition sleep :: "int \<Rightarrow> indexer \<Rightarrow> indexer" where
  "sleep d s = s\<lparr>inSlept := inSlept s @ [d]\<rparr>"

definition persistBlockAndCursor :: "string \<Rightarrow> int \<Rightarrow> string \<Rightarrow> string \<Rightarrow> int \<Rightarrow> unit index" where
  "persistBlockAndCursor chainID height hash parentHash blockTime = ix_transaction (
     bnd (wrap ''insert block'' (InsertBlock \<lparr>sbChainID = chainID, sbHeight = height, sbHash = hash, sbParentHash = parentHash,
       sbTimestamp = blockTime\<rparr>)) (\<lambda>_.
     wrap ''update cursor'' (UpsertCursor chainID height)))"

definition handleReorg :: "geth \<Rightarrow> string \<Rightarrow> int \<Rightarrow> unit index" where
  "handleReorg g chainID newHeight =
     bnd (wrap ''find rollback'' (FindRollback g chainID newHeight)) (\<lambda>(rolledBack, ancestor).
     bnd (wrap ''publish reorg'' (PublishReorg \<lparr>reType = [], reChainID = chainID, reRolledBackBlockHashes = rolledBack\<rparr>)) (\<lambda>_.
     bnd (wrap ''delete orphans'' (DeleteBlocksFromHeight chainID (ancestor + 1))) (\<lambda>_.
     wrap ''reset cursor'' (UpsertCursor chainID ancestor))))"

text \<open>The deltas of a block: a transaction that cannot be extracted is logged and skipped.\<close>

fun extract_block :: "geth \<Rightarrow> int \<Rightarrow> string \<Rightarrow> RawBlock \<Rightarrow> Transaction list \<Rightarrow> IxBalanceDelta list index" where
  "extract_block g n chainID block [] s = (Inr [], s)"
| "extract_block g n chainID block (tx # txs) s =
     (case Extract g n chainID tx block s of
        (Inl e, s1) \<Rightarrow> extract_block g n chainID block txs s1
      | (Inr ds, s1) \<Rightarrow> bnd (extract_block g n chainID block txs) (\<lambda>rest. ret (ds @ rest)) s1)"

text \<open>One turn of \<open>runEthereumLoop\<close>: an error is logged and answered with a growing pause.\<close>

datatype turn = Idle | Reorged | Indexed

definition index_block :: "geth \<Rightarrow> int \<Rightarrow> string \<Rightarrow> int \<Rightarrow> turn index" where
  "index_block g n chainID next =
     bnd (FetchBlock next) (\<lambda>block.
     let rawBlock = to_RawBlock g block in
     bnd (IsContinuous chainID next (rbParentHash rawBlock)) (\<lambda>continuous.
     if \<not> continuous then bnd (handleReorg g chainID next) (\<lambda>_. ret Reorged)
     else
       bnd (extract_block g n chainID rawBlock (ebTransactions block)) (\<lambda>deltas.
       bnd (PublishDeltas deltas) (\<lambda>_.
       bnd (persistBlockAndCursor chainID next (rbHash rawBlock) (rbParentHash rawBlock) (ebTime block)) (\<lambda>_.
       ret Indexed)))))"

definition index_turn :: "geth \<Rightarrow> int \<Rightarrow> string \<Rightarrow> int \<Rightarrow> turn index" where
  "index_turn g n chainID startHeight =
     bnd LatestHeight (\<lambda>latest.
     bnd (GetHeight chainID) (\<lambda>cursor.
     let height = (case cursor of Some h \<Rightarrow> h | None \<Rightarrow> if 0 < startHeight then startHeight - 1 else latest - 1) in
     if latest \<le> height then ret Idle else index_block g n chainID (height + 1)))"

definition loop_step :: "geth \<Rightarrow> int \<Rightarrow> string \<Rightarrow> int \<Rightarrow> indexer \<Rightarrow> indexer" where
  "loop_step g n chainID startHeight s =
     (case index_turn g n chainID startHeight s of
        (Inl e, s1) \<Rightarrow> (case backoff_next (inBackoff s1) of (d, b) \<Rightarrow> sleep d (s1\<lparr>inBackoff := b\<rparr>))
      | (Inr Idle, s1) \<Rightarrow> sleep 10 (s1\<lparr>inBackoff := backoff_reset (inBackoff s1)\<rparr>)
      | (Inr Reorged, s1) \<Rightarrow> s1
      | (Inr Indexed, s1) \<Rightarrow> s1\<lparr>inBackoff := backoff_reset (inBackoff s1)\<rparr>)"

text \<open>The loop, for the number of turns it makes before its context is cancelled.\<close>

fun runEthereumLoop :: "nat \<Rightarrow> geth \<Rightarrow> int \<Rightarrow> string \<Rightarrow> int \<Rightarrow> indexer \<Rightarrow> indexer" where
  "runEthereumLoop 0 g n chainID startHeight s = s"
| "runEthereumLoop (Suc k) g n chainID startHeight s = runEthereumLoop k g n chainID startHeight (loop_step g n chainID startHeight s)"


section \<open>The common ancestor\<close>

definition stored :: "string \<Rightarrow> StoredBlock list \<Rightarrow> int \<Rightarrow> string option" where
  "stored chainID bs h = map_option sbHash (find (at_height chainID h) bs)"

definition node_hash :: "geth \<Rightarrow> indexer \<Rightarrow> nat \<Rightarrow> int \<Rightarrow> string option" where
  "node_hash g s t h = map_option (hashHex g) (nvHeaderHash (inNode s t) h)"

lemma GetBlockHash_cases:
  "(\<exists>e. GetBlockHash c h s = (Inl e, s\<lparr>inSchedule := tl (inSchedule s)\<rparr>)) \<or>
   GetBlockHash c h s = (Inr (stored c (inBlocks s) h), s\<lparr>inSchedule := tl (inSchedule s)\<rparr>)"
  by (auto simp: GetBlockHash_def ix_stmt_def Let_def stored_def split: outcome.splits)

lemma BlockHash_eq:
  "BlockHash g h s = (case node_hash g s (inRequests s) h of None \<Rightarrow> (Inl (ErrWrap ''header'' (ErrMsg ''rpc'')), s\<lparr>inRequests := inRequests s + 1\<rparr>)
     | Some x \<Rightarrow> (Inr x, s\<lparr>inRequests := inRequests s + 1\<rparr>))"
  by (simp add: BlockHash_def node_call_def bnd_def ret_def Let_def node_hash_def split: option.split)

definition unchanged :: "indexer \<Rightarrow> indexer \<Rightarrow> bool" where
  "unchanged s s' \<longleftrightarrow> inNode s' = inNode s \<and> inChains s' = inChains s \<and> inBlocks s' = inBlocks s \<and> inCursors s' = inCursors s \<and>
     inTopic s' = inTopic s \<and> inWrites s' = inWrites s \<and> inBackoff s' = inBackoff s \<and> inSlept s' = inSlept s"

lemma unchanged_refl [simp]: "unchanged s s"
  by (simp add: unchanged_def)

lemma unchanged_trans: "unchanged s t \<Longrightarrow> unchanged t u \<Longrightarrow> unchanged s u"
  by (simp add: unchanged_def)

lemma unchanged_upd [simp]:
  "unchanged s (t\<lparr>inSchedule := x\<rparr>) = unchanged s t" "unchanged s (t\<lparr>inRequests := k\<rparr>) = unchanged s t"
  by (simp_all add: unchanged_def)

text \<open>
  \<open>diverged\<close>: the stored hash at a height is not the one the node reports when asked; the node is asked once per height.
\<close>

definition diverged :: "geth \<Rightarrow> string \<Rightarrow> indexer \<Rightarrow> nat \<Rightarrow> int \<Rightarrow> bool" where
  "diverged g c s t h \<longleftrightarrow> (\<exists>x y. stored c (inBlocks s) h = Some x \<and> node_hash g s t h = Some y \<and> x \<noteq> y)"

definition asked :: "indexer \<Rightarrow> indexer" where
  "asked s = s\<lparr>inSchedule := tl (inSchedule s), inRequests := inRequests s + 1\<rparr>"

lemma asked_simps [simp]:
  "inNode (asked s) = inNode s" "inBlocks (asked s) = inBlocks s" "inRequests (asked s) = Suc (inRequests s)"
  "unchanged s (asked t) = unchanged s t" "inSchedule (asked s) = tl (inSchedule s)"
  "stored c (inBlocks (asked s)) = stored c (inBlocks s)" "node_hash g (asked s) = node_hash g s" "diverged g c (asked s) = diverged g c s"
  by (simp_all add: asked_def unchanged_def node_hash_def fun_eq_iff diverged_def)

text \<open>What one round of the loop does, by the outcome of its two reads.\<close>

lemma rollback_loop_cases:
  obtains (failed) e s1 where "rollback_loop g c h rb s = (Inl e, s1)" "unchanged s s1" "inSchedule s \<noteq> [] \<or> node_hash g s (inRequests s) h = None"
  | (bottom) "rollback_loop g c h rb s = (Inr (rb, h), s\<lparr>inSchedule := tl (inSchedule s)\<rparr>)" "stored c (inBlocks s) h = None"
  | (common) x where "rollback_loop g c h rb s = (Inr (rb, h), asked s)" "stored c (inBlocks s) h = Some x" "node_hash g s (inRequests s) h = Some x"
  | (orphan) x where "rollback_loop g c h rb s = rollback_loop g c (h - 1) (rb @ [x]) (asked s)" "stored c (inBlocks s) h = Some x"
      "diverged g c s (inRequests s) h"
proof -
  let ?s1 = "s\<lparr>inSchedule := tl (inSchedule s)\<rparr>"
  have nh: "node_hash g ?s1 = node_hash g s" by (simp add: node_hash_def fun_eq_iff)
  have as: "?s1\<lparr>inRequests := inRequests ?s1 + 1\<rparr> = asked s" by (simp add: asked_def)
  consider (fail) e where "GetBlockHash c h s = (Inl e, ?s1)" | (ok) "GetBlockHash c h s = (Inr (stored c (inBlocks s) h), ?s1)"
    using GetBlockHash_cases by blast
  then show thesis
  proof cases
    case fail
    moreover from fail have "inSchedule s \<noteq> []" by (auto simp: GetBlockHash_def ix_stmt_def)
    ultimately show thesis by (intro failed [of e ?s1]) (simp_all add: rollback_loop.simps [of g c h])
  next
    case ok
    note round = rollback_loop.simps [of g c h rb s, unfolded ok]
    show thesis
    proof (cases "stored c (inBlocks s) h")
      case None
      then show thesis using round by (intro bottom) simp_all
    next
      case (Some x)
      then show thesis
        using round as common [of x] orphan [of x] failed
        by (cases "node_hash g s (inRequests s) h") (auto simp: BlockHash_eq nh diverged_def split: if_splits)
    qed
  qed
qed

lemma stored_Some: "stored c bs h = Some x \<Longrightarrow> \<exists>b \<in> set bs. at_height c h b \<and> sbHash b = x"
  by (auto simp: stored_def find_Some_iff intro: nth_mem)

lemma rollback_induct:
  assumes step: "\<And>h rb s. (\<And>x. stored c (inBlocks s) h = Some x \<Longrightarrow> P (h - 1) (rb @ [x]) (asked s)) \<Longrightarrow> P h rb s"
  shows "P h rb s"
proof (induction "length (filter (below c h) (inBlocks s))" arbitrary: h rb s rule: less_induct)
  case less
  show ?case
  proof (rule step)
    fix x
    assume "stored c (inBlocks s) h = Some x"
    then have "\<exists>b \<in> set (inBlocks s). at_height c h b" using stored_Some by blast
    from below_decreases [OF this] show "P (h - 1) (rb @ [x]) (asked s)" by (intro less) simp
  qed
qed

lemma asked_trans: "unchanged (asked s) t \<Longrightarrow> unchanged s t"
  by (simp add: unchanged_def asked_def)

lemma GetBlockHash_unchanged: "GetBlockHash c h s = (r, s1) \<Longrightarrow> unchanged s s1"
  using GetBlockHash_cases [of c h s] by auto

lemma rollback_loop_Inr:
  "rollback_loop g c h rb s = (Inr (rb', a), s') \<Longrightarrow>
     a \<le> h \<and> unchanged s s' \<and> (\<exists>hs. rb' = rb @ hs \<and> map Some hs = map (stored c (inBlocks s)) (rev [a + 1..h])) \<and>
     list_all (\<lambda>k. diverged g c s (inRequests s + nat (h - k)) k) [a + 1..h] \<and>
     (stored c (inBlocks s) a = None \<or> stored c (inBlocks s) a = node_hash g s (inRequests s + nat (h - a)) a)"
proof (induction h rb s rule: rollback_induct [of c])
  case (1 h rb s)
  show ?case
  proof (cases rule: rollback_loop_cases [of g c h rb s])
    case (orphan x)
    from orphan(1) 1(2) have run: "rollback_loop g c (h - 1) (rb @ [x]) (asked s) = (Inr (rb', a), s')" by simp
    note IH = 1(1) [OF orphan(2) run]
    have a: "a \<le> h - 1" using IH by simp
    then have up: "[a + 1..h] = [a + 1..h - 1] @ [h]" by (intro upto_rec2) simp
    have ask: "Suc (inRequests s + nat (h - 1 - k)) = inRequests s + nat (h - k)" if "k \<le> h - 1" for k using that by simp
    have "list_all (\<lambda>k. diverged g c s (inRequests s + nat (h - k)) k) [a + 1..h - 1]"
      using IH ask by (auto simp: list_all_iff)
    moreover have "stored c (inBlocks s) a = None \<or> stored c (inBlocks s) a = node_hash g s (inRequests s + nat (h - a)) a"
      using IH ask [OF a] by auto
    moreover have "\<exists>hs. rb' = rb @ hs \<and> map Some hs = map (stored c (inBlocks s)) (rev [a + 1..h])"
    proof -
      from IH obtain hs where "rb' = (rb @ [x]) @ hs" "map Some hs = map (stored c (inBlocks s)) (rev [a + 1..h - 1])" by auto
      then show ?thesis by (intro exI [of _ "x # hs"]) (simp add: up orphan(2))
    qed
    ultimately show ?thesis using IH a orphan(3) asked_trans [of s s'] by (simp add: up)
  qed (use 1(2) in auto)
qed

lemma rollback_loop_unchanged: "unchanged s (snd (rollback_loop g c h rb s))"
proof (induction h rb s rule: rollback_induct [of c])
  case (1 h rb s)
  let ?s1 = "s\<lparr>inSchedule := tl (inSchedule s)\<rparr>"
  show ?case
  proof (cases rule: rollback_loop_cases [of g c h rb s])
    case (orphan x)
    from 1 [OF orphan(2)] show ?thesis unfolding orphan(1) by (rule asked_trans)
  next
    case (failed e s1)
    then show ?thesis by simp
  qed simp_all
qed

lemma rollback_loop_succeeds:
  assumes "inSchedule s = []" and "\<And>t k. k \<le> h \<Longrightarrow> stored c (inBlocks s) k \<noteq> None \<Longrightarrow> node_hash g s t k \<noteq> None"
  shows "\<exists>res s'. rollback_loop g c h rb s = (Inr res, s')"
  using assms
proof (induction h rb s rule: rollback_induct [of c])
  case (1 h rb s)
  show ?case
  proof (cases rule: rollback_loop_cases [of g c h rb s])
    case (orphan x)
    have "\<exists>res s'. rollback_loop g c (h - 1) (rb @ [x]) (asked s) = (Inr res, s')"
      by (rule 1(1) [OF orphan(2)]) (use 1(2,3) in auto)
    then show ?thesis using orphan(1) by simp
  next
    case (failed e s1)
    then have "stored c (inBlocks s) h = None" using 1(2) 1(3) [of h "inRequests s"] by blast
    then show ?thesis using 1(2) by (simp add: rollback_loop.simps [of g c h] GetBlockHash_def ix_stmt_def stored_def)
  qed auto
qed


text \<open>
  C26: the reorg detector reports exactly the orphaned blocks. The hashes it returns are the stored ones of every height above the
  ancestor, from the top down; the node disagreed at each of these heights, and at the ancestor either nothing is stored or the node
  agrees. Nothing is written.
\<close>

theorem find_rollback_exact:
  assumes "FindRollback g c next s = (Inr (rb, a), s')"
  shows "a < next \<and> unchanged s s' \<and> map Some rb = map (stored c (inBlocks s)) (rev [a + 1..next - 1]) \<and>
      list_all (\<lambda>k. diverged g c s (inRequests s + nat (next - 1 - k)) k) [a + 1..next - 1] \<and>
      (stored c (inBlocks s) a = None \<or> stored c (inBlocks s) a = node_hash g s (inRequests s + nat (next - 1 - a)) a)"
  using rollback_loop_Inr [OF assms [unfolded FindRollback_def]] by auto

text \<open>
  The search for the common ancestor ends and succeeds. It visits only heights with a stored block, so it returns for every answer of
  the node; when the database answers and the node knows the headers of the stored heights, it returns an ancestor.
\<close>

theorem find_rollback_returns:
  assumes "inSchedule s = []" and "\<And>t k. k < next \<Longrightarrow> stored c (inBlocks s) k \<noteq> None \<Longrightarrow> node_hash g s t k \<noteq> None"
  shows "\<exists>rb a s'. FindRollback g c next s = (Inr (rb, a), s')"
proof -
  have "\<exists>res s'. rollback_loop g c (next - 1) [] s = (Inr res, s')"
    by (rule rollback_loop_succeeds) (use assms in auto)
  then show ?thesis by (auto simp: FindRollback_def)
qed


section \<open>What one turn does\<close>

definition same_tables :: "indexer \<Rightarrow> indexer \<Rightarrow> bool" where
  "same_tables s s' \<longleftrightarrow> inBlocks s' = inBlocks s \<and> inCursors s' = inCursors s"

definition same_env :: "indexer \<Rightarrow> indexer \<Rightarrow> bool" where
  "same_env s s' \<longleftrightarrow> inNode s' = inNode s \<and> inChains s' = inChains s"

lemma same_refl [simp]: "same_tables s s" "same_env s s"
  by (simp_all add: same_tables_def same_env_def)

lemma unchanged_same: "unchanged s s' \<Longrightarrow> same_tables s s' \<and> same_env s s' \<and> inTopic s' = inTopic s"
  by (simp add: unchanged_def same_tables_def same_env_def)

definition put_block :: "StoredBlock \<Rightarrow> StoredBlock list \<Rightarrow> StoredBlock list" where
  "put_block b bs = (if \<exists>b' \<in> set bs. sbChainID b' = sbChainID b \<and> sbHash b' = sbHash b then bs else bs @ [b])"

definition advanced :: "StoredBlock \<Rightarrow> indexer \<Rightarrow> indexer \<Rightarrow> bool" where
  "advanced b s s' \<longleftrightarrow> inBlocks s' = put_block b (inBlocks s) \<and> inCursors s' = AList.update (sbChainID b) (sbHeight b) (inCursors s)"

lemma ix_stmt_cases:
  assumes "ix_stmt f s = (r, s')"
  defines "s1 \<equiv> s\<lparr>inSchedule := tl (inSchedule s)\<rparr>"
  obtains (failed) "r = Inl (ErrDb ''statement failed'')" "s' = s1" "inSchedule s \<noteq> []"
  | (err) e where "f s1 = (Inl e, s')" "r = Inl (ErrDb e)"
  | (ok) x where "f s1 = (Inr x, s')" "r = Inr x"
  | (lost) x where "f s1 = (Inr x, s')" "r = Inl (ErrDb ''connection lost'')" "inSchedule s \<noteq> []"
  using assms by (auto simp: ix_stmt_def Let_def split: outcome.splits prod.splits sum.splits if_splits)

lemma node_call_unchanged: "node_call msg f s = (r, s') \<Longrightarrow> unchanged s s'"
  by (auto simp: node_call_def Let_def split: option.splits)

lemma InsertBlock_effect:
  assumes "InsertBlock b s = (r, s')"
  shows "same_env s s' \<and> inTopic s' = inTopic s \<and> inCursors s' = inCursors s \<and> (r = Inr () \<longrightarrow> inBlocks s' = put_block b (inBlocks s))"
  using assms unfolding InsertBlock_def
  by (cases rule: ix_stmt_cases) (auto simp: same_env_def put_block_def split: if_splits)

lemma UpsertCursor_effect:
  assumes "UpsertCursor c h s = (r, s')"
  shows "same_env s s' \<and> inTopic s' = inTopic s \<and> inBlocks s' = inBlocks s \<and>
    (inCursors s' = AList.update c h (inCursors s) \<or> (\<exists>e. r = Inl e) \<and> inCursors s' = inCursors s)"
  using assms unfolding UpsertCursor_def
  by (cases rule: ix_stmt_cases) (auto simp: same_env_def split: if_splits)

lemma DeleteBlocks_effect:
  assumes "DeleteBlocksFromHeight c h s = (r, s')"
  shows "same_env s s' \<and> inTopic s' = inTopic s \<and> inCursors s' = inCursors s \<and>
    (inBlocks s' = filter (\<lambda>b. \<not> (sbChainID b = c \<and> h \<le> sbHeight b)) (inBlocks s) \<or> (\<exists>e. r = Inl e) \<and> inBlocks s' = inBlocks s)"
  using assms unfolding DeleteBlocksFromHeight_def
  by (cases rule: ix_stmt_cases) (auto simp: same_env_def)

text \<open>Sequencing, as the two ways it can end.\<close>

lemma seq_cases:
  assumes "bnd m f s = (r, s')"
  obtains (first) e where "m s = (Inl e, s')" "r = Inl e"
  | (second) x t where "m s = (Inr x, t)" "f x t = (r, s')"
  using assms by (auto simp: bnd_def split: prod.splits sum.splits)

lemma wrapped_cases:
  assumes "wrap p m s = (r, s')"
  obtains (failed) e where "m s = (Inl e, s')" "r = Inl (ErrWrap p e)" | (ok) x where "m s = (Inr x, s')" "r = Inr x"
  using assms by (auto simp: wrap_def split: prod.splits sum.splits)

lemma persist_body:
  assumes "bnd (wrap m1 (InsertBlock b)) (\<lambda>_. wrap m2 (UpsertCursor (sbChainID b) (sbHeight b))) s = (r, s')"
  shows "same_env s s' \<and> inTopic s' = inTopic s \<and> (r = Inr () \<longrightarrow> advanced b s s')"
  using assms
proof (cases rule: seq_cases)
  case (first e)
  then obtain e' where "InsertBlock b s = (Inl e', s')" by (auto elim: wrapped_cases)
  from InsertBlock_effect [OF this] first show ?thesis by simp
next
  case (second x t)
  then have I: "InsertBlock b s = (Inr (), t)" by simp
  from second(2) obtain r' where U: "UpsertCursor (sbChainID b) (sbHeight b) t = (r', s')" "r = Inr () \<longrightarrow> r' = Inr ()"
    by (auto elim!: wrapped_cases)
  from InsertBlock_effect [OF I] UpsertCursor_effect [OF U(1)] U(2) show ?thesis by (auto simp: same_env_def advanced_def)
qed

lemma persist_effect:
  assumes "persistBlockAndCursor c next hash par time s = (r, s')"
  defines "b \<equiv> \<lparr>sbChainID = c, sbHeight = next, sbHash = hash, sbParentHash = par, sbTimestamp = time\<rparr>"
  shows "same_env s s' \<and> inTopic s' = inTopic s \<and> ((\<exists>e. r = Inl e) \<and> same_tables s s' \<or> advanced b s s')"
proof -
  let ?body = "bnd (wrap ''insert block'' (InsertBlock b)) (\<lambda>_. wrap ''update cursor'' (UpsertCursor (sbChainID b) (sbHeight b)))"
  let ?s1 = "s\<lparr>inSchedule := tl (inSchedule s)\<rparr>"
  obtain r2 s2 where body: "?body ?s1 = (r2, s2)" by (cases "?body ?s1")
  note B = persist_body [OF body]
  have run: "persistBlockAndCursor c next hash par time s = ix_transaction ?body s" by (simp add: persistBlockAndCursor_def b_def)
  show ?thesis
  proof (cases "inSchedule s \<noteq> [] \<and> hd (inSchedule s) \<noteq> Done")
    case True
    then show ?thesis using assms(1) unfolding run ix_transaction_def wrap_def ix_stmt_def Let_def
      by (auto simp: same_tables_def same_env_def split: outcome.splits)
  next
    case False
    then have "wrap ''begin'' (ix_stmt (\<lambda>s. (Inr (), s))) s = (Inr (), ?s1)" by (auto simp: wrap_def ix_stmt_def Let_def)
    with assms(1) body B show ?thesis unfolding run ix_transaction_def
      by (cases r2) (auto simp: same_tables_def same_env_def advanced_def ix_rollback_def Let_def split: outcome.splits if_splits)
  qed
qed

lemma WriteMessages_effect:
  assumes "WriteMessages msgs s = (r, s')"
  shows "same_env s s' \<and> same_tables s s' \<and> (\<exists>ms. inTopic s' = inTopic s @ ms \<and> set ms \<subseteq> set msgs \<and> (r = Inr () \<longrightarrow> ms = msgs))"
proof -
  have "set (map fst (filter snd (zip msgs w))) \<subseteq> set msgs" for w :: "bool list" by (auto dest: set_zip_leftD)
  then show ?thesis using assms
    by (auto simp: WriteMessages_def Let_def same_env_def same_tables_def split: option.splits if_splits)
qed


text \<open>The deltas of a block whose transactions are asked about from request \<open>t\<close> on.\<close>

definition tx_part :: "geth \<Rightarrow> int \<Rightarrow> string \<Rightarrow> NodeView \<Rightarrow> RawBlock \<Rightarrow> Transaction \<Rightarrow> IxBalanceDelta list" where
  "tx_part g n c view b tx =
     (case nvReceipt view (etHash tx) of None \<Rightarrow> []
      | Some r \<Rightarrow> (case extractDeltas g c tx r n b of Inl e \<Rightarrow> [] | Inr ds \<Rightarrow> ds))"

fun block_deltas :: "geth \<Rightarrow> int \<Rightarrow> string \<Rightarrow> (nat \<Rightarrow> NodeView) \<Rightarrow> nat \<Rightarrow> RawBlock \<Rightarrow> Transaction list \<Rightarrow> IxBalanceDelta list" where
  "block_deltas g n c nodes t b [] = []"
| "block_deltas g n c nodes t b (tx # txs) = tx_part g n c (nodes t) b tx @ block_deltas g n c nodes (Suc t) b txs"

definition delta_messages :: "IxBalanceDelta list \<Rightarrow> (string \<times> RawMessage) list" where
  "delta_messages ds = map (\<lambda>d. (ixChainID d, delta_message d)) ds"

lemma Extract_eq:
  "Extract g n c tx b s =
     (case nvReceipt (inNode s (inRequests s)) (etHash tx) of
        None \<Rightarrow> (Inl (ErrWrap ''receipt'' (ErrMsg ''rpc'')), s\<lparr>inRequests := inRequests s + 1\<rparr>)
      | Some r \<Rightarrow> (extractDeltas g c tx r n b, s\<lparr>inRequests := inRequests s + 1\<rparr>))"
  by (simp add: Extract_def node_call_def bnd_def ret_def throw_def Let_def split: option.split sum.split)

lemma extract_block_eq:
  "extract_block g n c b txs s =
     (Inr (block_deltas g n c (inNode s) (inRequests s) b txs), s\<lparr>inRequests := inRequests s + length txs\<rparr>)"
proof (induction txs arbitrary: s)
  case (Cons tx txs)
  show ?case
    by (auto simp: Extract_eq Cons tx_part_def bnd_def ret_def split: option.split sum.split)
qed simp

definition next_height :: "string \<Rightarrow> indexer \<Rightarrow> int \<Rightarrow> bool" where
  "next_height c s next \<longleftrightarrow> (case map_of (inCursors s) c of None \<Rightarrow> True | Some h \<Rightarrow> next = h + 1)"

definition row_of :: "geth \<Rightarrow> string \<Rightarrow> int \<Rightarrow> EthBlock \<Rightarrow> StoredBlock" where
  "row_of g c next block = \<lparr>sbChainID = c, sbHeight = next, sbHash = hashHex g (ebHash block), sbParentHash = hashHex g (ebParentHash block),
     sbTimestamp = ebTime block\<rparr>"

definition reorg_notice :: "string \<Rightarrow> string list \<Rightarrow> string \<times> RawMessage" where
  "reorg_notice c rb = (c, reorg_message \<lparr>reType = [], reChainID = c, reRolledBackBlockHashes = rb\<rparr>)"

definition ancestor_of :: "string \<Rightarrow> indexer \<Rightarrow> int \<Rightarrow> string list \<Rightarrow> int \<Rightarrow> bool" where
  "ancestor_of c s next rb a \<longleftrightarrow> a < next \<and> map Some rb = map (stored c (inBlocks s)) (rev [a + 1..next - 1])"

text \<open>
  The transitions of the worker, as seen from outside: nothing happens; some messages of a block are written; a block is
  published in full and then recorded with the cursor; a reorg is announced, and then its blocks are deleted, and then the cursor is moved back.
\<close>

inductive turns_to :: "geth \<Rightarrow> int \<Rightarrow> string \<Rightarrow> indexer \<Rightarrow> indexer \<Rightarrow> bool" for g n c where
  turn_pause: "same_env s s' \<Longrightarrow> same_tables s s' \<Longrightarrow> inTopic s' = inTopic s \<Longrightarrow> turns_to g n c s s'"
| turn_publish: "same_env s s' \<Longrightarrow> same_tables s s' \<Longrightarrow> next_height c s next \<Longrightarrow> nvBlockByNumber (inNode s t0) next = Some block \<Longrightarrow>
    set ms \<subseteq> set (delta_messages (block_deltas g n c (inNode s) t (to_RawBlock g block) (ebTransactions block))) \<Longrightarrow>
    inTopic s' = inTopic s @ ms \<Longrightarrow> turns_to g n c s s'"
| turn_record: "same_env s s' \<Longrightarrow> next_height c s next \<Longrightarrow> nvBlockByNumber (inNode s t0) next = Some block \<Longrightarrow>
    stored c (inBlocks s) (next - 1) \<in> {None, Some (hashHex g (ebParentHash block))} \<Longrightarrow>
    inTopic s' = inTopic s @ delta_messages (block_deltas g n c (inNode s) t (to_RawBlock g block) (ebTransactions block)) \<Longrightarrow>
    advanced (row_of g c next block) s s' \<Longrightarrow> turns_to g n c s s'"
| turn_announce: "same_env s s' \<Longrightarrow> same_tables s s' \<Longrightarrow> next_height c s next \<Longrightarrow> ancestor_of c s next rb a \<Longrightarrow>
    set ms \<subseteq> {reorg_notice c rb} \<Longrightarrow> inTopic s' = inTopic s @ ms \<Longrightarrow> turns_to g n c s s'"
| turn_orphan: "same_env s s' \<Longrightarrow> next_height c s next \<Longrightarrow> ancestor_of c s next rb a \<Longrightarrow> inTopic s' = inTopic s @ [reorg_notice c rb] \<Longrightarrow>
    inBlocks s' = filter (\<lambda>b. \<not> (sbChainID b = c \<and> a + 1 \<le> sbHeight b)) (inBlocks s) \<Longrightarrow>
    inCursors s' \<in> {inCursors s, AList.update c a (inCursors s)} \<Longrightarrow> stored c (inBlocks s) (next - 1) \<noteq> None \<Longrightarrow> turns_to g n c s s'"

lemma reorg_turn:
  assumes "handleReorg g c next s = (r, s')" and nh: "next_height c s next" and st: "stored c (inBlocks s) (next - 1) \<noteq> None"
  shows "turns_to g n c s s'"
  using assms(1) unfolding handleReorg_def
proof (cases rule: seq_cases)
  case (first e)
  then have "snd (FindRollback g c next s) = s'" by (auto elim: wrapped_cases)
  moreover have "unchanged s (snd (FindRollback g c next s))" unfolding FindRollback_def by (rule rollback_loop_unchanged)
  ultimately show ?thesis by (intro turn_pause) (auto dest: unchanged_same)
next
  case (second x t)
  obtain rb a where x: "x = (rb, a)" by fastforce
  from second have F: "FindRollback g c next s = (Inr (rb, a), t)" by (simp add: x)
  from rollback_loop_Inr [OF F [unfolded FindRollback_def]] have anc: "ancestor_of c s next rb a" and u: "unchanged s t" by (auto simp: ancestor_of_def)
  note U = unchanged_same [OF u]
  have nx: "next_height c t next" "ancestor_of c t next rb a" using U nh anc by (simp_all add: next_height_def ancestor_of_def same_tables_def)
  from second(2) [unfolded x prod.case] show ?thesis
  proof (cases rule: seq_cases)
    case first
    then obtain e' where "PublishReorg \<lparr>reType = [], reChainID = c, reRolledBackBlockHashes = rb\<rparr> t = (Inl e', s')" by (auto elim: wrapped_cases)
    from WriteMessages_effect [OF this [unfolded PublishReorg_def]] U obtain ms
      where "same_env s s'" "same_tables s s'" "inTopic s' = inTopic s @ ms" "set ms \<subseteq> {reorg_notice c rb}"
      by (auto simp: same_env_def same_tables_def reorg_notice_def)
    then show ?thesis using nh anc by (intro turn_announce [where ms = ms])
  next
    case (second y t1)
    then have "PublishReorg \<lparr>reType = [], reChainID = c, reRolledBackBlockHashes = rb\<rparr> t = (Inr (), t1)" by simp
    from WriteMessages_effect [OF this [unfolded PublishReorg_def]] U
    have P: "same_env s t1" "same_tables s t1" "inTopic t1 = inTopic s @ [reorg_notice c rb]"
      by (auto simp: same_env_def same_tables_def reorg_notice_def)
    from second(2) show ?thesis
    proof (cases rule: seq_cases)
      case first
      then obtain e' where D: "DeleteBlocksFromHeight c (a + 1) t1 = (Inl e', s')" by (auto elim: wrapped_cases)
      from DeleteBlocks_effect [OF D] P show ?thesis
      proof (cases "inBlocks s' = inBlocks t1")
        case True
        then show ?thesis using DeleteBlocks_effect [OF D] P nh anc
          by (intro turn_announce [where ms = "[reorg_notice c rb]"]) (auto simp: same_env_def same_tables_def)
      next
        case False
        then show ?thesis using DeleteBlocks_effect [OF D] P nh anc st
          by (intro turn_orphan [where rb = rb and a = a]) (auto simp: same_env_def same_tables_def)
      qed
    next
      case (second z t2)
      then have D: "DeleteBlocksFromHeight c (a + 1) t1 = (Inr (), t2)" by simp
      from second(2) obtain r' where C: "UpsertCursor c a t2 = (r', s')" by (auto elim: wrapped_cases)
      from DeleteBlocks_effect [OF D] UpsertCursor_effect [OF C] P nh anc st show ?thesis
        by (intro turn_orphan [where rb = rb and a = a]) (auto simp: same_env_def same_tables_def)
    qed
  qed
qed


lemma IsContinuous_effect:
  assumes "IsContinuous c next par s = (r, s')"
  shows "unchanged s s' \<and> (r = Inr True \<longrightarrow> stored c (inBlocks s) (next - 1) \<in> {None, Some par}) \<and>
    (r = Inr False \<longrightarrow> stored c (inBlocks s) (next - 1) \<noteq> None)"
  using assms GetBlockHash_cases [of c "next - 1" s] unfolding IsContinuous_def bnd_def
  by (auto simp: ret_def split: option.splits)

lemma turns_to_unchanged:
  assumes "unchanged s t" and "turns_to g n c t u"
  shows "turns_to g n c s u"
proof -
  have eq: "inNode t = inNode s" "inChains t = inChains s" "inBlocks t = inBlocks s" "inCursors t = inCursors s" "inTopic t = inTopic s"
    using assms(1) by (simp_all add: unchanged_def)
  note defs = same_env_def same_tables_def next_height_def ancestor_of_def advanced_def eq
  from assms(2) show ?thesis
    by cases (auto simp: defs intro: turns_to.intros [unfolded same_env_def same_tables_def next_height_def ancestor_of_def advanced_def])
qed

lemma block_turn:
  assumes "index_block g n c next s = (r, s')" and nh: "next_height c s next"
  shows "turns_to g n c s s'"
  using assms(1) unfolding index_block_def
proof (cases rule: seq_cases)
  case (first e)
  then have "unchanged s s'" by (auto simp: FetchBlock_def dest: node_call_unchanged)
  then show ?thesis by (intro turn_pause) (auto dest: unchanged_same)
next
  case (second block t)
  then have u: "unchanged s t" and blk: "nvBlockByNumber (inNode s (inRequests s)) next = Some block"
    by (auto simp: FetchBlock_def node_call_def Let_def split: option.splits)
  let ?raw = "to_RawBlock g block"
  from second(2) [unfolded Let_def] show ?thesis
  proof (cases rule: seq_cases)
    case (first e)
    then have "unchanged t s'" by (blast dest: IsContinuous_effect)
    then show ?thesis using u by (intro turn_pause) (auto dest: unchanged_same unchanged_trans)
  next
    case (second continuous t1)
    note C = IsContinuous_effect [OF second(1)]
    have u1: "unchanged s t1" using u C unchanged_trans by blast
    have nh1: "next_height c t1 next" using nh u1 by (simp add: next_height_def unchanged_def)
    have eq1: "inBlocks t1 = inBlocks s" "inBlocks t = inBlocks s" "inNode t1 = inNode s" "inTopic t1 = inTopic s" "inCursors t1 = inCursors s" "same_env s t1"
      using u u1 by (simp_all add: unchanged_def same_env_def)
    show ?thesis
    proof (cases continuous)
      case False
      with second(2) have "bnd (handleReorg g c next) (\<lambda>_. ret Reorged) t1 = (r, s')" by simp
      then obtain r' where "handleReorg g c next t1 = (r', s')" by (cases rule: seq_cases) (auto simp: ret_def)
      moreover have "stored c (inBlocks t1) (next - 1) \<noteq> None" using C False by (simp add: eq1)
      ultimately show ?thesis using turns_to_unchanged [OF u1] reorg_turn nh1 by blast
    next
      case True
      have par: "stored c (inBlocks s) (next - 1) \<in> {None, Some (hashHex g (ebParentHash block))}"
        using C True by (simp add: eq1 to_RawBlock_def)
      define ds where "ds = block_deltas g n c (inNode s) (inRequests t1) ?raw (ebTransactions block)"
      define t2 where "t2 = t1\<lparr>inRequests := inRequests t1 + length (ebTransactions block)\<rparr>"
      have t2: "same_env s t2" "same_tables s t2" "inTopic t2 = inTopic s"
        using eq1 by (simp_all add: t2_def same_env_def same_tables_def)
      from second(2) True have rest: "bnd (PublishDeltas ds) (\<lambda>_. bnd (persistBlockAndCursor c next (rbHash ?raw) (rbParentHash ?raw) (ebTime block))
          (\<lambda>_. ret Indexed)) t2 = (r, s')"
        by (simp add: bnd_def [of "extract_block _ _ _ _ _"] extract_block_eq ds_def t2_def eq1)
      from rest show ?thesis
      proof (cases rule: seq_cases)
        case (first e)
        from WriteMessages_effect [OF first(1) [unfolded PublishDeltas_def]] t2
        obtain ms where "same_env s s'" "same_tables s s'" "set ms \<subseteq> set (delta_messages ds)" "inTopic s' = inTopic s @ ms"
          by (auto simp: same_env_def same_tables_def delta_messages_def)
        then show ?thesis using nh blk unfolding ds_def by (intro turn_publish)
      next
        case (second y t3)
        from WriteMessages_effect [OF second(1) [unfolded PublishDeltas_def]] t2
        have t3: "same_env s t3" "same_tables s t3" "inTopic t3 = inTopic s @ delta_messages ds"
          by (auto simp: same_env_def same_tables_def delta_messages_def)
        from second(2) obtain r' where P: "persistBlockAndCursor c next (rbHash ?raw) (rbParentHash ?raw) (ebTime block) t3 = (r', s')"
          by (cases rule: seq_cases) (auto simp: ret_def)
        have row: "\<lparr>sbChainID = c, sbHeight = next, sbHash = rbHash ?raw, sbParentHash = rbParentHash ?raw, sbTimestamp = ebTime block\<rparr> = row_of g c next block"
          by (simp add: row_of_def to_RawBlock_def)
        from persist_effect [OF P, unfolded row] t3 consider
            "same_env s s'" "same_tables s s'" "inTopic s' = inTopic s @ delta_messages ds"
          | "same_env s s'" "advanced (row_of g c next block) s s'" "inTopic s' = inTopic s @ delta_messages ds"
          by (auto simp: same_env_def same_tables_def advanced_def)
        then show ?thesis
        proof cases
          case 1
          then show ?thesis using nh unfolding ds_def by (intro turn_publish [OF 1(1,2) nh blk subset_refl])
        next
          case 2
          then show ?thesis using nh blk par unfolding ds_def by (intro turn_record [OF 2(1) nh blk par])
        qed
      qed
    qed
  qed
qed

lemma turn_effect:
  assumes "index_turn g n c start s = (r, s')"
  shows "turns_to g n c s s'"
  using assms unfolding index_turn_def
proof (cases rule: seq_cases)
  case (first e)
  then have "unchanged s s'" by (auto simp: LatestHeight_def dest: node_call_unchanged)
  then show ?thesis by (intro turn_pause) (auto dest: unchanged_same)
next
  case (second latest t)
  then have u: "unchanged s t" by (auto simp: LatestHeight_def dest: node_call_unchanged)
  have G: "unchanged t t1 \<and> (\<forall>h. q = Inr h \<longrightarrow> h = map_of (inCursors t) c)" if "GetHeight c t = (q, t1)" for q t1
    using that unfolding GetHeight_def by (cases rule: ix_stmt_cases) auto
  from second(2) show ?thesis
  proof (cases rule: seq_cases)
    case (first e)
    with G u show ?thesis by (intro turn_pause) (auto dest: unchanged_same unchanged_trans)
  next
    case (second cursor t1)
    from G [OF second(1)] u have u1: "unchanged s t1" and cur: "cursor = map_of (inCursors t1) c"
      by (auto intro: unchanged_trans simp: unchanged_def)
    define height where "height = (case cursor of Some h \<Rightarrow> h | None \<Rightarrow> if 0 < start then start - 1 else latest - 1)"
    have nh: "next_height c t1 (height + 1)" by (simp add: next_height_def height_def cur split: option.split)
    from second(2) have "(if latest \<le> height then ret Idle else index_block g n c (height + 1)) t1 = (r, s')"
      unfolding height_def Let_def .
    then show ?thesis
    proof (cases "latest \<le> height")
      case True
      with \<open>(if latest \<le> height then _ else _) t1 = _\<close> have "s' = t1" by (simp add: ret_def)
      then show ?thesis using u1 by (intro turn_pause) (auto dest: unchanged_same)
    next
      case False
      with \<open>(if latest \<le> height then _ else _) t1 = _\<close> have "index_block g n c (height + 1) t1 = (r, s')" by simp
      then show ?thesis using turns_to_unchanged [OF u1] block_turn nh by blast
    qed
  qed
qed


lemma turns_to_later:
  "turns_to g n c s s' \<Longrightarrow> same_env s' s'' \<Longrightarrow> same_tables s' s'' \<Longrightarrow> inTopic s'' = inTopic s' \<Longrightarrow> turns_to g n c s s''"
  by (induction rule: turns_to.cases)
     (auto simp: same_env_def same_tables_def next_height_def ancestor_of_def advanced_def
        intro: turns_to.intros [unfolded same_env_def same_tables_def next_height_def ancestor_of_def advanced_def])

lemma loop_step_turns: "turns_to g n c s (loop_step g n c start s)"
proof -
  obtain r s1 where t: "index_turn g n c start s = (r, s1)" by fastforce
  have "same_env s1 (loop_step g n c start s) \<and> same_tables s1 (loop_step g n c start s) \<and> inTopic (loop_step g n c start s) = inTopic s1"
    by (auto simp: loop_step_def t sleep_def same_env_def same_tables_def split: sum.split turn.split prod.split)
  then show ?thesis using turns_to_later [OF turn_effect [OF t]] by blast
qed

lemma loop_invariant:
  assumes "\<And>s s'. I s \<Longrightarrow> turns_to g n c s s' \<Longrightarrow> I s'" and "I s"
  shows "I (runEthereumLoop k g n c start s)"
  using assms(2) by (induction k arbitrary: s) (auto intro: assms(1) loop_step_turns)

end
