(* ===== verification/IndexerCorrect.thy ===== *)
theory IndexerCorrect
  imports IndexerLoop
begin

text \<open>
  What the indexer's worker guarantees over a run: invariants of the recorded chain and of the topic for every behaviour of the node, the
  database and the broker, progress without faults, bounded pauses, and two runs in which deltas are lost.
\<close>

section \<open>Invariants of the worker\<close>

text \<open>
  \<open>linked\<close>: the recorded blocks of a chain lie at different heights up to the cursor, and neighbours are linked by the parent hash.
  \<open>covered\<close>: every recorded block was served by the node and all that was extracted from it is on the topic, in one piece.
\<close>

definition of_chain :: "string \<Rightarrow> StoredBlock list \<Rightarrow> StoredBlock list" where
  "of_chain c bs = filter (\<lambda>b. sbChainID b = c) bs"

definition linked :: "string \<Rightarrow> indexer \<Rightarrow> bool" where
  "linked c s \<longleftrightarrow>
     distinct (map sbHeight (of_chain c (inBlocks s))) \<and>
     list_all (\<lambda>b. \<exists>h. map_of (inCursors s) c = Some h \<and> sbHeight b \<le> h) (of_chain c (inBlocks s)) \<and>
     list_all (\<lambda>b. list_all (\<lambda>b'. sbHeight b' = sbHeight b + 1 \<longrightarrow> sbParentHash b' = sbHash b) (of_chain c (inBlocks s))) (of_chain c (inBlocks s))"

definition covered :: "geth \<Rightarrow> int \<Rightarrow> string \<Rightarrow> indexer \<Rightarrow> bool" where
  "covered g n c s \<longleftrightarrow>
     list_all (\<lambda>b. \<exists>block t0 t before after. b = row_of g c (sbHeight b) block \<and> nvBlockByNumber (inNode s t0) (sbHeight b) = Some block \<and>
       inTopic s = before @ delta_messages (block_deltas g n c (inNode s) t (to_RawBlock g block) (ebTransactions block)) @ after)
       (of_chain c (inBlocks s))"

lemma of_chain_put: "sbChainID b = c \<Longrightarrow> of_chain c (put_block b bs) = of_chain c bs \<or> of_chain c (put_block b bs) = of_chain c bs @ [b]"
  by (simp add: put_block_def of_chain_def)

lemma stored_None: "stored c bs h = None \<Longrightarrow> b \<in> set (of_chain c bs) \<Longrightarrow> sbHeight b \<noteq> h"
  by (auto simp: stored_def of_chain_def find_None_iff at_height_def)

lemma stored_at:
  assumes "distinct (map sbHeight (of_chain c bs))" and "b \<in> set (of_chain c bs)"
  shows "stored c bs (sbHeight b) = Some (sbHash b)"
proof (cases "stored c bs (sbHeight b)")
  case None
  then show ?thesis using stored_None assms(2) by blast
next
  case (Some x)
  then obtain b' where b': "b' \<in> set (of_chain c bs)" "sbHeight b' = sbHeight b" "sbHash b' = x"
    using stored_Some by (force simp: of_chain_def at_height_def)
  then have "b' = b" using assms by (auto simp: distinct_map dest: inj_onD)
  then show ?thesis using Some b' by simp
qed

lemma linked_turn:
  assumes "turns_to g n c s s'" and L: "linked c s"
  shows "linked c s'"
  using assms(1)
proof cases
  case (turn_record "next" t0 block t)
  let ?b = "row_of g c next block"
  have cur: "map_of (inCursors s') c = Some next"
    using turn_record by (simp add: advanced_def row_of_def update_conv)
  have low: "sbHeight b < next" if "b \<in> set (of_chain c (inBlocks s))" for b
    using that L turn_record(2) by (auto simp: linked_def list_all_iff next_height_def split: option.splits)
  have par: "sbParentHash ?b = sbHash b" if "b \<in> set (of_chain c (inBlocks s))" "sbHeight ?b = sbHeight b + 1" for b
    using stored_at [OF _ that(1)] that(2) L turn_record(4) by (auto simp: linked_def row_of_def)
  have "of_chain c (inBlocks s') = of_chain c (inBlocks s) \<or> of_chain c (inBlocks s') = of_chain c (inBlocks s) @ [?b]"
    using of_chain_put [of ?b c "inBlocks s"] turn_record(6) by (simp add: advanced_def row_of_def)
  then show ?thesis
  proof
    assume "of_chain c (inBlocks s') = of_chain c (inBlocks s)"
    then show ?thesis using L cur low by (force simp: linked_def list_all_iff)
  next
    assume eq: "of_chain c (inBlocks s') = of_chain c (inBlocks s) @ [?b]"
    have h: "sbHeight ?b = next" by (simp add: row_of_def)
    show ?thesis unfolding linked_def eq list_all_append
      using L low par cur h by (fastforce simp: linked_def list_all_iff)
  qed
next
  case (turn_orphan "next" rb a)
  have sub: "of_chain c (inBlocks s') = filter (\<lambda>b. sbHeight b \<le> a) (of_chain c (inBlocks s))"
    unfolding turn_orphan(5) of_chain_def by (auto simp: filter_filter intro!: filter_cong)
  have "\<exists>h. map_of (inCursors s') c = Some h \<and> sbHeight b \<le> h" if "b \<in> set (of_chain c (inBlocks s'))" for b
    using that L turn_orphan(6) unfolding sub by (auto simp: linked_def list_all_iff update_conv)
  then show ?thesis using L by (auto simp: linked_def list_all_iff sub distinct_map_filter)
qed (use L in \<open>auto simp: linked_def same_tables_def\<close>)


lemma turns_to_grows:
  assumes "turns_to g n c s s'"
  shows "inNode s' = inNode s \<and> (\<exists>ms. inTopic s' = inTopic s @ ms)"
  using assms by cases (auto simp: same_env_def)

lemma covered_grows:
  assumes "covered g n c s" and "turns_to g n c s s'" and "set bs \<subseteq> set (of_chain c (inBlocks s))"
  shows "list_all (\<lambda>b. \<exists>block t0 t before after. b = row_of g c (sbHeight b) block \<and> nvBlockByNumber (inNode s' t0) (sbHeight b) = Some block \<and>
       inTopic s' = before @ delta_messages (block_deltas g n c (inNode s') t (to_RawBlock g block) (ebTransactions block)) @ after) bs"
proof -
  obtain ms where ms: "inNode s' = inNode s" "inTopic s' = inTopic s @ ms" using turns_to_grows [OF assms(2)] by blast
  show ?thesis unfolding list_all_iff
  proof
    fix b
    assume "b \<in> set bs"
    then obtain block t0 t before' after where *: "b = row_of g c (sbHeight b) block" "nvBlockByNumber (inNode s t0) (sbHeight b) = Some block"
      "inTopic s = before' @ delta_messages (block_deltas g n c (inNode s) t (to_RawBlock g block) (ebTransactions block)) @ after"
      using assms(1,3) unfolding covered_def list_all_iff by blast
    show "\<exists>block t0 t before after. b = row_of g c (sbHeight b) block \<and> nvBlockByNumber (inNode s' t0) (sbHeight b) = Some block \<and>
       inTopic s' = before @ delta_messages (block_deltas g n c (inNode s') t (to_RawBlock g block) (ebTransactions block)) @ after"
      by (intro exI [of _ block] exI [of _ t0] exI [of _ t] exI [of _ before'] exI [of _ "after @ ms"])
         (use * ms in simp)
  qed
qed

lemma covered_turn:
  assumes t: "turns_to g n c s s'" and C: "covered g n c s"
  shows "covered g n c s'"
  using t
proof cases
  case (turn_record "next" t0 block t)
  let ?b = "row_of g c next block"
  have old: "covered g n c s'" if "of_chain c (inBlocks s') = of_chain c (inBlocks s)"
    using covered_grows [OF C assms(1) subset_refl] unfolding covered_def that .
  have "of_chain c (inBlocks s') = of_chain c (inBlocks s) \<or> of_chain c (inBlocks s') = of_chain c (inBlocks s) @ [?b]"
    using of_chain_put [of ?b c "inBlocks s"] turn_record(6) by (simp add: advanced_def row_of_def)
  then show ?thesis
  proof
    assume eq: "of_chain c (inBlocks s') = of_chain c (inBlocks s) @ [?b]"
    have h: "sbHeight ?b = next" and nd: "inNode s' = inNode s" using turn_record(1) by (simp_all add: row_of_def same_env_def)
    have "\<exists>block' t0 t before after. ?b = row_of g c (sbHeight ?b) block' \<and> nvBlockByNumber (inNode s' t0) (sbHeight ?b) = Some block' \<and>
       inTopic s' = before @ delta_messages (block_deltas g n c (inNode s') t (to_RawBlock g block') (ebTransactions block')) @ after"
      unfolding h nd by (intro exI [of _ block] exI [of _ t0] exI [of _ t] exI [of _ "inTopic s"] exI [of _ "[]"])
        (use turn_record in simp)
    then show ?thesis using covered_grows [OF C assms(1) subset_refl] unfolding covered_def eq by simp
  qed (rule old)
next
  case (turn_orphan "next" rb a)
  have "set (of_chain c (inBlocks s')) \<subseteq> set (of_chain c (inBlocks s))" unfolding turn_orphan(5) of_chain_def by auto
  from covered_grows [OF C assms(1) this] show ?thesis unfolding covered_def .
qed (use covered_grows [OF C assms(1) subset_refl] in \<open>simp_all add: covered_def same_tables_def\<close>)

text \<open>
  \<open>sane_node\<close>: heights fit \<open>int64\<close> and a receipt has fewer than \<open>2^29\<close> logs, as on every real chain.
\<close>

definition sane_node :: "(nat \<Rightarrow> NodeView) \<Rightarrow> bool" where
  "sane_node nodes \<longleftrightarrow>
     (\<forall>t h block. nvBlockByNumber (nodes t) h = Some block \<longrightarrow> in_int64 (ebNumber block)) \<and>
     (\<forall>t x r. nvReceipt (nodes t) x = Some r \<longrightarrow> length (rcLogs r) < 2 ^ 29)"

definition decodes :: "RawMessage \<Rightarrow> bool" where
  "decodes m \<longleftrightarrow> (\<exists>p. ParseMessage m = Inr p)"

lemma moves_length: "length (moves g tx r from) \<le> 2 + 2 * length (rcLogs r)"
proof -
  have "length (concat (map token_moves ls)) = 2 * length ls" for ls by (induction ls) (simp_all add: token_moves_def)
  moreover have "length (filter (is_transfer g) (rcLogs r)) \<le> length (rcLogs r)" by simp
  moreover have "length (native_moves tx r from) \<le> 2" by (simp add: native_moves_def split: option.split)
  ultimately show ?thesis unfolding moves_def length_append by (metis add_mono mult_le_mono2)
qed

lemma tx_part_decodes:
  assumes g: "geth_ok g" and "in_int64 (rbHeight b)" and "\<And>x r. nvReceipt view x = Some r \<Longrightarrow> length (rcLogs r) < 2 ^ 29"
    and d: "d \<in> set (tx_part g n c view b tx)"
  shows "decodes (delta_message d)"
proof -
  from d obtain r where r0: "nvReceipt view (etHash tx) = Some r" by (cases "nvReceipt view (etHash tx)") (auto simp: tx_part_def)
  with d obtain ds where r: "nvReceipt view (etHash tx) = Some r" "extractDeltas g c tx r n b = Inr ds" "d \<in> set ds"
    by (cases "extractDeltas g c tx r n b") (auto simp: tx_part_def)
  then have ok: "rcStatus r \<noteq> ReceiptStatusFailed" by (auto simp: extractDeltas_def)
  with r obtain sender where snd: "Sender g n tx = Some sender" by (auto simp: extractDeltas_def split: option.splits)
  obtain di where R: "rendered c (hashHex g (etHash tx)) b (moves g tx r sender) (ds, di)" using extract_rendered [OF g ok snd r(2)] by blast
  have "length ds < 2 ^ 31" using R moves_length [of g tx r sender] assms(3) [OF r(1)] by (simp add: rendered_def)
  from rendered_parse [OF R this assms(2)] r(3)
  have "ParseMessage (delta_message d) \<in> set (map (\<lambda>(k, m). Inr (ParsedDelta (delta_of c (hashHex g (etHash tx)) b k m))) (enumerate 0 (moves g tx r sender)))"
    by (metis (no_types, lifting) image_eqI list.set_map)
  then show ?thesis by (auto simp: decodes_def)
qed

lemma block_deltas_decode:
  assumes "geth_ok g" and "in_int64 (rbHeight b)" and "sane_node nodes"
  shows "d \<in> set (block_deltas g n c nodes t b txs) \<Longrightarrow> decodes (delta_message d)"
proof (induction txs arbitrary: t)
  case (Cons tx txs)
  then consider "d \<in> set (tx_part g n c (nodes t) b tx)" | "d \<in> set (block_deltas g n c nodes (Suc t) b txs)" by auto
  then show ?case
  proof cases
    case 1
    then show ?thesis by (rule tx_part_decodes [OF assms(1,2), rotated]) (use assms(3) in \<open>auto simp: sane_node_def\<close>)
  qed (rule Cons.IH)
qed simp

lemma notice_decodes: "decodes (snd (reorg_notice c rb))"
  by (simp add: decodes_def reorg_notice_def ParseMessage_reorg)

definition readable :: "indexer \<Rightarrow> bool" where
  "readable s \<longleftrightarrow> list_all (\<lambda>m. decodes (snd m)) (inTopic s)"

lemma readable_append:
  "readable s \<Longrightarrow> inTopic s' = inTopic s @ ms \<Longrightarrow> (\<And>m. m \<in> set ms \<Longrightarrow> decodes (snd m)) \<Longrightarrow> readable s'"
  unfolding readable_def list_all_iff by (metis UnE set_append)

lemma readable_turn:
  assumes t: "turns_to g n c s s'" and g: "geth_ok g" and N: "sane_node (inNode s)" and R: "readable s"
  shows "readable s'"
proof -
  have new: "decodes (snd m)"
    if "m \<in> set (delta_messages (block_deltas g n c (inNode s) t (to_RawBlock g block) (ebTransactions block)))"
      "nvBlockByNumber (inNode s t0) h = Some block" for m t block t0 h
  proof -
    have "in_int64 (rbHeight (to_RawBlock g block))" using N that(2) by (auto simp: sane_node_def to_RawBlock_def)
    then show ?thesis using block_deltas_decode [OF g _ N] that(1) by (auto simp: delta_messages_def)
  qed
  from t show ?thesis
  proof cases
    case (turn_publish "next" t0 block ms t)
    have "decodes (snd m)" if "m \<in> set ms" for m
      using new [OF subsetD [OF turn_publish(5) that] turn_publish(4)] .
    then show ?thesis by (rule readable_append [OF R turn_publish(6)])
  next
    case (turn_record "next" t0 block t)
    show ?thesis by (rule readable_append [OF R turn_record(5)]) (rule new [OF _ turn_record(3)])
  next
    case (turn_announce "next" rb a ms)
    have "decodes (snd m)" if "m \<in> set ms" for m
    proof -
      from that turn_announce(5) have "m = reorg_notice c rb" by auto
      then show ?thesis using notice_decodes by simp
    qed
    then show ?thesis by (rule readable_append [OF R turn_announce(6)])
  next
    case (turn_orphan "next" rb a)
    then show ?thesis using R notice_decodes by (simp add: readable_def)
  qed (use R in \<open>simp add: readable_def\<close>)
qed


section \<open>Progress\<close>

text \<open>
  A node that serves the same chain throughout: blocks exist up to \<open>latest\<close> above the height \<open>h\<close> and each names its predecessor as parent.
\<close>

definition serves :: "NodeView \<Rightarrow> int \<Rightarrow> int \<Rightarrow> bool" where
  "serves v h latest \<longleftrightarrow> nvBlockNumber v = Some latest \<and>
     list_all (\<lambda>k. \<exists>block. nvBlockByNumber v k = Some block) [h + 1..latest] \<and>
     list_all (\<lambda>k. ebParentHash (the (nvBlockByNumber v k)) = ebHash (the (nvBlockByNumber v (k - 1)))) [h + 2..latest]"

definition height_deltas :: "geth \<Rightarrow> int \<Rightarrow> string \<Rightarrow> NodeView \<Rightarrow> int \<Rightarrow> IxBalanceDelta list" where
  "height_deltas g n c v k =
     (let block = the (nvBlockByNumber v k) in concat (map (tx_part g n c v (to_RawBlock g block)) (ebTransactions block)))"

definition ready :: "geth \<Rightarrow> string \<Rightarrow> NodeView \<Rightarrow> int \<Rightarrow> int \<Rightarrow> indexer \<Rightarrow> bool" where
  "ready g c v h latest s \<longleftrightarrow> inSchedule s = [] \<and> inWrites s = [] \<and> inNode s = (\<lambda>_. v) \<and> c \<in> set (inChains s) \<and>
     map_of (inCursors s) c = Some h \<and> linked c s \<and> serves v h latest \<and>
     (h < latest \<longrightarrow> stored c (inBlocks s) h \<in> {None, Some (hashHex g (ebParentHash (the (nvBlockByNumber v (h + 1)))))})"

lemma block_deltas_const: "block_deltas g n c (\<lambda>_. v) t b txs = concat (map (tx_part g n c v b) txs)"
  by (induction txs arbitrary: t) simp_all

lemma quiet_WriteMessages:
  "inWrites s = [] \<Longrightarrow> WriteMessages msgs s = (Inr (), s\<lparr>inTopic := inTopic s @ msgs\<rparr>)"
  by (cases s) (simp add: WriteMessages_def Let_def)

lemma quiet_GetBlockHash:
  "inSchedule s = [] \<Longrightarrow> GetBlockHash c h s = (Inr (stored c (inBlocks s) h), s)"
  by (cases s) (simp add: GetBlockHash_def ix_stmt_def stored_def)

lemma quiet_GetHeight: "inSchedule s = [] \<Longrightarrow> GetHeight c s = (Inr (map_of (inCursors s) c), s)"
  by (cases s) (simp add: GetHeight_def ix_stmt_def)

lemma quiet_persist:
  assumes "inSchedule s = []" and "c \<in> set (inChains s)"
  shows "persistBlockAndCursor c next hash par time s = (Inr (), s\<lparr>inBlocks :=
      put_block \<lparr>sbChainID = c, sbHeight = next, sbHash = hash, sbParentHash = par, sbTimestamp = time\<rparr> (inBlocks s),
      inCursors := AList.update c next (inCursors s)\<rparr>)"
  using assms
  by (cases s) (simp add: persistBlockAndCursor_def ix_transaction_def ix_stmt_def wrap_def bnd_def InsertBlock_def UpsertCursor_def put_block_def Let_def)

lemma quiet_block:
  assumes "inSchedule s = []" "inWrites s = []" "inNode s = (\<lambda>_. v)" "c \<in> set (inChains s)" "nvBlockByNumber v next = Some block"
    and "stored c (inBlocks s) (next - 1) \<in> {None, Some (hashHex g (ebParentHash block))}"
  shows "\<exists>t. index_block g n c next s = (Inr Indexed, s\<lparr>inRequests := t,
      inTopic := inTopic s @ delta_messages (height_deltas g n c v next), inBlocks := put_block (row_of g c next block) (inBlocks s),
      inCursors := AList.update c next (inCursors s)\<rparr>)"
proof -
  let ?s1 = "s\<lparr>inRequests := Suc (inRequests s)\<rparr>"
  have fetch: "FetchBlock next s = (Inr block, ?s1)" using assms by (simp add: FetchBlock_def node_call_def)
  have cont: "IsContinuous c next (rbParentHash (to_RawBlock g block)) ?s1 = (Inr True, ?s1)"
    using assms by (auto simp: IsContinuous_def bnd_def quiet_GetBlockHash ret_def to_RawBlock_def)
  have hd: "concat (map (tx_part g n c v (to_RawBlock g block)) (ebTransactions block)) = height_deltas g n c v next"
    using assms by (simp add: height_deltas_def)
  have row: "row_of g c next block = \<lparr>sbChainID = c, sbHeight = next, sbHash = rbHash (to_RawBlock g block),
      sbParentHash = rbParentHash (to_RawBlock g block), sbTimestamp = ebTime block\<rparr>"
    by (simp add: row_of_def to_RawBlock_def)
  show ?thesis
    using assms
    by (intro exI [of _ "inRequests s + 1 + length (ebTransactions block)"])
       (simp add: index_block_def bnd_def fetch cont Let_def extract_block_eq block_deltas_const hd PublishDeltas_def quiet_WriteMessages
          quiet_persist ret_def row delta_messages_def)
qed

lemma stored_put:
  assumes "linked c s" and "map_of (inCursors s) c = Some h" and "sbChainID b = c" "sbHeight b = h + 1"
  shows "stored c (put_block b (inBlocks s)) (h + 1) \<in> {None, Some (sbHash b)}"
proof -
  have none: "find (at_height c (h + 1)) (inBlocks s) = None"
    using assms(1,2) by (auto simp: linked_def list_all_iff of_chain_def find_None_iff at_height_def)
  then show ?thesis using assms(3,4)
    by (auto simp: put_block_def stored_def find_append at_height_def)
qed

lemma ready_turn:
  assumes r: "ready g c v h latest s" and "h < latest"
  shows "ready g c v (h + 1) latest (loop_step g n c start s) \<and>
    inTopic (loop_step g n c start s) = inTopic s @ delta_messages (height_deltas g n c v (h + 1))"
proof -
  note R = r [unfolded ready_def]
  have "list_all (\<lambda>k. \<exists>block. nvBlockByNumber v k = Some block) [h + 1..latest]" using R by (simp add: serves_def)
  then obtain block where block: "nvBlockByNumber v (h + 1) = Some block"
    using assms(2) by (auto simp: list_all_iff dest: bspec [of _ _ "h + 1"])
  let ?s1 = "s\<lparr>inRequests := Suc (inRequests s)\<rparr>"
  have latest: "LatestHeight s = (Inr latest, ?s1)" using R by (simp add: LatestHeight_def node_call_def serves_def)
  have height: "GetHeight c ?s1 = (Inr (Some h), ?s1)" using R by (simp add: quiet_GetHeight)
  have "\<exists>t. index_block g n c (h + 1) ?s1 = (Inr Indexed, ?s1\<lparr>inRequests := t,
      inTopic := inTopic ?s1 @ delta_messages (height_deltas g n c v (h + 1)), inBlocks := put_block (row_of g c (h + 1) block) (inBlocks ?s1),
      inCursors := AList.update c (h + 1) (inCursors ?s1)\<rparr>)"
    by (rule quiet_block) (use R assms(2) block in auto)
  then obtain t where t: "index_turn g n c start s = (Inr Indexed, s\<lparr>inRequests := t,
      inTopic := inTopic s @ delta_messages (height_deltas g n c v (h + 1)), inBlocks := put_block (row_of g c (h + 1) block) (inBlocks s),
      inCursors := AList.update c (h + 1) (inCursors s)\<rparr>)"
    using assms(2) by (auto simp: index_turn_def bnd_def latest height Let_def)
  have "linked c (loop_step g n c start s)" using linked_turn [OF loop_step_turns] R by blast
  moreover have "serves v (h + 1) latest" using R by (auto simp: serves_def list_all_iff)
  moreover have "h + 1 < latest \<longrightarrow> stored c (put_block (row_of g c (h + 1) block) (inBlocks s)) (h + 1)
      \<in> {None, Some (hashHex g (ebParentHash (the (nvBlockByNumber v (h + 1 + 1)))))}"
  proof
    assume "h + 1 < latest"
    then have "ebParentHash (the (nvBlockByNumber v (h + 1 + 1))) = ebHash block"
      using R block block [unfolded add.commute [of h 1]] by (auto simp: serves_def list_all_iff dest: bspec [of _ _ "h + 2"])
    moreover have "linked c s" "map_of (inCursors s) c = Some h" using R by auto
    from stored_put [OF this, of "row_of g c (h + 1) block"]
    have "stored c (put_block (row_of g c (h + 1) block) (inBlocks s)) (h + 1) \<in> {None, Some (hashHex g (ebHash block))}" by (simp add: row_of_def)
    ultimately show "stored c (put_block (row_of g c (h + 1) block) (inBlocks s)) (h + 1)
      \<in> {None, Some (hashHex g (ebParentHash (the (nvBlockByNumber v (h + 1 + 1)))))}" by simp
  qed
  ultimately show ?thesis using R unfolding ready_def
    by (simp add: loop_step_def t update_conv)
qed

lemma ready_run:
  "ready g c v h latest s \<Longrightarrow> k = nat (latest - h) \<Longrightarrow> h \<le> latest \<Longrightarrow>
     ready g c v latest latest (runEthereumLoop k g n c start s) \<and>
     inTopic (runEthereumLoop k g n c start s) = inTopic s @ delta_messages (concat (map (height_deltas g n c v) [h + 1..latest]))"
proof (induction k arbitrary: h s)
  case (Suc k)
  then have "h < latest" by simp
  from ready_turn [OF Suc.prems(1) this] have *: "ready g c v (h + 1) latest (loop_step g n c start s)"
    "inTopic (loop_step g n c start s) = inTopic s @ delta_messages (height_deltas g n c v (h + 1))" by auto
  have up: "[h + 1..latest] = (h + 1) # [h + 1 + 1..latest]" using \<open>h < latest\<close> by (intro upto_rec1) simp
  have "k = nat (latest - (h + 1))" "h + 1 \<le> latest" using Suc.prems(2) \<open>h < latest\<close> by auto
  from Suc.IH [OF *(1) this] *(2) show ?case by (simp add: up delta_messages_def)
qed (simp add: delta_messages_def)


section \<open>Concrete runs\<close>

definition sample_block :: "int \<Rightarrow> eth_hash \<Rightarrow> eth_hash \<Rightarrow> Transaction list \<Rightarrow> EthBlock" where
  "sample_block k h p txs = \<lparr>ebNumber = k, ebHash = h, ebParentHash = p, ebTime = 1000 + k, ebTransactions = txs\<rparr>"

definition sample_node :: NodeView where
  "sample_node = \<lparr>nvBlockNumber = Some 3,
     nvBlockByNumber = (\<lambda>k. if k = 1 then Some (sample_block 1 1 0 []) else if k = 2 then Some (sample_block 2 2 1 [sample_eth_tx])
       else if k = 3 then Some (sample_block 3 3 2 []) else None),
     nvHeaderHash = (\<lambda>k. if k = 1 then Some 1 else if k = 2 then Some 2 else if k = 3 then Some 3 else None),
     nvReceipt = (\<lambda>h. if h = 5 then Some sample_receipt else None)\<rparr>"

definition sample_indexer :: indexer where
  "sample_indexer = \<lparr>inNode = (\<lambda>_. sample_node), inRequests = 0, inSchedule = [], inWrites = [], inChains = [''eth''], inBlocks = [],
     inCursors = [], inTopic = [], inBackoff = newBackoff, inSlept = []\<rparr>"

text \<open>An indexer that recorded blocks 1 and 2, of which the node has replaced block 2.\<close>

definition sample_forked :: indexer where
  "sample_forked = sample_indexer\<lparr>
     inBlocks := [row_of sample_geth ''eth'' 1 (sample_block 1 1 0 []), row_of sample_geth ''eth'' 2 (sample_block 2 9 1 [])],
     inCursors := [(''eth'', 2)]\<rparr>"

lemma hashHex_inj: "geth_ok g \<Longrightarrow> hashHex g a = hashHex g b \<longleftrightarrow> a = b"
proof -
  assume "geth_ok g"
  then have "hashHex g h = ''0x'' @ hexlow 64 (unat h)" for h unfolding geth_ok_def by blast
  moreover have "unat h < 16 ^ 64" for h :: eth_hash using unsigned_less [of h, where 'a = nat] by simp
  ultimately show ?thesis by (simp add: hexlow_inj word_unat_eq_iff)
qed

lemmas turn_simps = loop_step_def index_turn_def bnd_def wrap_def ret_def LatestHeight_def node_call_def GetHeight_def ix_stmt_def Let_def
  index_block_def FetchBlock_def IsContinuous_def GetBlockHash_def at_height_def

lemma forked_first_turn:
  "loop_step sample_geth 1 ''eth'' 0 (sample_forked\<lparr>inSchedule := [Done, Done, Done, Done, Done, Failed]\<rparr>) =
     sample_indexer\<lparr>inRequests := 4, inBlocks := [row_of sample_geth ''eth'' 1 (sample_block 1 1 0 [])], inCursors := [(''eth'', 2)],
       inTopic := [reorg_notice ''eth'' [hashHex sample_geth 9]], inBackoff := newBackoff\<lparr>boCur := 2\<rparr>, inSlept := [1]\<rparr>"
  by (simp add: turn_simps sample_forked_def sample_indexer_def sample_node_def sample_block_def row_of_def to_RawBlock_def
      hashHex_inj [OF sample_geth_ok] handleReorg_def FindRollback_def rollback_loop.simps BlockHash_def PublishReorg_def WriteMessages_def
      DeleteBlocksFromHeight_def UpsertCursor_def reorg_notice_def sleep_def backoff_next_def newBackoff_def)

lemma forked_second_turn:
  "loop_step sample_geth 1 ''eth'' 0 (sample_indexer\<lparr>inRequests := 4, inBlocks := [row_of sample_geth ''eth'' 1 (sample_block 1 1 0 [])], inCursors := [(''eth'', 2)],
       inTopic := [reorg_notice ''eth'' [hashHex sample_geth 9]], inBackoff := newBackoff\<lparr>boCur := 2\<rparr>, inSlept := [1]\<rparr>) =
     sample_indexer\<lparr>inRequests := 6, inBlocks := [row_of sample_geth ''eth'' 1 (sample_block 1 1 0 []), row_of sample_geth ''eth'' 3 (sample_block 3 3 2 [])],
       inCursors := [(''eth'', 3)], inTopic := [reorg_notice ''eth'' [hashHex sample_geth 9]], inSlept := [1]\<rparr>"
  by (simp add: turn_simps sample_forked_def sample_indexer_def sample_node_def sample_block_def row_of_def to_RawBlock_def
      hashHex_inj [OF sample_geth_ok] PublishDeltas_def WriteMessages_def persistBlockAndCursor_def ix_transaction_def InsertBlock_def
      UpsertCursor_def backoff_reset_def newBackoff_def)

lemma idle_run:
  assumes "\<And>t. nvBlockNumber (inNode s t) = Some h" and "inSchedule s = []" and "map_of (inCursors s) c = Some h"
  shows "inTopic (runEthereumLoop k g n c start s) = inTopic s \<and> inCursors (runEthereumLoop k g n c start s) = inCursors s"
  using assms
proof (induction k arbitrary: s)
  case (Suc k)
  let ?s = "loop_step g n c start s"
  have step: "?s = s\<lparr>inRequests := Suc (inRequests s), inBackoff := backoff_reset (inBackoff s), inSlept := inSlept s @ [10]\<rparr>"
    using Suc.prems by (cases s) (simp add: turn_simps sleep_def)
  have "inTopic (runEthereumLoop k g n c start ?s) = inTopic ?s \<and> inCursors (runEthereumLoop k g n c start ?s) = inCursors ?s"
    by (rule Suc.IH) (use Suc.prems in \<open>simp_all add: step\<close>)
  then show ?case by (simp add: step)
qed simp

lemma runEthereumLoop_add: "runEthereumLoop (j + k) g n c start s = runEthereumLoop k g n c start (runEthereumLoop j g n c start s)"
  by (induction j arbitrary: s) simp_all

text \<open>The deltas that block 2 of the sample node has, and that the runs below never publish.\<close>

lemma sample_block_deltas: "length (height_deltas sample_geth 1 ''eth'' sample_node 2) = 4"
proof -
  let ?b = "to_RawBlock sample_geth (sample_block 2 2 1 [sample_eth_tx])"
  have "\<exists>ds. extractDeltas sample_geth ''eth'' sample_eth_tx sample_receipt 1 ?b = Inr ds \<and> length ds = 4"
    by (simp add: extractDeltas_def sample_receipt_def sample_eth_tx_def ReceiptStatusFailed_def spend_side_def receive_side_def
        sample_geth_def transfer_step_def is_transfer_def transferTopic_def sample_transfer_def Let_def)
  then show ?thesis by (auto simp: height_deltas_def sample_node_def sample_block_def tx_part_def sample_eth_tx_def)
qed

text \<open>
  A rollback that is interrupted loses blocks. Deleting the orphans and moving the cursor back are two separate statements; when the second fails,
  the cursor still points past the deleted blocks, the next block has no recorded parent and counts as continuous, and the
  replacement of the orphaned block is never published, however long the worker runs.
\<close>

theorem interrupted_rollback_skips_block:
  "inTopic (runEthereumLoop (2 + k) sample_geth 1 ''eth'' 0 (sample_forked\<lparr>inSchedule := [Done, Done, Done, Done, Done, Failed]\<rparr>)) =
     [reorg_notice ''eth'' [hashHex sample_geth 9]] \<and>
   map_of (inCursors (runEthereumLoop (2 + k) sample_geth 1 ''eth'' 0 (sample_forked\<lparr>inSchedule := [Done, Done, Done, Done, Done, Failed]\<rparr>))) ''eth'' = Some 3 \<and>
   length (height_deltas sample_geth 1 ''eth'' sample_node 2) = 4"
proof -
  define s2 where "s2 = sample_indexer\<lparr>inRequests := 6,
    inBlocks := [row_of sample_geth ''eth'' 1 (sample_block 1 1 0 []), row_of sample_geth ''eth'' 3 (sample_block 3 3 2 [])],
    inCursors := [(''eth'', 3)], inTopic := [reorg_notice ''eth'' [hashHex sample_geth 9]], inSlept := [1]\<rparr>"
  have two: "runEthereumLoop 2 sample_geth 1 ''eth'' 0 (sample_forked\<lparr>inSchedule := [Done, Done, Done, Done, Done, Failed]\<rparr>) = s2"
    by (simp only: numeral_2_eq_2 runEthereumLoop.simps forked_first_turn forked_second_turn s2_def)
  have "inTopic (runEthereumLoop k sample_geth 1 ''eth'' 0 s2) = inTopic s2 \<and> inCursors (runEthereumLoop k sample_geth 1 ''eth'' 0 s2) = inCursors s2"
    by (rule idle_run [where h = 3]) (simp_all add: s2_def sample_indexer_def sample_node_def)
  then show ?thesis unfolding runEthereumLoop_add two by (simp add: s2_def sample_block_deltas)
qed

definition sample_flaky :: indexer where
  "sample_flaky = sample_indexer\<lparr>inNode := (\<lambda>t. if t = 2 then sample_node\<lparr>nvReceipt := (\<lambda>_. None)\<rparr> else sample_node), inCursors := [(''eth'', 1)]\<rparr>"

lemma flaky_first_turn:
  "loop_step sample_geth 1 ''eth'' 0 sample_flaky =
     sample_flaky\<lparr>inRequests := 3, inBlocks := [row_of sample_geth ''eth'' 2 (sample_block 2 2 1 [])], inCursors := [(''eth'', 2)]\<rparr>"
  by (simp add: turn_simps sample_flaky_def sample_indexer_def sample_node_def sample_block_def row_of_def to_RawBlock_def Extract_def
      PublishDeltas_def WriteMessages_def persistBlockAndCursor_def ix_transaction_def InsertBlock_def UpsertCursor_def backoff_reset_def newBackoff_def)

lemma flaky_second_turn:
  "loop_step sample_geth 1 ''eth'' 0 (sample_flaky\<lparr>inRequests := 3, inBlocks := [row_of sample_geth ''eth'' 2 (sample_block 2 2 1 [])], inCursors := [(''eth'', 2)]\<rparr>) =
     sample_flaky\<lparr>inRequests := 5, inBlocks := [row_of sample_geth ''eth'' 2 (sample_block 2 2 1 []), row_of sample_geth ''eth'' 3 (sample_block 3 3 2 [])],
       inCursors := [(''eth'', 3)]\<rparr>"
  by (simp add: turn_simps sample_flaky_def sample_indexer_def sample_node_def sample_block_def row_of_def to_RawBlock_def hashHex_inj [OF sample_geth_ok]
      PublishDeltas_def WriteMessages_def persistBlockAndCursor_def ix_transaction_def InsertBlock_def UpsertCursor_def backoff_reset_def newBackoff_def)

text \<open>
  One failed receipt request loses the transaction. The worker logs the error, publishes the rest of the block and moves on; the node has
  the receipt at every other request, but the four deltas are never published, however long the worker runs.
\<close>

theorem failed_receipt_loses_transaction:
  "inTopic (runEthereumLoop (2 + k) sample_geth 1 ''eth'' 0 sample_flaky) = [] \<and>
   map_of (inCursors (runEthereumLoop (2 + k) sample_geth 1 ''eth'' 0 sample_flaky)) ''eth'' = Some 3 \<and>
   length (height_deltas sample_geth 1 ''eth'' sample_node 2) = 4"
proof -
  define s2 where "s2 = sample_flaky\<lparr>inRequests := 5,
    inBlocks := [row_of sample_geth ''eth'' 2 (sample_block 2 2 1 []), row_of sample_geth ''eth'' 3 (sample_block 3 3 2 [])], inCursors := [(''eth'', 3)]\<rparr>"
  have two: "runEthereumLoop 2 sample_geth 1 ''eth'' 0 sample_flaky = s2"
    by (simp only: numeral_2_eq_2 runEthereumLoop.simps flaky_first_turn flaky_second_turn s2_def)
  have "inTopic (runEthereumLoop k sample_geth 1 ''eth'' 0 s2) = inTopic s2 \<and> inCursors (runEthereumLoop k sample_geth 1 ''eth'' 0 s2) = inCursors s2"
    by (rule idle_run [where h = 3]) (auto simp: s2_def sample_flaky_def sample_indexer_def sample_node_def)
  then show ?thesis unfolding runEthereumLoop_add two by (simp add: s2_def sample_block_deltas sample_flaky_def sample_indexer_def)
qed




text \<open>
  C22: whatever the indexer puts on the topic, the consumer can decode: over any number of turns every message is a delta with an integer amount
  or a reorg notice.
\<close>

theorem topic_decodable:
  assumes "geth_ok g" and "sane_node (inNode s)" and "inTopic s = []"
  shows "list_all (\<lambda>m. \<exists>p. ParseMessage (snd m) = Inr p) (inTopic (runEthereumLoop k g n c start s))"
proof -
  have "inNode (runEthereumLoop k g n c start s) = inNode s \<and> readable (runEthereumLoop k g n c start s)"
  proof (rule loop_invariant [where I = "\<lambda>t. inNode t = inNode s \<and> readable t"])
    fix t t'
    assume t: "inNode t = inNode s \<and> readable t" "turns_to g n c t t'"
    then show "inNode t' = inNode s \<and> readable t'"
      using turns_to_grows [OF t(2)] readable_turn [OF t(2) assms(1)] assms(2) by simp
  qed (simp add: readable_def assms(3))
  then show ?thesis by (simp add: readable_def decodes_def)
qed

lemma sample_node_sane: "sane_node (\<lambda>_. sample_node)"
  by (auto simp: sane_node_def sample_node_def sample_block_def in_int64_def sample_receipt_def split: if_splits)

theorem topic_decodable_witness:
  "list_all (\<lambda>m. \<exists>p. ParseMessage (snd m) = Inr p) (inTopic (runEthereumLoop 3 sample_geth 1 ''eth'' 1 sample_indexer))"
  by (rule topic_decodable [OF sample_geth_ok]) (simp_all add: sample_indexer_def sample_node_sane)

text \<open>
  C21: the indexer catches up. With a node that serves one chain and an environment without faults, as many turns as there are missing blocks bring
  the cursor to the tip, and the topic has received the deltas of exactly these blocks, in order.
\<close>

theorem indexer_catches_up:
  assumes "ready g c v h latest s" and "h \<le> latest"
  shows "map_of (inCursors (runEthereumLoop (nat (latest - h)) g n c start s)) c = Some latest \<and>
    inTopic (runEthereumLoop (nat (latest - h)) g n c start s) =
      inTopic s @ delta_messages (concat (map (height_deltas g n c v) [h + 1..latest]))"
  using ready_run [OF assms(1) refl assms(2)] by (simp add: ready_def)

lemma sample_ready: "ready sample_geth ''eth'' sample_node 0 3 (sample_indexer\<lparr>inCursors := [(''eth'', 0)]\<rparr>)"
proof -
  have "[1..3] = [1, 2, 3 :: int]" "[2..3] = [2, 3 :: int]" by (simp_all add: upto.simps)
  then show ?thesis
    by (simp add: ready_def sample_indexer_def linked_def of_chain_def serves_def sample_node_def sample_block_def stored_def)
qed

theorem indexer_catches_up_witness:
  "map_of (inCursors (runEthereumLoop 3 sample_geth 1 ''eth'' 0 (sample_indexer\<lparr>inCursors := [(''eth'', 0)]\<rparr>))) ''eth'' = Some 3 \<and>
   inTopic (runEthereumLoop 3 sample_geth 1 ''eth'' 0 (sample_indexer\<lparr>inCursors := [(''eth'', 0)]\<rparr>)) =
     delta_messages (concat (map (height_deltas sample_geth 1 ''eth'' sample_node) [1..3]))"
  using indexer_catches_up [OF sample_ready, of 1 0] by (simp add: sample_indexer_def)

lemma sample_rollback: "\<exists>s'. FindRollback sample_geth ''eth'' 3 sample_forked = (Inr ([hashHex sample_geth 9], 1), s')"
  by (simp add: turn_simps sample_forked_def sample_indexer_def sample_node_def sample_block_def row_of_def
      hashHex_inj [OF sample_geth_ok] FindRollback_def rollback_loop.simps BlockHash_def)

theorem find_rollback_exact_witness:
  "\<exists>s'. FindRollback sample_geth ''eth'' 3 sample_forked = (Inr ([hashHex sample_geth 9], 1), s') \<and>
     stored ''eth'' (inBlocks sample_forked) 2 = Some (hashHex sample_geth 9) \<and> diverged sample_geth ''eth'' sample_forked 0 2 \<and>
     stored ''eth'' (inBlocks sample_forked) 1 \<in> {None, node_hash sample_geth sample_forked 1 1}"
proof -
  obtain s' where s': "FindRollback sample_geth ''eth'' 3 sample_forked = (Inr ([hashHex sample_geth 9], 1), s')" using sample_rollback by blast
  have "inRequests sample_forked = 0" by (simp add: sample_forked_def sample_indexer_def)
  with find_rollback_exact [OF s'] s' show ?thesis by auto
qed

theorem find_rollback_returns_witness:
  "\<exists>rb a s'. FindRollback sample_geth ''eth'' 3 sample_forked = (Inr (rb, a), s')"
proof (rule find_rollback_returns)
  show "inSchedule sample_forked = []" by (simp add: sample_forked_def sample_indexer_def)
  fix t k
  assume "stored ''eth'' (inBlocks sample_forked) k \<noteq> None"
  then show "node_hash sample_geth sample_forked t k \<noteq> None"
    by (auto simp: stored_def sample_forked_def sample_indexer_def node_hash_def sample_node_def row_of_def at_height_def split: if_splits)
qed


section \<open>Pauses\<close>

definition pausing :: "indexer \<Rightarrow> backoff \<times> int list" where
  "pausing s = (inBackoff s, inSlept s)"

lemma pausing_upd [simp]:
  "pausing (s\<lparr>inSchedule := x1\<rparr>) = pausing s" "pausing (s\<lparr>inBlocks := x2\<rparr>) = pausing s" "pausing (s\<lparr>inCursors := x3\<rparr>) = pausing s"
  "pausing (s\<lparr>inTopic := x4\<rparr>) = pausing s" "pausing (s\<lparr>inWrites := x5\<rparr>) = pausing s" "pausing (s\<lparr>inRequests := x6\<rparr>) = pausing s"
  "pausing (ix_rollback t s) = pausing s"
  by (simp_all add: pausing_def ix_rollback_def)

lemma keeps_ix_stmt:
  assumes "\<And>s. pausing (snd (f s)) = pausing s"
  shows "keeps (\<lambda>s. pausing s = k) (ix_stmt f)"
proof (rule keepsI)
  fix s
  assume "pausing s = k"
  then show "pausing (snd (ix_stmt f s)) = k"
    using ix_stmt_cases [of f s "fst (ix_stmt f s)" "snd (ix_stmt f s)"] assms by (metis pausing_upd(1) prod.collapse snd_conv)
qed

lemma pausing_unchanged: "unchanged s t \<Longrightarrow> pausing t = pausing s"
  by (simp add: unchanged_def pausing_def)

lemma keeps_pausing:
  "keeps (\<lambda>s. pausing s = k) (node_call msg f)" "keeps (\<lambda>s. pausing s = k) (GetBlockHash c h)" "keeps (\<lambda>s. pausing s = k) (GetHeight c)"
  "keeps (\<lambda>s. pausing s = k) (InsertBlock b)" "keeps (\<lambda>s. pausing s = k) (UpsertCursor c h)" "keeps (\<lambda>s. pausing s = k) (DeleteBlocksFromHeight c h)"
  "keeps (\<lambda>s. pausing s = k) (WriteMessages msgs)" "keeps (\<lambda>s. pausing s = k) (FindRollback g c h)"
  "keeps (\<lambda>s. pausing s = k) (extract_block g n c r txs)"
  by (simp_all add: keeps_def [of _ "node_call msg f"] node_call_def keeps_def [of _ "WriteMessages msgs"] WriteMessages_def
      FindRollback_def keeps_def [of _ "rollback_loop _ _ _ _"] pausing_unchanged [OF rollback_loop_unchanged]
      keeps_def [of _ "extract_block g n c r txs"] extract_block_eq GetBlockHash_def GetHeight_def InsertBlock_def UpsertCursor_def
      DeleteBlocksFromHeight_def keeps_ix_stmt Let_def split: option.split)

lemma keeps_ix_transaction:
  assumes "keeps (\<lambda>s. pausing s = k) body"
  shows "keeps (\<lambda>s. pausing s = k) (ix_transaction body)"
proof (rule keepsI)
  fix s
  assume k: "pausing s = k"
  let ?s1 = "s\<lparr>inSchedule := tl (inSchedule s)\<rparr>"
  obtain r s2 where b: "body ?s1 = (r, s2)" by fastforce
  have "pausing s2 = k" using keepsD [OF assms _ b] k by simp
  then show "pausing (snd (ix_transaction body s)) = k"
    using k b by (cases r; cases "inSchedule s") (simp_all add: ix_transaction_def wrap_def ix_stmt_def Let_def split: outcome.split)
qed

lemma keeps_index_turn: "keeps (\<lambda>s. pausing s = k) (index_turn g n c start)"
  unfolding index_turn_def index_block_def LatestHeight_def FetchBlock_def IsContinuous_def handleReorg_def PublishDeltas_def PublishReorg_def
    persistBlockAndCursor_def
  by (intro keep_rules keeps_pausing keeps_ix_transaction)

definition pauses_ok :: "indexer \<Rightarrow> bool" where
  "pauses_ok s \<longleftrightarrow> boMax (inBackoff s) = 60 \<and> 1 \<le> boCur (inBackoff s) \<and> boCur (inBackoff s) \<le> 60 \<and> list_all (\<lambda>d. 1 \<le> d \<and> d \<le> 60) (inSlept s)"

text \<open>
  A failing worker never spins and never stalls: over any number of turns every pause is between one second and one minute.
\<close>

theorem pauses_bounded:
  assumes "inBackoff s = newBackoff" and "inSlept s = []"
  shows "list_all (\<lambda>d. 1 \<le> d \<and> d \<le> 60) (inSlept (runEthereumLoop k g n c start s))"
proof -
  have "pauses_ok (loop_step g n c start t)" if "pauses_ok t" for t
  proof -
    obtain r t1 where t1: "index_turn g n c start t = (r, t1)" by fastforce
    have "pausing t1 = pausing t" by (rule keepsD [OF keeps_index_turn refl t1])
    then show ?thesis using that
      by (cases r) (auto simp: pauses_ok_def pausing_def loop_step_def t1 sleep_def backoff_next_def backoff_reset_def split: turn.split)
  qed
  then have "pauses_ok (runEthereumLoop k g n c start s)" if "pauses_ok s" for s using that by (induction k arbitrary: s) auto
  moreover have "pauses_ok s" using assms by (simp add: pauses_ok_def newBackoff_def)
  ultimately show ?thesis by (simp add: pauses_ok_def)
qed

theorem pauses_bounded_witness:
  "list_all (\<lambda>d. 1 \<le> d \<and> d \<le> 60) (inSlept (runEthereumLoop 9 sample_geth 1 ''eth'' 0 (sample_indexer\<lparr>inSchedule := replicate 9 Failed\<rparr>)))"
  by (rule pauses_bounded) (simp_all add: sample_indexer_def)

end
