(* ===== verification/Config.thy ===== *)
theory Config
  imports Domain
begin

text \<open>
  Configuration: \<open>blockchain_cluster/internal/config/config.go\<close> and \<open>blockchain-indexer/internal/config/config.go\<close>. Both programs read a YAML file in which
  \<open>${VAR}\<close> stands for an environment variable. Reading the file, the environment and the YAML decoder (\<open>gopkg.in/yaml.v3\<close>) are parameters; the
  substitution by regular expression, the connection string, the broker list and what is used of \<open>time.ParseDuration\<close> are modelled.
\<close>

section \<open>Placeholders\<close>

text \<open>
  The regular expressions are \<open>${\<close>, a name, \<open>}\<close>. As no name contains a brace, the name is the longest run of name characters. A placeholder at the
  head of the text: its name and what follows.
\<close>

record name_syntax =
  nameChar :: "char \<Rightarrow> bool"
  nameOk :: "string \<Rightarrow> bool"

definition placeholder_at :: "name_syntax \<Rightarrow> string \<Rightarrow> (string \<times> string) option" where
  "placeholder_at sy s =
     (case s of
        c1 # c2 # r \<Rightarrow>
          if c1 = CHR ''$'' \<and> c2 = CHR ''{'' \<and> nameOk sy (takeWhile (nameChar sy) r) then
            (case dropWhile (nameChar sy) r of c3 # t \<Rightarrow> if c3 = CHR ''}'' then Some (takeWhile (nameChar sy) r, t) else None | [] \<Rightarrow> None)
          else None
      | _ \<Rightarrow> None)"

lemma placeholder_at_shorter: "placeholder_at sy s = Some (n, t) \<Longrightarrow> length t < length s"
proof -
  assume "placeholder_at sy s = Some (n, t)"
  then obtain c1 c2 r c3 where "s = c1 # c2 # r" "dropWhile (nameChar sy) r = c3 # t"
    by (auto simp: placeholder_at_def split: list.splits if_splits)
  moreover have "length (dropWhile (nameChar sy) r) \<le> length r" by (rule length_dropWhile_le)
  ultimately show ?thesis by simp
qed

text \<open>\<open>ReplaceAllStringFunc\<close>: leftmost, non-overlapping; the replacement is not scanned again.\<close>

function ReplaceAll :: "name_syntax \<Rightarrow> (string \<Rightarrow> string) \<Rightarrow> string \<Rightarrow> string" where
  "ReplaceAll sy getenv s =
     (case placeholder_at sy s of
        Some (name, t) \<Rightarrow> getenv name @ ReplaceAll sy getenv t
      | None \<Rightarrow> (case s of [] \<Rightarrow> [] | c # t \<Rightarrow> c # ReplaceAll sy getenv t))"
  by pat_completeness auto
termination
  by (relation "measure (\<lambda>(sy, getenv, s). length s)") (auto dest: placeholder_at_shorter)

declare ReplaceAll.simps [simp del]

definition upper :: "char list" where
  "upper = ''ABCDEFGHIJKLMNOPQRSTUVWXYZ''"

definition lower :: "char list" where
  "lower = ''abcdefghijklmnopqrstuvwxyz''"

definition digits :: "char list" where
  "digits = ''0123456789''"

text \<open>\<open>[A-Z0-9_]+\<close> in the clustering service, \<open>[A-Za-z_][A-Za-z0-9_]*\<close> in the indexer.\<close>

definition cluster_names :: name_syntax where
  "cluster_names = \<lparr>nameChar = (\<lambda>c. c \<in> set (upper @ digits @ ''_'')), nameOk = (\<lambda>n. n \<noteq> [])\<rparr>"

definition indexer_names :: name_syntax where
  "indexer_names = \<lparr>nameChar = (\<lambda>c. c \<in> set (upper @ lower @ digits @ ''_'')),
     nameOk = (\<lambda>n. n \<noteq> [] \<and> hd n \<notin> set digits)\<rparr>"


section \<open>The configuration of the clustering service\<close>

record AppConfig =
  apEnv :: string
  apPort :: string
  apLogLevel :: string

record DatabaseConfig =
  dcHost :: string
  dcPort :: string
  dcName :: string
  dcUser :: string
  dcPassword :: string
  dcSchema :: string
  dcSSLMode :: string

record KafkaConfig =
  kcBrokers :: string
  kcTopicBalanceDelta :: string
  kcConsumerGroupID :: string
  kcFlushInterval :: string

record LabelMaintenanceConfig =
  lmInterval :: string
  lmStaleTTL :: string
  lmDecayFactor :: float64

record Config =
  cfApp :: AppConfig
  cfDatabase :: DatabaseConfig
  cfKafka :: KafkaConfig
  cfLabelMaintenance :: LabelMaintenanceConfig

text \<open>Files, environment and the YAML decoder.\<close>

record 'c config_env =
  readFile :: "string \<Rightarrow> error + string"
  getenv :: "string \<Rightarrow> string"
  unmarshal :: "string \<Rightarrow> error + 'c"

definition Load :: "Config config_env \<Rightarrow> string \<Rightarrow> error + Config" where
  "Load env path =
     (case readFile env path of
        Inl e \<Rightarrow> Inl (ErrWrap ''read config'' e)
      | Inr raw \<Rightarrow>
          (case unmarshal env (ReplaceAll cluster_names (getenv env) raw) of
             Inl e \<Rightarrow> Inl (ErrWrap ''parse config'' e)
           | Inr cfg \<Rightarrow> Inr cfg))"

definition DSN :: "Config \<Rightarrow> string" where
  "DSN cfg = (let d = cfDatabase cfg in
     ''postgres://'' @ dcUser d @ '':'' @ dcPassword d @ ''@'' @ dcHost d @ '':'' @ dcPort d @ ''/'' @ dcName d @
     ''?sslmode='' @ dcSSLMode d @ ''&search_path='' @ dcSchema d)"

text \<open>\<open>strings.Split\<close> at a single character.\<close>

fun Split :: "char \<Rightarrow> string \<Rightarrow> string list" where
  "Split c [] = [[]]"
| "Split c (x # xs) = (if x = c then [] # Split c xs else (x # hd (Split c xs)) # tl (Split c xs))"

definition KafkaBrokerList :: "Config \<Rightarrow> string list" where
  "KafkaBrokerList cfg = Split CHR '','' (kcBrokers (cfKafka cfg))"


section \<open>The configuration of the indexer\<close>

record SASLConfig =
  saMechanism :: string
  saUsername :: string
  saPassword :: string

record IxKafkaConfig =
  ikBrokers :: "string list"
  ikTopic :: string
  ikSASL :: "SASLConfig option"

record IxConfig =
  ixKafka :: IxKafkaConfig
  ixPostgresDSN :: string
  ixMetricsListenAddr :: string

definition Ix_Load :: "IxConfig config_env \<Rightarrow> string \<Rightarrow> error + IxConfig" where
  "Ix_Load env path =
     (case readFile env path of
        Inl e \<Rightarrow> Inl (ErrWrap ''read config'' e)
      | Inr raw \<Rightarrow>
          (case unmarshal env (ReplaceAll indexer_names (getenv env) raw) of
             Inl e \<Rightarrow> Inl (ErrWrap ''parse config'' e)
           | Inr cfg \<Rightarrow> Inr cfg))"


section \<open>Durations\<close>

text \<open>
  \<open>time.ParseDuration\<close>: an optional sign and a sequence of decimal numbers with units, in nanoseconds. Numbers are \<open>uint64\<close> and may not exceed
  \<open>2^63\<close>; the fraction of a number is converted in \<open>float64\<close>.
\<close>

fun leadingInt :: "int \<Rightarrow> string \<Rightarrow> (int \<times> string) option" where
  "leadingInt x [] = Some (x, [])"
| "leadingInt x (c # s) =
     (case digit_val c of
        None \<Rightarrow> Some (x, c # s)
      | Some d \<Rightarrow> if 2 ^ 63 div 10 < x \<or> 2 ^ 63 < x * 10 + int d then None else leadingInt (x * 10 + int d) s)"

fun leadingFraction :: "int \<Rightarrow> float64 \<Rightarrow> bool \<Rightarrow> string \<Rightarrow> int \<times> float64 \<times> string" where
  "leadingFraction x scale overflow [] = (x, scale, [])"
| "leadingFraction x scale overflow (c # s) =
     (case digit_val c of
        None \<Rightarrow> (x, scale, c # s)
      | Some d \<Rightarrow>
          if overflow \<or> (2 ^ 63 - 1) div 10 < x \<or> 2 ^ 63 < x * 10 + int d then leadingFraction x scale True s
          else leadingFraction (x * 10 + int d) (fmul scale 10) False s)"

text \<open>The unit names; the two spellings of the micro sign are their UTF-8 bytes.\<close>

definition unitMap :: "string \<Rightarrow> int option" where
  "unitMap = map_of [(''ns'', 1), (''us'', 1000), ([CHR 0xC2, CHR 0xB5, CHR ''s''], 1000), ([CHR 0xCE, CHR 0xBC, CHR ''s''], 1000),
     (''ms'', 1000000), (''s'', 1000000000), (''m'', 60000000000), (''h'', 3600000000000)]"

definition in_number :: "char \<Rightarrow> bool" where
  "in_number c \<longleftrightarrow> c = CHR ''.'' \<or> digit_val c \<noteq> None"

definition parse_fraction :: "string \<Rightarrow> int \<times> float64 \<times> string \<times> bool" where
  "parse_fraction s =
     (case s of
        [] \<Rightarrow> (0, 1, s, False)
      | c # t \<Rightarrow> if c = CHR ''.'' then (case leadingFraction 0 1 False t of (f, scale, r) \<Rightarrow> (f, scale, r, length t \<noteq> length r)) else (0, 1, s, False))"

definition with_unit :: "int \<Rightarrow> int \<Rightarrow> float64 \<Rightarrow> int \<Rightarrow> int option" where
  "with_unit v f scale unit =
     (if 2 ^ 63 div unit < v then None
      else let w = v * unit + (if 0 < f then \<lfloor>fmul (float_of_int f) (fdiv (float_of_int unit) scale)\<rfloor> else 0)
        in if 0 < f \<and> 2 ^ 63 < w then None else Some w)"

text \<open>One number with its unit, and what follows.\<close>

definition parse_term :: "string \<Rightarrow> (int \<times> string) option" where
  "parse_term s =
     (if s = [] \<or> \<not> in_number (hd s) then None
      else case leadingInt 0 s of
        None \<Rightarrow> None
      | Some (v, s1) \<Rightarrow>
          (case parse_fraction s1 of (f, scale, s2, post) \<Rightarrow>
             if length s = length s1 \<and> \<not> post then None
             else if takeWhile (\<lambda>c. \<not> in_number c) s2 = [] then None
             else (case unitMap (takeWhile (\<lambda>c. \<not> in_number c) s2) of
                 None \<Rightarrow> None
               | Some unit \<Rightarrow> map_option (\<lambda>w. (w, dropWhile (\<lambda>c. \<not> in_number c) s2)) (with_unit v f scale unit))))"

lemma leadingInt_length: "leadingInt x s = Some (v, r) \<Longrightarrow> length r \<le> length s"
  by (induction x s rule: leadingInt.induct) (auto split: option.splits if_splits)

lemma leadingFraction_length: "leadingFraction x sc ov s = (f, sc', r) \<Longrightarrow> length r \<le> length s"
  by (induction x sc ov s rule: leadingFraction.induct) (auto split: option.splits if_splits)

lemma parse_fraction_length: "parse_fraction s = (f, sc, r, post) \<Longrightarrow> length r \<le> length s"
  by (auto simp: parse_fraction_def split: list.splits if_splits prod.splits dest: leadingFraction_length)

lemma parse_term_shorter:
  assumes "parse_term s = Some (w, r)"
  shows "length r < length s"
proof -
  obtain v s1 f scale s2 post where 1: "leadingInt 0 s = Some (v, s1)" "parse_fraction s1 = (f, scale, s2, post)"
    and u: "takeWhile (\<lambda>c. \<not> in_number c) s2 \<noteq> []" and r: "r = dropWhile (\<lambda>c. \<not> in_number c) s2"
    using assms by (auto simp: parse_term_def split: if_splits option.splits prod.splits)
  have "length s2 = length (takeWhile (\<lambda>c. \<not> in_number c) s2) + length r"
    unfolding r by (metis length_append takeWhile_dropWhile_id)
  then have "length r < length s2" using u by (cases "takeWhile (\<lambda>c. \<not> in_number c) s2") auto
  then show ?thesis using leadingInt_length [OF 1(1)] parse_fraction_length [OF 1(2)] by simp
qed

text \<open>The sum is a \<open>uint64\<close>.\<close>

function parse_terms :: "int \<Rightarrow> string \<Rightarrow> int option" where
  "parse_terms d s =
     (if s = [] then Some d
      else case parse_term s of
        None \<Rightarrow> None
      | Some (w, r) \<Rightarrow> if 2 ^ 63 < (d + w) mod 2 ^ 64 then None else parse_terms ((d + w) mod 2 ^ 64) r)"
  by pat_completeness auto
termination
  by (relation "measure (\<lambda>(d, s). length s)") (auto dest: parse_term_shorter)

declare parse_terms.simps [simp del]

definition ParseDuration :: "string \<Rightarrow> error + int" where
  "ParseDuration orig =
     (let signed = (orig \<noteq> [] \<and> hd orig \<in> {CHR ''-'', CHR ''+''});
          neg = (signed \<and> hd orig = CHR ''-'');
          s = (if signed then tl orig else orig)
      in if s = ''0'' then Inr 0
         else if s = [] then Inl (ErrMsg (''time: invalid duration '' @ orig))
         else case parse_terms 0 s of
             None \<Rightarrow> Inl (ErrMsg (''time: invalid duration '' @ orig))
           | Some d \<Rightarrow> if neg then Inr (- d)
               else if 2 ^ 63 - 1 < d then Inl (ErrMsg (''time: invalid duration '' @ orig)) else Inr d)"

definition LabelMaintenanceInterval :: "Config \<Rightarrow> error + int" where
  "LabelMaintenanceInterval cfg = ParseDuration (lmInterval (cfLabelMaintenance cfg))"

definition LabelMaintenanceStaleTTL :: "Config \<Rightarrow> error + int" where
  "LabelMaintenanceStaleTTL cfg = ParseDuration (lmStaleTTL (cfLabelMaintenance cfg))"

definition ConsumerFlushInterval :: "Config \<Rightarrow> error + int" where
  "ConsumerFlushInterval cfg = ParseDuration (kcFlushInterval (cfKafka cfg))"


section \<open>Substitution\<close>

text \<open>
  What makes a name syntax work: neither \<open>$\<close> nor \<open>}\<close> belongs to a name, and a name is not empty. Then placeholders cannot overlap,
  and every one is replaced wherever it stands.
\<close>

definition placeholder :: "string \<Rightarrow> string" where
  "placeholder name = ''${'' @ name @ ''}''"

locale placeholder_syntax =
  fixes sy :: name_syntax
  assumes no_dollar: "\<not> nameChar sy CHR ''$''" and no_brace: "\<not> nameChar sy CHR ''}''" and nonempty: "nameOk sy n \<Longrightarrow> n \<noteq> []"
begin

lemma at_placeholder:
  assumes "nameOk sy n" and "list_all (nameChar sy) n"
  shows "placeholder_at sy (placeholder n @ b) = Some (n, b)"
proof -
  have "takeWhile (nameChar sy) (n @ CHR ''}'' # b) = n" "dropWhile (nameChar sy) (n @ CHR ''}'' # b) = CHR ''}'' # b"
    using assms(2) no_brace by (simp_all add: takeWhile_append2 dropWhile_append2 list_all_iff)
  then show ?thesis using assms(1) by (simp add: placeholder_at_def placeholder_def)
qed

text \<open>A placeholder that begins in \<open>a\<close> ends in \<open>a\<close>, whatever comes after the next dollar sign.\<close>

lemma before_dollar:
  assumes "a \<noteq> []"
  shows "placeholder_at sy (a @ CHR ''$'' # z) = map_option (\<lambda>(n, t). (n, t @ CHR ''$'' # z)) (placeholder_at sy a)"
proof -
  have run: "takeWhile (nameChar sy) (r @ CHR ''$'' # z) = takeWhile (nameChar sy) r \<and>
      dropWhile (nameChar sy) (r @ CHR ''$'' # z) = dropWhile (nameChar sy) r @ CHR ''$'' # z" for r
    using no_dollar by (induction r) simp_all
  show ?thesis
  proof (cases a)
    case (Cons c1 t)
    show ?thesis
    proof (cases t)
      case (Cons c2 r)
      then show ?thesis using \<open>a = c1 # t\<close> by (cases "dropWhile (nameChar sy) r") (simp_all add: placeholder_at_def run del: dropWhile_eq_Nil_conv)
    qed (use \<open>a = c1 # t\<close> in \<open>simp add: placeholder_at_def\<close>)
  qed (use assms in simp)
qed

lemma replaces:
  assumes "nameOk sy n" and "list_all (nameChar sy) n"
  shows "ReplaceAll sy env (a @ placeholder n @ b) = ReplaceAll sy env a @ env n @ ReplaceAll sy env b"
proof (induction a rule: length_induct)
  case (1 a)
  obtain z where z: "placeholder n @ b = CHR ''$'' # z" by (simp add: placeholder_def)
  show ?case
  proof (cases "a = []")
    case True
    then show ?thesis using at_placeholder [OF assms]
      by (subst ReplaceAll.simps) (simp add: ReplaceAll.simps [of sy env "[]"] placeholder_at_def [of sy "[]"])
  next
    case False
    note B = before_dollar [OF False, of z, folded z]
    show ?thesis
    proof (cases "placeholder_at sy a")
      case None
      then show ?thesis using 1 False B
        by (subst (1 2) ReplaceAll.simps) (auto simp: neq_Nil_conv)
    next
      case (Some p)
      obtain m t where p: "p = (m, t)" by fastforce
      then have "length t < length a" using Some placeholder_at_shorter by blast
      then show ?thesis using 1 B Some p by (subst (1 2) ReplaceAll.simps) simp
    qed
  qed
qed

lemma plain: "CHR ''$'' \<notin> set s \<Longrightarrow> ReplaceAll sy env s = s"
proof (induction s)
  case (Cons c s)
  then have "placeholder_at sy (c # s) = None" by (auto simp: placeholder_at_def split: list.split)
  then show ?case using Cons by (subst ReplaceAll.simps) simp
qed (subst ReplaceAll.simps, simp add: placeholder_at_def)

end

interpretation cluster_placeholders: placeholder_syntax cluster_names
  by unfold_locales (simp_all add: cluster_names_def upper_def digits_def)

interpretation indexer_placeholders: placeholder_syntax indexer_names
  by unfold_locales (simp_all add: indexer_names_def upper_def lower_def digits_def)

text \<open>A configuration file as plain text and placeholders.\<close>

datatype segment = Text string | Var string

fun template :: "segment list \<Rightarrow> string" where
  "template [] = []"
| "template (Text s # segs) = s @ template segs"
| "template (Var n # segs) = placeholder n @ template segs"

fun filled :: "(string \<Rightarrow> string) \<Rightarrow> segment list \<Rightarrow> string" where
  "filled env [] = []"
| "filled env (Text s # segs) = s @ filled env segs"
| "filled env (Var n # segs) = env n @ filled env segs"

fun well_named :: "name_syntax \<Rightarrow> segment \<Rightarrow> bool" where
  "well_named sy (Text s) = (CHR ''$'' \<notin> set s)"
| "well_named sy (Var n) = (nameOk sy n \<and> list_all (nameChar sy) n)"

context placeholder_syntax
begin

lemma fills:
  "list_all (well_named sy) segs \<Longrightarrow> CHR ''$'' \<notin> set pre \<Longrightarrow> ReplaceAll sy env (pre @ template segs) = pre @ filled env segs"
proof (induction segs arbitrary: pre)
  case Nil
  then show ?case by (simp add: plain)
next
  case (Cons x segs)
  show ?case
  proof (cases x)
    case (Text s)
    then show ?thesis using Cons.IH [of "pre @ s"] Cons.prems by simp
  next
    case (Var n)
    then show ?thesis using Cons.IH [of "[]"] Cons.prems replaces [of n env pre "template segs"] by (simp add: plain)
  qed
qed

end




section \<open>Broker list and connection string\<close>

fun join :: "char \<Rightarrow> string list \<Rightarrow> string" where
  "join c [] = []"
| "join c [s] = s"
| "join c (s # ss) = s @ c # join c ss"

lemma Split_nonempty [simp]: "Split c s \<noteq> []"
  by (cases s) simp_all

lemma Split_plain: "c \<notin> set s \<Longrightarrow> Split c (s @ t) = (s @ hd (Split c t)) # tl (Split c t)"
  by (induction s) auto

lemma Split_join: "ss \<noteq> [] \<Longrightarrow> list_all (\<lambda>s. c \<notin> set s) ss \<Longrightarrow> Split c (join c ss) = ss"
proof (induction c ss rule: join.induct)
  case (2 c s)
  then show ?case using Split_plain [of c s "[]"] by simp
next
  case (3 c s s' ss)
  then show ?case using Split_plain [of c s "c # join c (s' # ss)"] by simp
qed simp

text \<open>A list of brokers written with commas is read back; an empty setting is one broker with an empty name.\<close>

theorem broker_list_roundtrip:
  assumes "brokers \<noteq> []" and "list_all (\<lambda>b. CHR '','' \<notin> set b) brokers" and "kcBrokers (cfKafka cfg) = join CHR '','' brokers"
  shows "KafkaBrokerList cfg = brokers"
  using Split_join [OF assms(1,2)] assms(3) by (simp add: KafkaBrokerList_def)

text \<open>
  The parts of the connection string are put together without escaping, so it does not determine them: a password with an at sign
  names another host.
\<close>

definition sample_config :: Config where
  "sample_config =
     \<lparr>cfApp = \<lparr>apEnv = ''dev'', apPort = ''8080'', apLogLevel = ''debug''\<rparr>,
      cfDatabase = \<lparr>dcHost = ''db'', dcPort = ''5432'', dcName = ''c'', dcUser = ''app'', dcPassword = ''secret'', dcSchema = ''clustering'',
        dcSSLMode = ''disable''\<rparr>,
      cfKafka = \<lparr>kcBrokers = ''localhost:9092'', kcTopicBalanceDelta = ''balance-deltas'', kcConsumerGroupID = ''clustering-consumer'',
        kcFlushInterval = ''10s''\<rparr>,
      cfLabelMaintenance = \<lparr>lmInterval = ''24h'', lmStaleTTL = ''720h'', lmDecayFactor = 1 / 2\<rparr>\<rparr>"

definition with_host :: "string \<Rightarrow> string \<Rightarrow> Config" where
  "with_host password host = sample_config\<lparr>cfDatabase := (cfDatabase sample_config)\<lparr>dcPassword := password, dcHost := host\<rparr>\<rparr>"

theorem dsn_ambiguous:
  "DSN (with_host ''p'' ''evil@db'') = DSN (with_host ''p@evil'' ''db'') \<and>
   dcHost (cfDatabase (with_host ''p'' ''evil@db'')) \<noteq> dcHost (cfDatabase (with_host ''p@evil'' ''db''))"
  by (simp add: DSN_def with_host_def Let_def)


section \<open>Durations as written\<close>

lemma leadingInt_digits:
  "atou_loop acc ds = Some v \<Longrightarrow> int v \<le> 2 ^ 63 \<Longrightarrow> r = [] \<or> digit_val (hd r) = None \<Longrightarrow> leadingInt (int acc) (ds @ r) = Some (int v, r)"
proof (induction ds arbitrary: acc)
  case Nil
  then show ?case by (cases r) simp_all
next
  case (Cons c ds)
  then obtain d where d: "digit_val c = Some d" "atou_loop (acc * 10 + d) ds = Some v" by (auto split: option.splits)
  have mono: "atou_loop k xs = Some v \<Longrightarrow> k \<le> v" for k xs
    by (induction xs arbitrary: k) (force split: option.splits)+
  have "acc * 10 + d \<le> v" using mono d(2) by blast
  then have b: "int acc * 10 + int d \<le> 2 ^ 63" using Cons.prems(2) by linarith
  then have "\<not> 2 ^ 63 div 10 < int acc" by (simp add: not_less)
  moreover have "leadingInt (int (acc * 10 + d)) (ds @ r) = Some (int v, r)" using Cons d(2) by blast
  ultimately show ?case using d(1) b by (simp add: not_less)
qed

lemma utoa_in_number: "in_number (hd (utoa n @ r))"
proof -
  obtain c cs where c: "utoa n = c # cs" using utoa_nonempty by (metis neq_Nil_conv)
  then have "digit_val c \<noteq> None" using atou_loop_utoa [of n] by (auto split: option.splits)
  then show ?thesis using c by (simp add: in_number_def)
qed

text \<open>A number with a unit, followed by the end or by another number.\<close>

lemma parse_term_number:
  assumes u: "unitMap u = Some unit" "0 < unit" "u \<noteq> []" "list_all (\<lambda>c. \<not> in_number c) u" and r: "r = [] \<or> in_number (hd r)"
    and b: "int n * unit \<le> 2 ^ 63"
  shows "parse_term (utoa n @ u @ r) = Some (int n * unit, r)"
proof -
  have hd_u: "\<not> in_number (hd (u @ r))" using u(3,4) by (cases u) simp_all
  have ne: "u @ r \<noteq> []" using u(3) by simp
  have "int n \<le> int n * unit" using u(2) by (simp add: mult_le_cancel_left1)
  then have n: "int n \<le> 2 ^ 63" using b by linarith
  have L: "leadingInt 0 (utoa n @ u @ r) = Some (int n, u @ r)"
    using leadingInt_digits [OF atou_loop_utoa n, of "u @ r"] hd_u by (simp add: in_number_def)
  have F: "parse_fraction (u @ r) = (0, 1, u @ r, False)"
    using hd_u ne by (cases "u @ r") (simp_all add: parse_fraction_def in_number_def)
  have T: "takeWhile (\<lambda>c. \<not> in_number c) (u @ r) = u" "dropWhile (\<lambda>c. \<not> in_number c) (u @ r) = r"
    using u(4) r by (cases r; simp add: takeWhile_append2 dropWhile_append2 list_all_iff)+
  have "int n \<le> 2 ^ 63 div unit" using zdiv_mono1 [OF b u(2)] u(2) by simp
  then have W: "with_unit (int n) 0 1 unit = Some (int n * unit)" by (simp add: with_unit_def not_less)
  show ?thesis unfolding parse_term_def L F option.case prod.case T W
    using u utoa_nonempty [of n] utoa_in_number [of n "u @ r"] W by simp
qed

lemma parse_terms_step:
  "parse_term s = Some (w, r) \<Longrightarrow> s \<noteq> [] \<Longrightarrow> 0 \<le> d \<Longrightarrow> 0 \<le> w \<Longrightarrow> d + w \<le> 2 ^ 63 \<Longrightarrow> parse_terms d s = parse_terms (d + w) r"
  by (subst parse_terms.simps) simp

definition hms :: "nat \<Rightarrow> nat \<Rightarrow> nat \<Rightarrow> string" where
  "hms h m s = utoa h @ ''h'' @ utoa m @ ''m'' @ utoa s @ ''s''"

text \<open>A duration in hours, minutes and seconds is read as the nanoseconds it denotes, as long as it fits an \<open>int64\<close>.\<close>

lemma parse_hms:
  assumes "(int h * 3600 + int m * 60 + int s) * 10 ^ 9 < 2 ^ 63"
  shows "ParseDuration (hms h m s) = Inr ((int h * 3600 + int m * 60 + int s) * 10 ^ 9)"
proof -
  have n: "\<not> in_number CHR ''h''" "\<not> in_number CHR ''m''" "\<not> in_number CHR ''s''" by code_simp+
  have 1: "parse_term (hms h m s) = Some (int h * 3600000000000, utoa m @ ''m'' @ utoa s @ ''s'')"
    unfolding hms_def using parse_term_number [of "''h''" 3600000000000 "utoa m @ ''m'' @ utoa s @ ''s''" h] utoa_in_number n assms
    by (simp add: unitMap_def)
  have 2: "parse_term (utoa m @ ''m'' @ utoa s @ ''s'') = Some (int m * 60000000000, utoa s @ ''s'')"
    using parse_term_number [of "''m''" 60000000000 "utoa s @ ''s''" m] utoa_in_number n assms by (simp add: unitMap_def)
  have 3: "parse_term (utoa s @ ''s'') = Some (int s * 1000000000, [])"
    using parse_term_number [of "''s''" 1000000000 "[]" s] n assms by (simp add: unitMap_def)
  have ne: "hms h m s \<noteq> []" "utoa m @ ''m'' @ utoa s @ ''s'' \<noteq> []" "utoa s @ ''s'' \<noteq> []" "hms h m s \<noteq> ''0''" 
    by (auto simp: hms_def append_eq_Cons_conv utoa_nonempty)
  have sgn: "hd (hms h m s) \<notin> {CHR ''-'', CHR ''+''}" using utoa_hd [of h] utoa_nonempty [of h] by (auto simp: hms_def hd_append)
  have "parse_terms 0 (hms h m s) = Some (int h * 3600000000000 + int m * 60000000000 + int s * 1000000000)"
    using parse_terms_step [OF 1, of 0] parse_terms_step [OF 2, of "int h * 3600000000000"]
      parse_terms_step [OF 3, of "int h * 3600000000000 + int m * 60000000000"] assms ne
    by (simp add: parse_terms.simps [of _ "[]"])
  then show ?thesis using ne sgn assms unfolding ParseDuration_def Let_def by (simp add: algebra_simps)
qed

end
