(* ===== verification/QueryService.thy ===== *)
theory QueryService
  imports Consumer
begin

text \<open>
  \<open>internal/queryservice\<close> (\<open>router.go\<close>, \<open>handlers.go\<close>) and the maintenance loop of \<open>cmd/server/main.go\<close>: the HTTP
  read interface of the clustering service. A handler maps the database to a response; the router is a function on the seven kinds of request.
  URL decoding and the literal syntax of \<open>strconv.ParseFloat\<close> are outside the model: \<open>min_confidence\<close> arrives as the number it denotes,
  or \<open>None\<close> when it is not a number.
\<close>

section \<open>Responses\<close>

datatype payload =
    ClusterBody string float64
  | MembersBody string "string list"
  | SameBody bool float64
  | EvidenceBody "MergeEvidence list"
  | LabelsBody "Label list"
  | HubBody bool "string option" "float64 option"
  | ErrorBody string

record response =
  rsStatus :: nat
  rsBody :: payload

definition writeJSON :: "nat \<Rightarrow> payload \<Rightarrow> response" where
  "writeJSON status body = \<lparr>rsStatus = status, rsBody = body\<rparr>"

definition writeError :: "nat \<Rightarrow> string \<Rightarrow> response" where
  "writeError status message = writeJSON status (ErrorBody message)"

fun error_text :: "error \<Rightarrow> string" where
  "error_text (ErrMsg m) = m"
| "error_text (ErrDb m) = m"
| "error_text (ErrWrap p e) = p @ '': '' @ error_text e"

text \<open>The tail of every handler: an error of the store is a 500 with its text.\<close>

definition respond :: "'a sql \<Rightarrow> ('a \<Rightarrow> response) \<Rightarrow> db \<Rightarrow> response \<times> db" where
  "respond m f s = (case m s of (Inl e, s1) \<Rightarrow> (writeError 500 (error_text e), s1) | (Inr x, s1) \<Rightarrow> (f x, s1))"

type_synonym url_query = "(string \<times> string) list"

definition query_get :: "url_query \<Rightarrow> string \<Rightarrow> string" where
  "query_get q k = (case map_of q k of None \<Rightarrow> [] | Some v \<Rightarrow> v)"

definition Atoi :: "string \<Rightarrow> int option" where
  "Atoi raw = (case SetString10 raw of None \<Rightarrow> None | Some v \<Rightarrow> if in_int64 v then Some v else None)"

definition paginationParams :: "url_query \<Rightarrow> (int \<times> int) option" where
  "paginationParams q =
     (case (if query_get q ''limit'' \<noteq> [] then Atoi (query_get q ''limit'') else Some 100) of
        None \<Rightarrow> None
      | Some limit \<Rightarrow>
          (case (if query_get q ''offset'' \<noteq> [] then Atoi (query_get q ''offset'') else Some 0) of
             None \<Rightarrow> None
           | Some offset \<Rightarrow> Some (limit, offset)))"


section \<open>Handlers\<close>

definition handleClusterOf :: "range_order \<Rightarrow> string \<Rightarrow> string \<Rightarrow> float64 option \<Rightarrow> db \<Rightarrow> response \<times> db" where
  "handleClusterOf ro chainID address minConfidence s =
     (case minConfidence of
        None \<Rightarrow> (writeError 400 ''invalid min_confidence'', s)
      | Some mc \<Rightarrow> respond (ClusterOf ro chainID address mc) (\<lambda>r. case r of
            None \<Rightarrow> writeError 404 ''address has no cluster at this confidence threshold''
          | Some (clusterID, confidence) \<Rightarrow> writeJSON 200 (ClusterBody clusterID confidence)) s)"

definition handleMembersOf :: "range_order \<Rightarrow> string \<Rightarrow> string \<Rightarrow> float64 option \<Rightarrow> url_query \<Rightarrow> db \<Rightarrow> response \<times> db" where
  "handleMembersOf ro chainID clusterID minConfidence q s =
     (case minConfidence of
        None \<Rightarrow> (writeError 400 ''invalid min_confidence'', s)
      | Some mc \<Rightarrow>
          (case paginationParams q of
             None \<Rightarrow> (writeError 400 ''invalid limit/offset'', s)
           | Some (limit, offset) \<Rightarrow>
               respond (MembersOf ro chainID clusterID mc limit offset) (\<lambda>members. writeJSON 200 (MembersBody clusterID members)) s))"

definition handleSameCluster :: "range_order \<Rightarrow> range_order \<Rightarrow> string \<Rightarrow> url_query \<Rightarrow> float64 option \<Rightarrow> db \<Rightarrow> response \<times> db" where
  "handleSameCluster ro ro' chainID q minConfidence s =
     (let a = query_get q ''a''; b = query_get q ''b'' in
      if a = [] \<or> b = [] then (writeError 400 ''both ?a= and ?b= are required'', s)
      else case minConfidence of
        None \<Rightarrow> (writeError 400 ''invalid min_confidence'', s)
      | Some mc \<Rightarrow> respond (SameCluster ro ro' chainID a b mc) (\<lambda>(same, confidence). writeJSON 200 (SameBody same confidence)) s)"

definition handleEvidenceOf :: "range_order \<Rightarrow> string \<Rightarrow> url_query \<Rightarrow> db \<Rightarrow> response \<times> db" where
  "handleEvidenceOf ro chainID q s =
     (let clusterID = query_get q ''cluster_id''; addressA = query_get q ''address_a''; addressB = query_get q ''address_b'' in
      if clusterID \<noteq> [] then
        respond (bnd (MembersOf ro chainID clusterID 0 100000 0) (\<lambda>members. ByAddresses chainID members)) (\<lambda>rows. writeJSON 200 (EvidenceBody rows)) s
      else if addressA \<noteq> [] \<and> addressB \<noteq> [] then
        respond (ByAddressPair chainID addressA addressB) (\<lambda>rows. writeJSON 200 (EvidenceBody rows)) s
      else (writeError 400 ''provide either ?cluster_id= or both ?address_a=&address_b='', s))"

definition handleLabelsOfCluster :: "string \<Rightarrow> string \<Rightarrow> db \<Rightarrow> response \<times> db" where
  "handleLabelsOfCluster chainID clusterID = respond (LabelsOf chainID ''cluster'' clusterID) (\<lambda>labels. writeJSON 200 (LabelsBody labels))"

definition handleLabelsOfAddress :: "string \<Rightarrow> string \<Rightarrow> db \<Rightarrow> response \<times> db" where
  "handleLabelsOfAddress chainID addr = respond (LabelsOf chainID ''address'' addr) (\<lambda>labels. writeJSON 200 (LabelsBody labels))"

definition handleHubStatus :: "string \<Rightarrow> string \<Rightarrow> db \<Rightarrow> response \<times> db" where
  "handleHubStatus chainID addr = respond (Get chainID addr) (\<lambda>r. case r of
     None \<Rightarrow> writeError 404 ''address not seen''
   | Some a \<Rightarrow> writeJSON 200 (HubBody (adIsHub a) (adHubType a) (adHubConfidence a)))"

datatype request =
    GetAddressCluster string string "float64 option"
  | GetAddressLabels string string
  | GetHubStatus string string
  | GetClusterMembers string string "float64 option" url_query
  | GetClusterLabels string string
  | GetSameCluster string url_query "float64 option"
  | GetEvidence string url_query

fun route :: "range_order \<Rightarrow> range_order \<Rightarrow> request \<Rightarrow> db \<Rightarrow> response \<times> db" where
  "route ro ro' (GetAddressCluster c a mc) = handleClusterOf ro c a mc"
| "route ro ro' (GetAddressLabels c a) = handleLabelsOfAddress c a"
| "route ro ro' (GetHubStatus c a) = handleHubStatus c a"
| "route ro ro' (GetClusterMembers c k mc q) = handleMembersOf ro c k mc q"
| "route ro ro' (GetClusterLabels c k) = handleLabelsOfCluster c k"
| "route ro ro' (GetSameCluster c q mc) = handleSameCluster ro ro' c q mc"
| "route ro ro' (GetEvidence c q) = handleEvidenceOf ro c q"


section \<open>Label maintenance\<close>

text \<open>One tick of \<open>runLabelMaintenanceLoop\<close>: a chain that fails is logged and skipped.\<close>

fun maintain_chains :: "(int list \<Rightarrow> int list) \<Rightarrow> int \<Rightarrow> float64 \<Rightarrow> string list \<Rightarrow> db \<Rightarrow> db" where
  "maintain_chains co staleTTL decayFactor [] s = s"
| "maintain_chains co staleTTL decayFactor (chainID # chainIDs) s =
     maintain_chains co staleTTL decayFactor chainIDs (snd (Maintain co chainID staleTTL decayFactor s))"

definition maintenance_tick :: "(int list \<Rightarrow> int list) \<Rightarrow> int \<Rightarrow> float64 \<Rightarrow> db \<Rightarrow> db" where
  "maintenance_tick co staleTTL decayFactor s =
     (case ListChains s of (Inl e, s1) \<Rightarrow> s1 | (Inr chainIDs, s1) \<Rightarrow> maintain_chains co staleTTL decayFactor chainIDs s1)"


section \<open>Queries read\<close>

lemma respond_keeps: "keeps I m \<Longrightarrow> I s \<Longrightarrow> respond m f s = (r, s') \<Longrightarrow> I s'"
  by (auto simp: respond_def split: prod.splits sum.splits dest: keepsD)

lemma keeps_replay_step [keep_rules]: "keeps I (replay_step ro ev)"
  by (simp add: replay_step_def split: option.split)

lemma stable_same: "stable (\<lambda>t. t\<lparr>schedule := []\<rparr> = s\<lparr>schedule := []\<rparr>)"
  by (simp add: stable_def)

lemma keeps_queries:
  assumes "stable I"
  shows "keeps I (ClusterOf ro c a mc)" "keeps I (MembersOf ro c k mc l n)" "keeps I (SameCluster ro ro' c a b mc)"
    "keeps I (ByAddresses c as)" "keeps I (ByAddressPair c a b)" "keeps I (LabelsOf c t i)" "keeps I (Get c a)"
proof -
  have m: "keeps I (membersOfMaterialized c k l n)" for c k l n
    unfolding membersOfMaterialized_def using assms by (intro keep_rules keeps_stmt) auto
  have v: "keeps I (thresholdView ro c mc)" for ro c mc
    unfolding thresholdView_def ScanActive_def using assms by (intro keep_rules)
  have c: "keeps I (ClusterOf ro c a mc)" for ro c a mc
    unfolding ClusterOf_def clusterOfMaterialized_def using assms by (intro keep_rules v)
  show "keeps I (ClusterOf ro c a mc)" by (rule c)
  show "keeps I (MembersOf ro c k mc l n)" unfolding MembersOf_def page_def by (intro keep_rules v m)
  show "keeps I (SameCluster ro ro' c a b mc)" unfolding SameCluster_def by (intro keep_rules c)
  show "keeps I (ByAddresses c as)" unfolding ByAddresses_def using assms by (intro keep_rules)
  show "keeps I (ByAddressPair c a b)" unfolding ByAddressPair_def using assms by (intro keep_rules)
  show "keeps I (LabelsOf c t i)" using assms by (intro keep_rules)
  show "keeps I (Get c a)" unfolding Get_def using assms by (intro keep_rules)
qed

lemma route_keeps:
  assumes st: "stable I" and "I s" and "route ro ro' req s = (r, s')"
  shows "I s'"
proof -
  note q = keeps_queries [OF st]
  have e: "keeps I (bnd (MembersOf ro c k 0 100000 0) (\<lambda>members. ByAddresses c members))" for c k
    by (intro keep_rules q)
  show ?thesis using assms(2,3)
    by (cases req)
       (auto simp: handleClusterOf_def handleLabelsOfAddress_def handleHubStatus_def handleMembersOf_def handleLabelsOfCluster_def
          handleSameCluster_def handleEvidenceOf_def Let_def split: option.splits if_splits prod.splits
          dest: respond_keeps [OF q(1)] respond_keeps [OF q(2)] respond_keeps [OF q(3)] respond_keeps [OF q(5)] respond_keeps [OF q(6)] respond_keeps [OF q(7)]
            respond_keeps [OF e])
qed

text \<open>
  Queries never write. Whatever the request and whatever fails, every table of the database is as before.
\<close>

theorem queries_read_only:
  assumes "route ro ro' req s = (r, s')"
  shows "s'\<lparr>schedule := []\<rparr> = s\<lparr>schedule := []\<rparr>"
  by (rule route_keeps [OF stable_same refl assms])

theorem queries_read_only_witness:
  "\<exists>r s'. route reverse_order reverse_order (GetHubStatus ''eth'' ''A'') (sample_chain_db\<lparr>schedule := [Lost]\<rparr>) = (r, s') \<and>
     s'\<lparr>schedule := []\<rparr> = sample_chain_db\<lparr>schedule := []\<rparr>"
proof -
  obtain r s' where r: "route reverse_order reverse_order (GetHubStatus ''eth'' ''A'') (sample_chain_db\<lparr>schedule := [Lost]\<rparr>) = (r, s')" by fastforce
  with queries_read_only [OF r] show ?thesis by (intro exI [of _ r] exI [of _ s']) simp
qed

lemma clusterOf_cached:
  "schedule s = [] \<Longrightarrow> \<exists>conf. clusterOfMaterialized c a s = (Inr (map_option (\<lambda>k. (k, conf)) (cached_cluster s c a)), s)"
  by (cases s, cases "List.find (\<lambda>m. cmChainID m = c \<and> cmAddress m = a) (tblMembership s)")
     (auto simp: clusterOfMaterialized_def wrap_def query_def stmt_def next_outcome_def advance_def cached_cluster_def)

lemma sameCluster_cached:
  assumes "schedule s = []"
  shows "\<exists>conf. SameCluster ro ro' c a b 0 s = (Inr (same_cached s c a b, conf), s)"
proof -
  obtain p q where "clusterOfMaterialized c a s = (Inr (map_option (\<lambda>k. (k, p)) (cached_cluster s c a)), s)"
    "clusterOfMaterialized c b s = (Inr (map_option (\<lambda>k. (k, q)) (cached_cluster s c b)), s)"
    using clusterOf_cached [OF assms] by meson
  moreover have "(0 :: float64) \<le> thresholdEpsilon" by code_simp
  ultimately show ?thesis
    by (cases "cached_cluster s c a"; cases "cached_cluster s c b")
       (auto simp: SameCluster_def ClusterOf_def bnd_def ret_def same_cached_def)
qed

text \<open>
  C14: the service answers connectivity. After a successful batch run, as long as the database answers, \<open>GET /same-cluster\<close> without a threshold
  replies that two addresses share a cluster exactly when active evidence of the chain connects them.
\<close>

theorem same_cluster_endpoint:
  assumes "any_order ro" and "ds \<noteq> []" and "Run ho ro engines c ds s = (Inr res, s')"
    and "query_get q ''a'' = a" and "query_get q ''b'' = b" and "a \<noteq> []" and "b \<noteq> []"
  shows "\<exists>conf. fst (route ro1 ro2 (GetSameCluster c q (Some 0)) (s'\<lparr>schedule := []\<rparr>)) =
    \<lparr>rsStatus = 200, rsBody = SameBody (a \<in> Field (evidence_edges (active_rows s' c)) \<and> b \<in> Field (evidence_edges (active_rows s' c)) \<and>
       (a, b) \<in> conn (evidence_edges (active_rows s' c))) conf\<rparr>"
proof -
  have fresh: "cache_fresh s' c" using run_makes_queryable [OF assms(1-3)] by simp
  have cached: "same_cached (s'\<lparr>schedule := []\<rparr>) c a b = same_cached s' c a b" by (simp add: same_cached_def cached_cluster_def)
  obtain conf where "SameCluster ro1 ro2 c a b 0 (s'\<lparr>schedule := []\<rparr>) = (Inr (same_cached s' c a b, conf), s'\<lparr>schedule := []\<rparr>)"
    using sameCluster_cached [of "s'\<lparr>schedule := []\<rparr>" ro1 ro2 c a b, unfolded cached] by auto
  then show ?thesis using assms(4-) fresh
    by (simp add: handleSameCluster_def Let_def respond_def writeJSON_def cache_fresh_def)
qed

theorem same_cluster_endpoint_witness:
  "\<exists>res s' conf. Run rev reverse_order engines ''eth'' sample_batch sample_chain_db = (Inr res, s') \<and>
     fst (route reverse_order reverse_order (GetSameCluster ''eth'' [(''a'', ''A''), (''b'', ''B'')] (Some 0)) (s'\<lparr>schedule := []\<rparr>)) =
     \<lparr>rsStatus = 200, rsBody = SameBody (''A'' \<in> Field (evidence_edges (active_rows s' ''eth'')) \<and> ''B'' \<in> Field (evidence_edges (active_rows s' ''eth'')) \<and>
       (''A'', ''B'') \<in> conn (evidence_edges (active_rows s' ''eth''))) conf\<rparr>"
proof -
  obtain res s' where run: "Run rev reverse_order engines ''eth'' sample_batch sample_chain_db = (Inr res, s')" using sample_run by blast
  have "sample_batch \<noteq> []" by (simp add: sample_batch_def)
  from same_cluster_endpoint [OF any_order_reverse this run, of "[(''a'', ''A''), (''b'', ''B'')]" "''A''" "''B''" reverse_order reverse_order] run
  show ?thesis by (simp add: query_get_def)
qed

end
