(* ===== verification/Metrics.thy ===== *)
theory Metrics
  imports ClusterStore Reads "HOL-Library.Sublist"
begin

text \<open>
  \<open>internal/metrics/collector.go\<close>: the Prometheus collector of the clustering service. A scrape runs a few aggregate
  queries per enabled chain and sends one sample per result row; a query that fails is counted and the scrape goes on.
  The channel to the Prometheus registry is the list of samples sent. A result set arrives row by row, so a query can fail after some of its
  rows have been sent.
\<close>

section \<open>Samples\<close>

text \<open>The six descriptors of \<open>NewCollector\<close>, with the names of the series and of their labels.\<close>

datatype desc = ClusterMaxSize | ClusterCount | MergeEvidenceActive | MergeEvidenceInvalid | LabelStatusTotal | ScrapeErrorsTotal

fun NewDesc :: "desc \<Rightarrow> string \<times> string list" where
  "NewDesc ClusterMaxSize = (''clustering_cluster_max_size'', [''chain''])"
| "NewDesc ClusterCount = (''clustering_cluster_count'', [''chain''])"
| "NewDesc MergeEvidenceActive = (''clustering_merge_evidence_active'', [''chain'', ''heuristic_key''])"
| "NewDesc MergeEvidenceInvalid = (''clustering_merge_evidence_invalidated'', [''chain'', ''reason''])"
| "NewDesc LabelStatusTotal = (''clustering_label_status_total'', [''chain'', ''status''])"
| "NewDesc ScrapeErrorsTotal = (''clustering_metrics_scrape_errors_total'', [])"

definition Describe :: "desc list" where
  "Describe = [ClusterMaxSize, ClusterCount, MergeEvidenceActive, MergeEvidenceInvalid, LabelStatusTotal, ScrapeErrorsTotal]"

record sample =
  smDesc :: desc
  smLabels :: "string list"
  smValue :: float64

record Collector =
  pmDb :: db
  pmErrors :: nat
  pmSent :: "sample list"

type_synonym 'a scrape = "(Collector, 'a) io"

definition send :: "sample \<Rightarrow> unit scrape" where
  "send m c = (Inr (), c\<lparr>pmSent := pmSent c @ [m]\<rparr>)"

text \<open>\<open>MustNewConstMetric\<close> panics unless there is one label value for every label name; here the numbers agree.\<close>

definition gauge :: "desc \<Rightarrow> int \<Rightarrow> string list \<Rightarrow> sample" where
  "gauge d v ls = \<lparr>smDesc = d, smLabels = ls, smValue = float_of_int v\<rparr>"

definition in_db :: "'a sql \<Rightarrow> 'a scrape" where
  "in_db m c = (case m (pmDb c) of (r, d) \<Rightarrow> (r, c\<lparr>pmDb := d\<rparr>))"


section \<open>Queries\<close>

text \<open>
  \<open>GROUP BY\<close>: one row per value of the grouping column, \<open>NULL\<close> being a value, in an order that PostgreSQL chooses.
\<close>

type_synonym group_order = "string option list \<Rightarrow> string option list"

definition group_count :: "group_order \<Rightarrow> ('r \<Rightarrow> string option) \<Rightarrow> 'r list \<Rightarrow> (string option \<times> int) list" where
  "group_count go key rows = map (\<lambda>k. (k, int (length (filter (\<lambda>r. key r = k) rows)))) (go (remdups (map key rows)))"

text \<open>
  \<open>rows, err := pool.Query(...)\<close>, \<open>for rows.Next() { ... }\<close>, \<open>rows.Err()\<close>: after the query itself every further row, and the end
  of the result, may fail to arrive.
\<close>

definition next_row :: "unit sql" where
  "next_row = query (\<lambda>_. ())"

definition each_row :: "(db \<Rightarrow> 'r list) \<Rightarrow> ('r \<Rightarrow> sample) \<Rightarrow> unit scrape" where
  "each_row q f =
     bnd (in_db (query q)) (\<lambda>rows.
     bnd (forE (\<lambda>r. bnd (in_db next_row) (\<lambda>_. send (f r))) rows) (\<lambda>_. in_db next_row))"

definition max_size :: "Cluster list \<Rightarrow> int" where
  "max_size cs = (if cs = [] then 0 else Max (set (map clSize cs)))"

definition clusters_of :: "db \<Rightarrow> string \<Rightarrow> Cluster list" where
  "clusters_of s chainID = filter (\<lambda>c. clChainID c = chainID) (tblCluster s)"

definition evidence_with :: "db \<Rightarrow> string \<Rightarrow> string \<Rightarrow> MergeEvidence list" where
  "evidence_with s chainID status = filter (\<lambda>e. meChainID e = chainID \<and> meStatus e = status) (tblEvidence s)"

definition labels_of_chain :: "db \<Rightarrow> string \<Rightarrow> Label list" where
  "labels_of_chain s chainID = filter (\<lambda>l. lbChainID l = chainID) (tblLabel s)"

definition collectClusterStats :: "string \<Rightarrow> unit scrape" where
  "collectClusterStats chainID =
     bnd (in_db (query (\<lambda>s. (max_size (clusters_of s chainID), int (length (clusters_of s chainID)))))) (\<lambda>(maxSize, count).
     bnd (send (gauge ClusterMaxSize maxSize [chainID])) (\<lambda>_.
     send (gauge ClusterCount count [chainID])))"

definition coalesce :: "string option \<Rightarrow> string" where
  "coalesce r = (case r of None \<Rightarrow> ''unknown'' | Some x \<Rightarrow> x)"

definition collectMergeEvidenceStats :: "group_order \<Rightarrow> string \<Rightarrow> unit scrape" where
  "collectMergeEvidenceStats go chainID =
     bnd (each_row (\<lambda>s. group_count go (\<lambda>e. Some (meHeuristicKey e)) (evidence_with s chainID EvidenceStatusActive))
       (\<lambda>(k, n). gauge MergeEvidenceActive n [chainID, the k])) (\<lambda>_.
     each_row (\<lambda>s. group_count go meInvalidatedReason (evidence_with s chainID EvidenceStatusInvalidated))
       (\<lambda>(k, n). gauge MergeEvidenceInvalid n [chainID, coalesce k]))"

definition collectLabelStats :: "group_order \<Rightarrow> string \<Rightarrow> unit scrape" where
  "collectLabelStats go chainID =
     each_row (\<lambda>s. group_count go (\<lambda>l. Some (lbStatus l)) (labels_of_chain s chainID))
       (\<lambda>(k, n). gauge LabelStatusTotal n [chainID, the k])"

text \<open>An error is logged and counted.\<close>

definition counted :: "unit scrape \<Rightarrow> Collector \<Rightarrow> Collector" where
  "counted m c = (case m c of (Inl e, c') \<Rightarrow> c'\<lparr>pmErrors := pmErrors c' + 1\<rparr> | (Inr _, c') \<Rightarrow> c')"

definition collect_chain :: "group_order \<Rightarrow> string \<Rightarrow> Collector \<Rightarrow> Collector" where
  "collect_chain go chainID c =
     counted (collectLabelStats go chainID) (counted (collectMergeEvidenceStats go chainID) (counted (collectClusterStats chainID) c))"

definition send_errors :: "Collector \<Rightarrow> Collector" where
  "send_errors c = c\<lparr>pmSent := pmSent c @ [gauge ScrapeErrorsTotal (int (pmErrors c)) []]\<rparr>"

definition Collector_Collect :: "group_order \<Rightarrow> Collector \<Rightarrow> Collector" where
  "Collector_Collect go c =
     (case in_db ListChains c of
        (Inl e, c1) \<Rightarrow> send_errors (c1\<lparr>pmErrors := pmErrors c1 + 1\<rparr>)
      | (Inr chainIDs, c1) \<Rightarrow> send_errors (fold (collect_chain go) chainIDs c1))"

section \<open>What a collector sends\<close>

text \<open>
  \<open>sends full m\<close>: running \<open>m\<close> reads the tables only and sends, in order, some of the samples \<open>full\<close> that
  the tables determine, all of them when it succeeds.
\<close>

definition effect :: "sample list \<Rightarrow> Collector \<Rightarrow> error + 'a \<Rightarrow> Collector \<Rightarrow> bool" where
  "effect xs c r c' \<longleftrightarrow> moved (pmDb c) (pmDb c') \<and> pmErrors c' = pmErrors c \<and>
     (\<exists>new. pmSent c' = pmSent c @ new \<and> subseq new xs \<and> (isl r \<or> new = xs)) \<and>
     (schedule (pmDb c) = [] \<longrightarrow> \<not> isl r \<and> schedule (pmDb c') = [])"

definition sends :: "(db \<Rightarrow> sample list) \<Rightarrow> 'a scrape \<Rightarrow> bool" where
  "sends full m \<longleftrightarrow> table_fun full \<and> (\<forall>c. effect (full (pmDb c)) c (fst (m c)) (snd (m c)))"

lemma table_fun_same: "table_fun f \<Longrightarrow> moved d d' \<Longrightarrow> f d' = f d"
  by (rule moved_table)

lemma effect_stop:
  assumes "effect xs c r c'" and "isl r" and "isl q"
  shows "effect (xs @ ys) c q c'"
proof -
  obtain new where "pmSent c' = pmSent c @ new" "subseq new xs" using assms(1) unfolding effect_def by blast
  then have "pmSent c' = pmSent c @ new \<and> subseq new (xs @ ys)" by (simp add: subseq_rev_drop_many)
  then show ?thesis using assms unfolding effect_def by blast
qed

lemma effect_seq:
  assumes "effect xs c q c1" and "\<not> isl q" and "effect ys c1 r c'"
  shows "effect (xs @ ys) c r c'"
proof -
  obtain new where new: "pmSent c' = pmSent c1 @ new" "subseq new ys" "isl r \<or> new = ys" using assms(3) unfolding effect_def by blast
  have "pmSent c1 = pmSent c @ xs" using assms(1,2) unfolding effect_def by blast
  with new have "pmSent c' = pmSent c @ (xs @ new)" "subseq (xs @ new) (xs @ ys)" "isl r \<or> xs @ new = xs @ ys" by (auto intro: list_emb_append_mono)
  then show ?thesis using assms(1,3) moved_trans unfolding effect_def by metis
qed

lemma effect_query:
  "effect [] c (fst (in_db (query q) c)) (snd (in_db (query q) c))"
  "fst (in_db (query q) c) = Inr x \<Longrightarrow> x = q (advance (pmDb c))"
  by (cases "next_outcome (pmDb c)"; simp add: in_db_def query_def stmt_def effect_def; auto simp: next_outcome_def)+

lemma sends_send: "sends (\<lambda>_. [m]) (send m)"
  by (simp add: sends_def send_def table_fun_def effect_def)

lemma sends_next: "sends (\<lambda>_. []) (in_db next_row)"
  by (simp add: sends_def next_row_def table_fun_def effect_query(1))

lemma bnd_effect:
  assumes "effect xs c (fst (m c)) (snd (m c))" and "\<And>x c1. m c = (Inr x, c1) \<Longrightarrow> effect ys c1 (fst (n x c1)) (snd (n x c1))"
  shows "effect (xs @ ys) c (fst (bnd m n c)) (snd (bnd m n c))"
proof (cases "m c")
  case (Pair q c1)
  show ?thesis
  proof (cases q)
    case (Inl e)
    then show ?thesis using assms(1) Pair effect_stop [of xs c q c1 "Inl e"] by (simp add: bnd_def)
  next
    case (Inr x)
    then show ?thesis using assms Pair effect_seq [of xs c q c1] by (simp add: bnd_def)
  qed
qed

lemma sends_bnd:
  assumes "sends f m" and "\<And>x. sends g (n x)"
  shows "sends (\<lambda>d. f d @ g d) (bnd m n)"
  unfolding sends_def
proof (intro conjI allI)
  show "table_fun (\<lambda>d. f d @ g d)" using assms by (simp add: sends_def table_fun_def)
  fix c
  show "effect (f (pmDb c) @ g (pmDb c)) c (fst (bnd m n c)) (snd (bnd m n c))"
  proof (rule bnd_effect)
    show "effect (f (pmDb c)) c (fst (m c)) (snd (m c))" using assms(1) by (simp add: sends_def)
    fix x c1
    assume "m c = (Inr x, c1)"
    then have "moved (pmDb c) (pmDb c1)" using assms(1) by (auto simp: sends_def effect_def dest: spec [of _ c])
    then have "g (pmDb c1) = g (pmDb c)" using assms(2) [of x] by (auto simp: sends_def intro: table_fun_same)
    then show "effect (g (pmDb c)) c1 (fst (n x c1)) (snd (n x c1))" using assms(2) [of x] unfolding sends_def by metis
  qed
qed

lemma sends_each_row:
  assumes q: "table_fun q"
  shows "sends (\<lambda>d. map f (q d)) (each_row q f)"
proof -
  have "sends (\<lambda>_. map f rows) (forE (\<lambda>r. bnd (in_db next_row) (\<lambda>_. send (f r))) rows)" for rows
  proof (induction rows)
    case (Cons r rows)
    show ?case using sends_bnd [OF sends_bnd [OF sends_next sends_send [of "f r"]] Cons] by simp
  qed (simp add: sends_def ret_def table_fun_def effect_def)
  from sends_bnd [OF this sends_next] have body:
    "sends (\<lambda>_. map f rows) (bnd (forE (\<lambda>r. bnd (in_db next_row) (\<lambda>_. send (f r))) rows) (\<lambda>_. in_db next_row))" for rows by simp
  have "effect ([] @ map f (q (pmDb c))) c (fst (each_row q f c)) (snd (each_row q f c))" for c
    unfolding each_row_def
  proof (rule bnd_effect [OF effect_query(1)])
    fix rows c1
    assume "in_db (query q) c = (Inr rows, c1)"
    then have "rows = q (advance (pmDb c))" using effect_query(2) [of q c rows] by simp
    also have "\<dots> = q (pmDb c)" using q by (simp add: table_fun_same)
    finally show "effect (map f (q (pmDb c))) c1
        (fst (bnd (forE (\<lambda>r. bnd (in_db next_row) (\<lambda>_. send (f r))) rows) (\<lambda>_. in_db next_row) c1))
        (snd (bnd (forE (\<lambda>r. bnd (in_db next_row) (\<lambda>_. send (f r))) rows) (\<lambda>_. in_db next_row) c1))"
      using body [of rows] by (simp add: sends_def)
  qed
  then show ?thesis using q by (simp add: sends_def table_fun_def)
qed


section \<open>What a scrape sends\<close>

definition cluster_samples :: "db \<Rightarrow> string \<Rightarrow> sample list" where
  "cluster_samples d c =
     [gauge ClusterMaxSize (max_size (clusters_of d c)) [c], gauge ClusterCount (int (length (clusters_of d c))) [c]]"

definition evidence_samples :: "group_order \<Rightarrow> db \<Rightarrow> string \<Rightarrow> sample list" where
  "evidence_samples go d c =
     map (\<lambda>(k, n). gauge MergeEvidenceActive n [c, the k])
       (group_count go (\<lambda>e. Some (meHeuristicKey e)) (evidence_with d c EvidenceStatusActive)) @
     map (\<lambda>(k, n). gauge MergeEvidenceInvalid n [c, coalesce k])
       (group_count go meInvalidatedReason (evidence_with d c EvidenceStatusInvalidated))"

definition label_samples :: "group_order \<Rightarrow> db \<Rightarrow> string \<Rightarrow> sample list" where
  "label_samples go d c =
     map (\<lambda>(k, n). gauge LabelStatusTotal n [c, the k]) (group_count go (\<lambda>l. Some (lbStatus l)) (labels_of_chain d c))"

definition scraped_chains :: "db \<Rightarrow> string list" where
  "scraped_chains d = heapStrings (drv d) (map chChainID (filter chEnabled (tblChain d)))"

definition chain_samples :: "group_order \<Rightarrow> db \<Rightarrow> string \<Rightarrow> sample list" where
  "chain_samples go d c = cluster_samples d c @ evidence_samples go d c @ label_samples go d c"

lemmas sample_defs = cluster_samples_def evidence_samples_def label_samples_def chain_samples_def
  clusters_of_def evidence_with_def labels_of_chain_def

lemma collectors_send:
  "sends (\<lambda>d. cluster_samples d c) (collectClusterStats c)"
  "sends (\<lambda>d. evidence_samples go d c) (collectMergeEvidenceStats go c)"
  "sends (\<lambda>d. label_samples go d c) (collectLabelStats go c)"
proof -
  have "effect ([] @ cluster_samples (pmDb k) c) k (fst (collectClusterStats c k)) (snd (collectClusterStats c k))" for k
    unfolding collectClusterStats_def
  proof (rule bnd_effect [OF effect_query(1)])
    fix x k1
    assume "in_db (query (\<lambda>s. (max_size (clusters_of s c), int (length (clusters_of s c))))) k = (Inr x, k1)"
    then have "x = (max_size (clusters_of (pmDb k) c), int (length (clusters_of (pmDb k) c)))"
      using effect_query(2) [where q = "\<lambda>s. (max_size (clusters_of s c), int (length (clusters_of s c)))" and c = k and x = x] by (simp add: clusters_of_def)
    then show "effect (cluster_samples (pmDb k) c) k1
        (fst ((case x of (maxSize, n) \<Rightarrow> bnd (send (gauge ClusterMaxSize maxSize [c])) (\<lambda>_. send (gauge ClusterCount n [c]))) k1))
        (snd ((case x of (maxSize, n) \<Rightarrow> bnd (send (gauge ClusterMaxSize maxSize [c])) (\<lambda>_. send (gauge ClusterCount n [c]))) k1))"
      by (simp add: cluster_samples_def bnd_def send_def effect_def)
  qed
  then show "sends (\<lambda>d. cluster_samples d c) (collectClusterStats c)"
    by (simp add: sends_def table_fun_def cluster_samples_def clusters_of_def)
  show "sends (\<lambda>d. evidence_samples go d c) (collectMergeEvidenceStats go c)"
    unfolding evidence_samples_def collectMergeEvidenceStats_def
    by (intro sends_bnd sends_each_row) (simp_all add: table_fun_def evidence_with_def)
  show "sends (\<lambda>d. label_samples go d c) (collectLabelStats go c)"
    unfolding label_samples_def collectLabelStats_def
    by (intro sends_each_row) (simp add: table_fun_def labels_of_chain_def)
qed

text \<open>Failures inside the loop are counted: the samples are complete unless the counter moved.\<close>

definition tallied :: "sample list \<Rightarrow> Collector \<Rightarrow> Collector \<Rightarrow> bool" where
  "tallied xs c c' \<longleftrightarrow> moved (pmDb c) (pmDb c') \<and> pmErrors c \<le> pmErrors c' \<and>
     (\<exists>new. pmSent c' = pmSent c @ new \<and> subseq new xs \<and> (pmErrors c' = pmErrors c \<longrightarrow> new = xs)) \<and>
     (schedule (pmDb c) = [] \<longrightarrow> pmErrors c' = pmErrors c \<and> schedule (pmDb c') = [])"

lemma tallied_refl: "tallied [] c c"
  by (simp add: tallied_def)

lemma tallied_counted:
  assumes "sends f m"
  shows "tallied (f (pmDb k)) k (counted m k)"
proof -
  obtain r c' where m: "m k = (r, c')" by fastforce
  have "effect (f (pmDb k)) k r c'" using assms m unfolding sends_def by (metis fst_conv snd_conv)
  then show ?thesis using m by (cases r) (auto simp: counted_def effect_def tallied_def)
qed

lemma tallied_seq:
  assumes "tallied xs c c1" and "tallied ys c1 c'"
  shows "tallied (xs @ ys) c c'"
proof -
  obtain a where a: "pmSent c1 = pmSent c @ a" "subseq a xs" "pmErrors c1 = pmErrors c \<longrightarrow> a = xs" using assms(1) unfolding tallied_def by blast
  obtain b where b: "pmSent c' = pmSent c1 @ b" "subseq b ys" "pmErrors c' = pmErrors c1 \<longrightarrow> b = ys" using assms(2) unfolding tallied_def by blast
  have le: "pmErrors c \<le> pmErrors c1" "pmErrors c1 \<le> pmErrors c'" using assms by (simp_all add: tallied_def)
  have "pmSent c' = pmSent c @ (a @ b) \<and> subseq (a @ b) (xs @ ys) \<and> (pmErrors c' = pmErrors c \<longrightarrow> a @ b = xs @ ys)"
    using a b le by (auto simp: list_emb_append_mono)
  then show ?thesis using assms le moved_trans unfolding tallied_def by (metis le_trans)
qed

lemma tallied_chain: "tallied (chain_samples go (pmDb c) ch) c (collect_chain go ch c)"
proof -
  let ?c1 = "counted (collectClusterStats ch) c"
  let ?c2 = "counted (collectMergeEvidenceStats go ch) ?c1"
  note 1 = tallied_counted [OF collectors_send(1) [of ch], of c]
  note 2 = tallied_counted [OF collectors_send(2) [of go ch], of ?c1]
  note 3 = tallied_counted [OF collectors_send(3) [of go ch], of ?c2]
  have e: "evidence_samples go (pmDb ?c1) ch = evidence_samples go (pmDb c) ch"
    using 1 collectors_send(2) [of go ch] by (auto simp: tallied_def sends_def intro: table_fun_same)
  have "moved (pmDb c) (pmDb ?c2)" using 1 2 moved_trans by (auto simp: tallied_def)
  then have l: "label_samples go (pmDb ?c2) ch = label_samples go (pmDb c) ch"
    using collectors_send(3) [of go ch] by (auto simp: sends_def intro: table_fun_same)
  show ?thesis unfolding chain_samples_def collect_chain_def
    using tallied_seq [OF 1 tallied_seq [OF 2 3]] by (simp add: e l)
qed

lemma table_fun_chain_samples: "table_fun (\<lambda>d. chain_samples go d ch)"
  by (simp add: table_fun_def sample_defs)

lemma tallied_chains: "tallied (concat (map (chain_samples go (pmDb c)) chs)) c (fold (collect_chain go) chs c)"
proof (induction chs arbitrary: c)
  case (Cons ch chs)
  let ?c1 = "collect_chain go ch c"
  have "moved (pmDb c) (pmDb ?c1)" using tallied_chain [of go c ch] by (simp add: tallied_def)
  then have "chain_samples go (pmDb ?c1) = chain_samples go (pmDb c)"
    using table_fun_same [OF table_fun_chain_samples] by blast
  then show ?case using tallied_seq [OF tallied_chain [of go c ch] Cons [of ?c1]] by simp
qed (simp add: tallied_refl)

lemma scrape_effect:
  fixes go c
  defines "full \<equiv> concat (map (chain_samples go (pmDb c)) (scraped_chains (pmDb c)))"
    and "c' \<equiv> Collector_Collect go c"
  shows "\<exists>l new. pmDb c' = (pmDb c)\<lparr>schedule := l\<rparr> \<and>
    pmSent c' = pmSent c @ new @ [gauge ScrapeErrorsTotal (int (pmErrors c')) []] \<and> subseq new full \<and>
    pmErrors c \<le> pmErrors c' \<and> (pmErrors c' = pmErrors c \<longrightarrow> new = full) \<and> (schedule (pmDb c) = [] \<longrightarrow> pmErrors c' = pmErrors c)"
proof -
  obtain r c1 where L: "in_db ListChains c = (r, c1)" by fastforce
  have q: "effect [] c r c1" "\<And>x. r = Inr x \<Longrightarrow> x = scraped_chains (pmDb c)"
    using L effect_query [where q = "\<lambda>s. heapStrings (drv s) (map chChainID (filter chEnabled (tblChain s)))" and c = c]
    by (auto simp: ListChains_def in_db_def wrap_def effect_def scraped_chains_def split: prod.splits sum.splits)
  show ?thesis
  proof (cases r)
    case (Inl e)
    then have "c' = send_errors (c1\<lparr>pmErrors := pmErrors c1 + 1\<rparr>)" unfolding c'_def Collector_Collect_def L by simp
    then show ?thesis using q(1) Inl by (auto simp: effect_def send_errors_def moved_def dest: list_emb_Nil2)
  next
    case (Inr x)
    let ?c2 = "fold (collect_chain go) (scraped_chains (pmDb c)) c1"
    have c': "c' = send_errors ?c2" unfolding c'_def Collector_Collect_def L using q(2) Inr by simp
    have c1: "moved (pmDb c) (pmDb c1)" "pmErrors c1 = pmErrors c" "pmSent c1 = pmSent c" "schedule (pmDb c) = [] \<longrightarrow> schedule (pmDb c1) = []"
      using q(1) by (auto simp: effect_def)
    have "chain_samples go (pmDb c1) = chain_samples go (pmDb c)" using c1(1) table_fun_same [OF table_fun_chain_samples] by blast
    then have "tallied full c1 ?c2" using tallied_chains [of go c1 "scraped_chains (pmDb c)"] by (simp add: full_def)
    then show ?thesis using c1 c' moved_trans [OF c1(1), of "pmDb ?c2"] unfolding tallied_def
      by (fastforce simp: send_errors_def moved_def)
  qed
qed


section \<open>The figures\<close>

text \<open>
  What each series is documented to show, read off the tables: sizes and number of the clusters of a chain, active evidence per heuristic,
  invalidated evidence per reason (\<open>unknown\<close> when there is none), and labels per status.
\<close>

fun figure :: "db \<Rightarrow> desc \<Rightarrow> string list \<Rightarrow> int" where
  "figure d ClusterMaxSize [c] = max_size (clusters_of d c)"
| "figure d ClusterCount [c] = int (length (clusters_of d c))"
| "figure d MergeEvidenceActive [c, h] = int (length (filter (\<lambda>e. meHeuristicKey e = h) (evidence_with d c EvidenceStatusActive)))"
| "figure d MergeEvidenceInvalid [c, r] =
     int (length (filter (\<lambda>e. coalesce (meInvalidatedReason e) = r) (evidence_with d c EvidenceStatusInvalidated)))"
| "figure d LabelStatusTotal [c, st] = int (length (filter (\<lambda>l. lbStatus l = st) (labels_of_chain d c)))"
| "figure d _ _ = 0"

text \<open>The series that exist: two per enabled chain, and one per group that occurs.\<close>

fun exported :: "db \<Rightarrow> desc \<times> string list \<Rightarrow> bool" where
  "exported d (ClusterMaxSize, [c]) = (c \<in> set (scraped_chains d))"
| "exported d (ClusterCount, [c]) = (c \<in> set (scraped_chains d))"
| "exported d (MergeEvidenceActive, [c, h]) =
     (c \<in> set (scraped_chains d) \<and> h \<in> meHeuristicKey ` set (evidence_with d c EvidenceStatusActive))"
| "exported d (MergeEvidenceInvalid, [c, r]) =
     (c \<in> set (scraped_chains d) \<and> r \<in> (\<lambda>e. coalesce (meInvalidatedReason e)) ` set (evidence_with d c EvidenceStatusInvalidated))"
| "exported d (LabelStatusTotal, [c, st]) = (c \<in> set (scraped_chains d) \<and> st \<in> lbStatus ` set (labels_of_chain d c))"
| "exported d _ = False"

definition series :: "sample \<Rightarrow> desc \<times> string list" where
  "series m = (smDesc m, smLabels m)"

definition group_order_ok :: "group_order \<Rightarrow> bool" where
  "group_order_ok go \<longleftrightarrow> (\<forall>l. mset (go l) = mset l)"

definition reasons_given :: "db \<Rightarrow> bool" where
  "reasons_given s \<longleftrightarrow> (\<forall>e \<in> set (tblEvidence s). meStatus e = EvidenceStatusInvalidated \<longrightarrow> meInvalidatedReason e \<noteq> None)"

lemma group_keys:
  assumes "group_order_ok go"
  shows "distinct (go (remdups xs))" "set (go (remdups xs)) = set xs"
proof -
  have m: "mset (go (remdups xs)) = mset (remdups xs)" using assms by (simp add: group_order_ok_def)
  then show "distinct (go (remdups xs))" by (metis distinct_remdups mset_eq_imp_distinct_iff)
  show "set (go (remdups xs)) = set xs" using m by (metis mset_eq_setD set_remdups)
qed

text \<open>A grouped query exports each group once, with its size.\<close>

lemma grouped_samples:
  fixes go key rows d c name
  assumes go: "group_order_ok go" and inj: "inj_on name (key ` set rows)"
  defines "ms \<equiv> map (\<lambda>(k, n). gauge d n [c, name k]) (group_count go key rows)"
  shows "distinct (map series ms)" "set (map series ms) = (\<lambda>r. (d, [c, name (key r)])) ` set rows"
    "\<forall>m \<in> set ms. \<exists>r \<in> set rows. smDesc m = d \<and> smLabels m = [c, name (key r)] \<and>
       smValue m = float_of_int (int (length (filter (\<lambda>r'. name (key r') = name (key r)) rows)))"
proof -
  let ?ks = "go (remdups (map key rows))"
  have ks: "distinct ?ks" "set ?ks = key ` set rows" using group_keys [OF go] by simp_all
  have s: "map series ms = map (\<lambda>k. (d, [c, name k])) ?ks"
    by (simp add: ms_def group_count_def series_def gauge_def comp_def)
  show "distinct (map series ms)" unfolding s using ks inj by (auto simp: distinct_map inj_on_def)
  show "set (map series ms) = (\<lambda>r. (d, [c, name (key r)])) ` set rows" unfolding s using ks by auto
  show "\<forall>m \<in> set ms. \<exists>r \<in> set rows. smDesc m = d \<and> smLabels m = [c, name (key r)] \<and>
         smValue m = float_of_int (int (length (filter (\<lambda>r'. name (key r') = name (key r)) rows)))"
  proof
    fix m
    assume "m \<in> set ms"
    then obtain k where k: "k \<in> set ?ks" "m = gauge d (int (length (filter (\<lambda>r. key r = k) rows))) [c, name k]"
      by (auto simp: ms_def group_count_def)
    then obtain r where r: "r \<in> set rows" "k = key r" using ks by auto
    have "filter (\<lambda>r'. key r' = k) rows = filter (\<lambda>r'. name (key r') = name (key r)) rows"
      by (rule filter_cong) (use inj r in \<open>auto simp: inj_on_def\<close>)
    then show "\<exists>r \<in> set rows. smDesc m = d \<and> smLabels m = [c, name (key r)] \<and>
        smValue m = float_of_int (int (length (filter (\<lambda>r'. name (key r') = name (key r)) rows)))"
      using k r by (auto simp: gauge_def)
  qed
qed


lemma invalid_reasons_inj:
  assumes "reasons_given d"
  shows "inj_on coalesce (meInvalidatedReason ` set (evidence_with d c EvidenceStatusInvalidated))"
  using assms by (auto simp: inj_on_def reasons_given_def evidence_with_def coalesce_def split: option.splits)

lemma the_inj: "inj_on the ((\<lambda>r. Some (f r)) ` set rs)"
  by (auto simp: inj_on_def)

text \<open>The samples of one chain: every one shows its figure, no series twice, and all that exist.\<close>

definition shows_figure :: "db \<Rightarrow> sample \<Rightarrow> bool" where
  "shows_figure d m \<longleftrightarrow> smValue m = float_of_int (figure d (smDesc m) (smLabels m))"

lemma chain_series:
  assumes go: "group_order_ok go" and d: "reasons_given d"
  shows "distinct (map series (chain_samples go d c))" "list_all (shows_figure d) (chain_samples go d c)"
    "set (map series (chain_samples go d c)) = {(ClusterMaxSize, [c]), (ClusterCount, [c])} \<union>
       (\<lambda>e. (MergeEvidenceActive, [c, meHeuristicKey e])) ` set (evidence_with d c EvidenceStatusActive) \<union>
       (\<lambda>e. (MergeEvidenceInvalid, [c, coalesce (meInvalidatedReason e)])) ` set (evidence_with d c EvidenceStatusInvalidated) \<union>
       (\<lambda>l. (LabelStatusTotal, [c, lbStatus l])) ` set (labels_of_chain d c)"
proof -
  note a = grouped_samples [OF go the_inj [of meHeuristicKey "evidence_with d c EvidenceStatusActive"], of MergeEvidenceActive c]
  note i = grouped_samples [OF go invalid_reasons_inj [OF d, of c], of MergeEvidenceInvalid c]
  note l = grouped_samples [OF go the_inj [of lbStatus "labels_of_chain d c"], of LabelStatusTotal c]
  have parts: "map series (chain_samples go d c) = [(ClusterMaxSize, [c]), (ClusterCount, [c])] @
      map series (map (\<lambda>(k, n). gauge MergeEvidenceActive n [c, the k]) (group_count go (\<lambda>e. Some (meHeuristicKey e)) (evidence_with d c EvidenceStatusActive))) @
      map series (map (\<lambda>(k, n). gauge MergeEvidenceInvalid n [c, coalesce k]) (group_count go meInvalidatedReason (evidence_with d c EvidenceStatusInvalidated))) @
      map series (map (\<lambda>(k, n). gauge LabelStatusTotal n [c, the k]) (group_count go (\<lambda>l. Some (lbStatus l)) (labels_of_chain d c)))"
    by (simp add: chain_samples_def cluster_samples_def evidence_samples_def label_samples_def series_def gauge_def)
  show "set (map series (chain_samples go d c)) = {(ClusterMaxSize, [c]), (ClusterCount, [c])} \<union>
       (\<lambda>e. (MergeEvidenceActive, [c, meHeuristicKey e])) ` set (evidence_with d c EvidenceStatusActive) \<union>
       (\<lambda>e. (MergeEvidenceInvalid, [c, coalesce (meInvalidatedReason e)])) ` set (evidence_with d c EvidenceStatusInvalidated) \<union>
       (\<lambda>l. (LabelStatusTotal, [c, lbStatus l])) ` set (labels_of_chain d c)"
    unfolding parts set_append a(2) i(2) l(2) by (simp add: Un_assoc)
  show "distinct (map series (chain_samples go d c))"
    unfolding parts distinct_append set_append a(2) i(2) l(2) using a(1) i(1) l(1) by auto
  have "shows_figure d m" if "m \<in> set (chain_samples go d c)" for m
  proof -
    from that consider "m \<in> set (cluster_samples d c)"
      | "m \<in> set (map (\<lambda>(k, n). gauge MergeEvidenceActive n [c, the k]) (group_count go (\<lambda>e. Some (meHeuristicKey e)) (evidence_with d c EvidenceStatusActive)))"
      | "m \<in> set (map (\<lambda>(k, n). gauge MergeEvidenceInvalid n [c, coalesce k]) (group_count go meInvalidatedReason (evidence_with d c EvidenceStatusInvalidated)))"
      | "m \<in> set (map (\<lambda>(k, n). gauge LabelStatusTotal n [c, the k]) (group_count go (\<lambda>l. Some (lbStatus l)) (labels_of_chain d c)))"
      unfolding chain_samples_def evidence_samples_def label_samples_def set_append by blast
    then show ?thesis
    proof cases
      case 1
      then show ?thesis by (auto simp: cluster_samples_def shows_figure_def gauge_def)
    next
      case 2
      from bspec [OF a(3) 2] show ?thesis by (auto simp: shows_figure_def)
    next
      case 3
      from bspec [OF i(3) 3] show ?thesis by (auto simp: shows_figure_def)
    next
      case 4
      from bspec [OF l(3) 4] show ?thesis by (auto simp: shows_figure_def)
    qed
  qed
  then show "list_all (shows_figure d) (chain_samples go d c)" by (simp add: list_all_iff)
qed


lemma chain_series_label: "group_order_ok go \<Longrightarrow> reasons_given d \<Longrightarrow> x \<in> set (map series (chain_samples go d c)) \<Longrightarrow> hd (snd x) = c"
  unfolding chain_series(3) by auto

lemma exported_iff:
  assumes "group_order_ok go" and "reasons_given d"
  shows "exported d x \<longleftrightarrow> (\<exists>c \<in> set (scraped_chains d). x \<in> set (map series (chain_samples go d c)))"
  unfolding chain_series(3) [OF assms] by (cases "(d, x)" rule: exported.cases) auto

text \<open>All samples of a scrape without failures.\<close>

lemma all_series:
  assumes "group_order_ok go" and "reasons_given d" and "distinct (scraped_chains d)"
  defines "full \<equiv> concat (map (chain_samples go d) (scraped_chains d))"
  shows "distinct (map series full)" "list_all (shows_figure d) full" "set (map series full) = Set.Collect (exported d)"
proof -
  show "list_all (shows_figure d) full"
    using chain_series(2) [OF assms(1,2)] by (auto simp: full_def list_all_iff)
  show "set (map series full) = Set.Collect (exported d)"
    using exported_iff [OF assms(1,2)] by (fastforce simp: full_def)
  have "distinct (map series (concat (map (chain_samples go d) cs)))" if "distinct cs" for cs
    using that
  proof (induction cs)
    case (Cons c cs)
    have "series a \<noteq> series b" if "a \<in> set (chain_samples go d c)" "b \<in> set (chain_samples go d c')" "c' \<in> set cs" for a b c'
    proof -
      have "hd (snd (series a)) = c" "hd (snd (series b)) = c'"
        using that chain_series_label [OF assms(1,2)] by (metis image_eqI list.set_map)+
      then show ?thesis using that Cons.prems by auto
    qed
    then have "series ` set (chain_samples go d c) \<inter> series ` set (concat (map (chain_samples go d) cs)) = {}"
      unfolding set_concat set_map by blast
    then show ?case using Cons chain_series(1) [OF assms(1,2)] by simp
  qed simp
  then show "distinct (map series full)" using assms(3) by (simp add: full_def)
qed

lemma scraped_chains_distinct:
  assumes "driver_ok (drv d)" and "distinct (map chChainID (tblChain d))"
  shows "distinct (scraped_chains d)"
proof -
  have "mset (scraped_chains d) = mset (map chChainID (filter chEnabled (tblChain d)))" using assms(1) by (simp add: driver_ok_def scraped_chains_def)
  then show ?thesis using distinct_map_filter [OF assms(2)] by (metis mset_eq_imp_distinct_iff)
qed

lemma subseq_distinct_map: "subseq xs ys \<Longrightarrow> distinct (map f ys) \<Longrightarrow> distinct (map f xs)"
  by (metis distinct_nthsI nths_map subseq_conv_nths)

lemma scrape_truthful_db:
  assumes "driver_ok (drv (pmDb c))" and "distinct (map chChainID (tblChain (pmDb c)))" and "group_order_ok go"
    and "reasons_given (pmDb c)" and "pmSent c = []" and "c' = Collector_Collect go c"
  shows "\<exists>samples l. pmSent c' = samples @ [gauge ScrapeErrorsTotal (int (pmErrors c')) []] \<and> pmDb c' = (pmDb c)\<lparr>schedule := l\<rparr> \<and>
    distinct (map series samples) \<and> list_all (\<lambda>m. exported (pmDb c) (series m) \<and> shows_figure (pmDb c) m) samples \<and>
    (pmErrors c' = pmErrors c \<longrightarrow> set (map series samples) = Set.Collect (exported (pmDb c))) \<and>
    (schedule (pmDb c) = [] \<longrightarrow> pmErrors c' = pmErrors c)"
proof -
  let ?full = "concat (map (chain_samples go (pmDb c)) (scraped_chains (pmDb c)))"
  note A = all_series [OF assms(3,4) scraped_chains_distinct [OF assms(1,2)]]
  obtain l new where S: "pmDb c' = (pmDb c)\<lparr>schedule := l\<rparr>" "pmSent c' = new @ [gauge ScrapeErrorsTotal (int (pmErrors c')) []]"
    "subseq new ?full" "pmErrors c' = pmErrors c \<longrightarrow> new = ?full" "schedule (pmDb c) = [] \<longrightarrow> pmErrors c' = pmErrors c"
    using scrape_effect [of go c] assms(5,6) by auto
  have "set new \<subseteq> set ?full" using S(3) by (auto dest: list_emb_set)
  then have "list_all (\<lambda>m. exported (pmDb c) (series m) \<and> shows_figure (pmDb c) m) new"
    using A(2,3) unfolding list_all_iff by (metis (no_types, lifting) image_eqI list.set_map mem_Collect_eq subsetD)
  moreover have "distinct (map series new)" using subseq_distinct_map [OF S(3) A(1)] .
  ultimately show ?thesis using S A(3) by (intro exI [of _ new] exI [of _ l]) simp
qed


section \<open>The supernode gauge\<close>

lemma component_self: "a \<in> set (evidence_addresses ev) \<Longrightarrow> a \<in> component ev a"
  by (simp add: component_def)

lemma results_are_components:
  assumes "any_order ro" and "Replay ro ev = Some rs"
  shows "(\<lambda>r. set (member_addresses r)) ` set rs = component ev ` set (evidence_addresses ev)"
    "\<And>r. r \<in> set rs \<Longrightarrow> rSize r = int (card (set (member_addresses r)))"
    "distinct (map rClusterID rs) \<Longrightarrow> length rs = card ((\<lambda>r. set (member_addresses r)) ` set rs)"
proof -
  have V: "cluster_view ` set rs = spec_clusters ev" and A: "set (concat (map member_addresses rs)) = set (evidence_addresses ev)"
    using Replay_refines [OF assms(1), of ev] assms(2) set_evidence_addresses [of ev] by auto
  have r: "founder ev (rAnchorAddress r) \<and> rClusterID r = deriveClusterID (rAnchorAddress r) \<and>
      rSize r = int (card (component ev (rAnchorAddress r))) \<and> set (member_addresses r) = component ev (rAnchorAddress r)" if "r \<in> set rs" for r
  proof -
    have "cluster_view r \<in> spec_clusters ev" using V that by blast
    then show ?thesis by (auto simp: spec_clusters_def cluster_view_def)
  qed
  then show "\<And>r. r \<in> set rs \<Longrightarrow> rSize r = int (card (set (member_addresses r)))" by simp
  show "(\<lambda>r. set (member_addresses r)) ` set rs = component ev ` set (evidence_addresses ev)"
  proof
    show "(\<lambda>r. set (member_addresses r)) ` set rs \<subseteq> component ev ` set (evidence_addresses ev)"
      using r by (auto simp: founder_def)
    show "component ev ` set (evidence_addresses ev) \<subseteq> (\<lambda>r. set (member_addresses r)) ` set rs"
    proof
      fix x
      assume "x \<in> component ev ` set (evidence_addresses ev)"
      then obtain a where a: "a \<in> set (evidence_addresses ev)" "x = component ev a" by blast
      then obtain q where q: "q \<in> set rs" "a \<in> set (member_addresses q)" using A by auto
      then have "(rAnchorAddress q, a) \<in> conn (evidence_edges ev)" using r by (simp add: component_def)
      then have "component ev (rAnchorAddress q) = x" using a component_eq by blast
      then show "x \<in> (\<lambda>r. set (member_addresses r)) ` set rs" using q r by force
    qed
  qed
  assume d: "distinct (map rClusterID rs)"
  have "inj_on (\<lambda>r. set (member_addresses r)) (set rs)"
  proof (rule inj_onI)
    fix p q
    assume pq: "p \<in> set rs" "q \<in> set rs" "set (member_addresses p) = set (member_addresses q)"
    then have "rAnchorAddress p \<in> component ev (rAnchorAddress q)" using r [of p] r [of q] component_self by (metis founder_def)
    then have "(rAnchorAddress q, rAnchorAddress p) \<in> conn (evidence_edges ev)" by (simp add: component_def)
    moreover have "founder ev (rAnchorAddress q)" "founder ev (rAnchorAddress p)" using r pq by simp_all
    ultimately have "rAnchorAddress q = rAnchorAddress p" using founder_unique by blast
    then have "rClusterID p = rClusterID q" using r pq by simp
    then show "p = q" using d pq by (auto simp: distinct_map dest: inj_onD)
  qed
  moreover have "distinct rs" using d by (simp add: distinct_map)
  ultimately show "length rs = card ((\<lambda>r. set (member_addresses r)) ` set rs)" by (simp add: card_image distinct_card)
qed



end
