(* ===== verification/System.thy ===== *)
theory System
  imports QueryService Metrics
begin

text \<open>
  The clustering service as a state machine: its public operations (batches, reorgs, corrections, labels, sweep targets, cursors, queries,
  scrapes of the metrics, the maintenance tick) in any order, each with any outcome, and an environment that lets time pass and decides which statements
  fail. The invariants of the evidence log and of the address registry hold in every reachable state, and the log is append-only along every run.
\<close>

section \<open>Steps\<close>

inductive service_step :: "db \<Rightarrow> db \<Rightarrow> bool" where
  step_batch: "Run ho ro engines c ds s = (rb, s') \<Longrightarrow> service_step s s'"
| step_reorg: "OnReorg ro audited c hashes s = (rr, s') \<Longrightarrow> service_step s s'"
| step_correction: "OnManualCorrection ro audited c op why s = (rc, s') \<Longrightarrow> service_step s s'"
| step_label: "AddLabel l s = (rl, s') \<Longrightarrow> service_step s s'"
| step_target: "Add t s = (ru, s') \<Longrightarrow> service_step s s'"
| step_cursor: "SetCursor c source position s = (ru, s') \<Longrightarrow> service_step s s'"
| step_maintenance: "s' = maintenance_tick co ttl f s \<Longrightarrow> service_step s s'"
| step_query: "route ro ro' req s = (rq, s') \<Longrightarrow> service_step s s'"
| step_scrape: "s = pmDb k \<Longrightarrow> s' = pmDb (Collector_Collect go k) \<Longrightarrow> service_step s s'"
| step_environment: "clock s \<le> now \<Longrightarrow> s' = s\<lparr>schedule := outcomes, clock := now\<rparr> \<Longrightarrow> service_step s s'"

definition core :: "db \<Rightarrow> MergeEvidence list \<times> int \<times> Address list" where
  "core s = (tblEvidence s, mergeOpSeq s, tblAddress s)"

lemma stable_core: "stable (\<lambda>s. core s = k)"
  by (simp add: stable_def core_def)

lemma keeps_core:
  "keeps (\<lambda>s. core s = k) (AddLabel l)" "keeps (\<lambda>s. core s = k) (Add t)" "keeps (\<lambda>s. core s = k) (SetCursor c src pos)"
  "keeps (\<lambda>s. core s = k) (Maintain co c ttl f)"
proof -
  note st = stable_core [of k]
  show "keeps (\<lambda>s. core s = k) (AddLabel l)" unfolding AddLabel_def
    by (intro keep_rules keeps_stmt st) (auto simp: insert_label_def Let_def core_def split: option.splits)
  show "keeps (\<lambda>s. core s = k) (Add t)" unfolding Add_def
    by (intro keep_rules keeps_stmt st) (auto simp: core_def split: option.splits)
  show "keeps (\<lambda>s. core s = k) (SetCursor c src pos)" unfolding SetCursor_def
    by (intro keep_rules keeps_stmt st) (auto simp: core_def)
  have d: "keeps (\<lambda>s. core s = k) (decay_label i q)" "keeps (\<lambda>s. core s = k) (flag_conflict i)" for i q
    unfolding decay_label_def flag_conflict_def by (intro keeps_stmt st, simp add: core_def split: option.split)+
  have "keeps (\<lambda>s. core s = k) (bnd (wrap m (query g)) (\<lambda>labels. bnd (decay_loop now ttl f r labels) (\<lambda>res. conflict_loop res (h labels))))" for m g now r h
    unfolding decay_loop_def conflict_loop_def by (intro keep_rules st d)
  note loops = this
  show "keeps (\<lambda>s. core s = k) (Maintain co c ttl f)"
  proof (rule keepsI)
    fix s
    assume "core s = k"
    then show "core (snd (Maintain co c ttl f s)) = k"
      unfolding Maintain_def using loops [of _ _ "clock s" _ "\<lambda>labels. co (DetectConflicts labels)"] unfolding keeps_def by simp
  qed
qed

lemma maintain_chains_core: "core (maintain_chains co ttl f cs s) = core s"
proof (induction cs arbitrary: s)
  case (Cons c cs)
  have "core (snd (Maintain co c ttl f s)) = core s" using keeps_core(4) unfolding keeps_def by blast
  then show ?case using Cons by simp
qed simp

lemma maintenance_core: "core (maintenance_tick co ttl f s) = core s"
proof -
  have "keeps (\<lambda>t. core t = core s) ListChains" unfolding ListChains_def by (intro keep_rules stable_core)
  then show ?thesis
    by (auto simp: maintenance_tick_def maintain_chains_core split: prod.split sum.split dest: keepsD)
qed

lemma core_frame:
  assumes "\<And>k. keeps (\<lambda>s. core s = k) m" and "m s = (r, s')"
  shows "core s' = core s"
  using keepsD [OF assms(1) refl assms(2)] .

text \<open>What every operation of the pipeline keeps, and what depends on log and registry only, every step keeps.\<close>

lemma step_keeps:
  assumes inv: "system_invariant I" and core: "\<And>s s'. core s = core s' \<Longrightarrow> I s = I s'" and step: "service_step s s'" and "I s"
  shows "I s'"
  using step
proof cases
  case step_batch
  then show ?thesis using assms(4) by (blast intro: keepsD [OF system_invariant.keeps_Run [OF inv subset_refl]])
next
  case step_reorg
  then show ?thesis using assms(4) by (blast intro: keepsD [OF system_invariant.keeps_OnReorg [OF inv]])
next
  case step_correction
  then show ?thesis using assms(4) by (blast intro: keepsD [OF system_invariant.keeps_OnManualCorrection [OF inv]])
next
  case step_label
  show ?thesis using assms(4) core [OF core_frame [OF keeps_core(1) step_label]] by simp
next
  case step_target
  show ?thesis using assms(4) core [OF core_frame [OF keeps_core(2) step_target]] by simp
next
  case step_cursor
  show ?thesis using assms(4) core [OF core_frame [OF keeps_core(3) step_cursor]] by simp
next
  case step_maintenance
  then have "core s' = core s" using maintenance_core by simp
  from core [OF this] assms(4) show ?thesis by simp
next
  case step_query
  have "core s' = core s" by (rule route_keeps [OF stable_core refl step_query])
  from core [OF this] assms(4) show ?thesis by simp
next
  case (step_scrape k go)
  then have "core s' = core s" using scrape_effect [of go k] by (auto simp: core_def)
  from core [OF this] assms(4) show ?thesis by simp
next
  case step_environment
  then have "core s' = core s" by (simp add: core_def)
  from core [OF this] assms(4) show ?thesis by simp
qed

lemma reachable_keeps:
  assumes "system_invariant I" and "\<And>s s'. core s = core s' \<Longrightarrow> I s = I s'" and "service_step\<^sup>*\<^sup>* s s'" and "I s"
  shows "I s'"
  using assms(3,4) by induction (blast intro: step_keeps [OF assms(1,2)])+

text \<open>
  C12: the state invariants hold in every reachable state of the service, over every sequence of operations and failures: operation ids increase
  along the log and stay below the sequence, every entry links two different addresses with a confidence between 0 and 1 and a known
  status, and no address is registered twice.
\<close>

theorem service_invariants:
  assumes "tblEvidence s = []" and "tblAddress s = []" and "service_step\<^sup>*\<^sup>* s s'"
  shows "log_inv s' \<and> registry_inv s'"
proof
  show "log_inv s'"
    by (rule reachable_keeps [OF sys_log.system_invariant_axioms _ assms(3)]) (use assms in \<open>auto simp: log_inv_def core_def\<close>)
  show "registry_inv s'"
    by (rule reachable_keeps [OF sys_registry.system_invariant_axioms _ assms(3)]) (use assms in \<open>auto simp: registry_inv_def core_def\<close>)
qed

lemma sample_service_run:
  obtains s' where "service_step\<^sup>*\<^sup>* sample_chain_db s'" "\<exists>res. Run rev reverse_order engines ''eth'' sample_batch sample_chain_db = (Inr res, s')"
  using sample_run step_batch by blast

theorem service_invariants_witness:
  "\<exists>s'. service_step\<^sup>*\<^sup>* sample_chain_db s' \<and> (\<exists>res. Run rev reverse_order engines ''eth'' sample_batch sample_chain_db = (Inr res, s')) \<and>
     log_inv s' \<and> registry_inv s'"
proof (rule sample_service_run)
  fix s'
  assume "service_step\<^sup>*\<^sup>* sample_chain_db s'" "\<exists>res. Run rev reverse_order engines ''eth'' sample_batch sample_chain_db = (Inr res, s')"
  moreover have "tblEvidence sample_chain_db = []" "tblAddress sample_chain_db = []" by (simp_all add: sample_chain_db_def empty_db_def)
  ultimately show ?thesis using service_invariants by blast
qed

text \<open>
  C13: the evidence log is append-only and marks are never taken back. Along every run of the service each earlier entry stays at its place, unchanged or
  invalidated with a reason, and an address that is a hub, or is flagged for dust, stays one.
\<close>

theorem log_append_only:
  assumes "service_step\<^sup>*\<^sup>* s s'"
  shows "evolves (tblEvidence s) (tblEvidence s') \<and> registry_grows (tblAddress s) (tblAddress s')"
proof
  show "evolves (tblEvidence s) (tblEvidence s')"
    by (rule reachable_keeps [OF sys_history.system_invariant_axioms _ assms]) (auto simp: core_def)
  show "registry_grows (tblAddress s) (tblAddress s')"
    by (rule reachable_keeps [OF sys_grows.system_invariant_axioms _ assms]) (auto simp: core_def)
qed

theorem log_append_only_witness:
  "\<exists>s'. service_step\<^sup>*\<^sup>* sample_chain_db s' \<and> (\<exists>res. Run rev reverse_order engines ''eth'' sample_batch sample_chain_db = (Inr res, s')) \<and>
     evolves (tblEvidence sample_chain_db) (tblEvidence s') \<and> registry_grows (tblAddress sample_chain_db) (tblAddress s')"
  by (rule sample_service_run) (use log_append_only in blast)


section \<open>Metrics\<close>

text \<open>Evidence is only ever invalidated with a reason.\<close>

lemma keeps_reasons: "keeps reasons_given (Append e)" "keeps reasons_given (Invalidate c op r)" "keeps reasons_given (RebuildFromEvidence ro c)"
proof -
  have st: "stable reasons_given" by (simp add: stable_def reasons_given_def)
  show "keeps reasons_given (Append e)" unfolding Append_def Let_def
  proof (intro keep_rules keeps_stmt st)
    fix s cb
    assume "reasons_given s"
    then show "reasons_given (snd (insert_evidence e cb s))"
      by (cases rule: insert_evidence_cases [of e cb s]) (auto simp: reasons_given_def evidence_row_def)
  qed
  show "keeps reasons_given (Invalidate c op r)" unfolding Invalidate_unfold
    by (intro keep_rules keeps_stmt st) (auto simp: reasons_given_def invalidate_where_def invalidate_row_def)
  show "keeps reasons_given (RebuildFromEvidence ro c)"
    by (rule keeps_frame [OF keeps_Rebuild_outside], drule arg_cong [of _ _ tblEvidence]) (simp add: reasons_given_def outside_cache_def)
qed

interpretation sys_reasons: system_invariant reasons_given
  by (rule log_predicate_invariant [of _ "\<lambda>l _. \<forall>e \<in> set l. meStatus e = EvidenceStatusInvalidated \<longrightarrow> meInvalidatedReason e \<noteq> None"])
    (rule reasons_given_def keeps_reasons)+


text \<open>
  C16: the metrics tell the truth. In every reachable state of the service, and whatever queries fail during the scrape, each sample shows the figure
  that the tables give for its series, no series is sent twice (which the Prometheus registry would reject), nothing is written to the database, and if the error counter
  has not moved the scrape is complete: it has exactly the series that exist. Without faults the counter does not move.
\<close>

theorem scrape_truthful:
  assumes "service_step\<^sup>*\<^sup>* s (pmDb c)" and "reasons_given s" and "driver_ok (drv (pmDb c))"
    and "distinct (map chChainID (tblChain (pmDb c)))" and "group_order_ok go" and "pmSent c = []" and "c' = Collector_Collect go c"
  shows "\<exists>samples l. pmSent c' = samples @ [gauge ScrapeErrorsTotal (int (pmErrors c')) []] \<and> pmDb c' = (pmDb c)\<lparr>schedule := l\<rparr> \<and>
    distinct (map series samples) \<and>
    list_all (\<lambda>m. exported (pmDb c) (series m) \<and> smValue m = float_of_int (figure (pmDb c) (smDesc m) (smLabels m))) samples \<and>
    (pmErrors c' = pmErrors c \<longrightarrow> set (map series samples) = Set.Collect (exported (pmDb c))) \<and>
    (schedule (pmDb c) = [] \<longrightarrow> pmErrors c' = pmErrors c)"
proof -
  have "reasons_given (pmDb c)"
    by (rule reachable_keeps [OF sys_reasons.system_invariant_axioms _ assms(1,2)]) (simp add: reasons_given_def core_def)
  from scrape_truthful_db [OF assms(3-5) this assms(6,7)] show ?thesis by (simp add: shows_figure_def)
qed

definition sample_collector :: Collector where
  "sample_collector = \<lparr>pmDb = sample_chain_db\<lparr>schedule := [Done, Done, Done, Done, Lost],
     tblEvidence := [sample_entry 1 ''A'' ''B'' ''t1'' (1/2), invalidate_row ''reorg'' (sample_entry 2 ''A'' ''C'' ''t2'' (1/2))]\<rparr>,
     pmErrors = 0, pmSent = []\<rparr>"

theorem scrape_truthful_witness:
  "\<exists>samples. pmSent (Collector_Collect rev sample_collector) = samples @ [gauge ScrapeErrorsTotal 1 []] \<and>
     map series samples = [(ClusterMaxSize, [''eth'']), (ClusterCount, [''eth'']), (MergeEvidenceActive, [''eth'', ''common_input''])] \<and>
     list_all (\<lambda>m. smValue m = float_of_int (figure (pmDb sample_collector) (smDesc m) (smLabels m))) samples"
proof -
  have run: "pmSent (Collector_Collect rev sample_collector) =
      [gauge ClusterMaxSize 0 [''eth''], gauge ClusterCount 0 [''eth''], gauge MergeEvidenceActive 1 [''eth'', ''common_input''], gauge ScrapeErrorsTotal 1 []]"
    "pmErrors (Collector_Collect rev sample_collector) = 1"
    by code_simp+
  have "service_step\<^sup>*\<^sup>* (pmDb sample_collector) (pmDb sample_collector)" by simp
  moreover have "reasons_given (pmDb sample_collector)"
    by (simp add: sample_collector_def reasons_given_def sample_entry_def invalidate_row_def EvidenceStatusActive_def EvidenceStatusInvalidated_def)
  moreover have "driver_ok (drv (pmDb sample_collector))"
    using driver_ok_sample by (simp add: sample_collector_def sample_chain_db_def empty_db_def)
  moreover have "distinct (map chChainID (tblChain (pmDb sample_collector)))" by (simp add: sample_collector_def sample_chain_db_def)
  moreover have "group_order_ok rev" by (simp add: group_order_ok_def)
  moreover have "pmSent sample_collector = []" by (simp add: sample_collector_def)
  ultimately obtain samples where
    s: "pmSent (Collector_Collect rev sample_collector) = samples @ [gauge ScrapeErrorsTotal (int (pmErrors (Collector_Collect rev sample_collector))) []]"
    "list_all (\<lambda>m. exported (pmDb sample_collector) (series m) \<and>
       smValue m = float_of_int (figure (pmDb sample_collector) (smDesc m) (smLabels m))) samples"
    using scrape_truthful [OF _ _ _ _ _ _ refl] by blast
  have "samples = [gauge ClusterMaxSize 0 [''eth''], gauge ClusterCount 0 [''eth''], gauge MergeEvidenceActive 1 [''eth'', ''common_input'']]"
    using s(1) run by simp
  then show ?thesis using s run by (intro exI [of _ samples]) (auto simp: series_def gauge_def list_all_iff)
qed

end
