(* ===== verification/Startup.thy ===== *)
theory Startup
  imports Config System
begin

text \<open>
  The two programs of the clustering service, \<open>cmd/server/main.go\<close> and \<open>cmd/consumer/main.go\<close>: reading the configuration, connecting to the database, and then
  serving requests and maintaining labels, or consuming the topic. What the operating system, the connection pool and the broker do is the
  environment; logging is left out.
\<close>

section \<open>Processes\<close>

text \<open>How a process ends, if it does. A panic in any goroutine ends the whole process.\<close>

datatype fate = Exit nat | Panicked string | Running

record platform =
  plConfig :: "Config config_env"
  plPool :: "string \<Rightarrow> error option"
  plPing :: "error option"

text \<open>\<open>time.NewTicker\<close> panics unless the interval is positive.\<close>

definition ticker_panics :: "int \<Rightarrow> bool" where
  "ticker_panics interval \<longleftrightarrow> interval \<le> 0"

text \<open>Configuration file, \<open>pgxpool.New\<close> and \<open>Ping\<close>: each failure is logged and ends the process with status 1.\<close>

definition connect :: "platform \<Rightarrow> Config \<Rightarrow> bool" where
  "connect pl cfg \<longleftrightarrow> plPool pl (DSN cfg) = None \<and> plPing pl = None"


section \<open>The consumer\<close>

record ReaderConfig =
  rcBrokers :: "string list"
  rcTopic :: string
  rcGroupID :: string

definition reader_config :: "Config \<Rightarrow> ReaderConfig" where
  "reader_config cfg = \<lparr>rcBrokers = KafkaBrokerList cfg, rcTopic = kcTopicBalanceDelta (cfKafka cfg), rcGroupID = kcConsumerGroupID (cfKafka cfg)\<rparr>"

text \<open>
  \<open>main\<close> of the consumer over the events that the reader, the ticker and the signal handler deliver (\<open>deliver\<close>, a function of how the reader is
  configured). The loop ends with an error, or without one when the process is asked to stop; otherwise it is still running.
\<close>

definition consumer_main :: "height_order \<Rightarrow> range_order \<Rightarrow> platform \<Rightarrow> (ReaderConfig \<Rightarrow> event list) \<Rightarrow> db \<Rightarrow> fate \<times> consumer" where
  "consumer_main ho ro pl deliver s =
     (let c0 = fresh_consumer s in
      case Load (plConfig pl) ''configs/config.yaml'' of
        Inl e \<Rightarrow> (Exit 1, c0)
      | Inr cfg \<Rightarrow>
          (case ConsumerFlushInterval cfg of
             Inl e \<Rightarrow> (Exit 1, c0)
           | Inr flushInterval \<Rightarrow>
               if \<not> connect pl cfg then (Exit 1, c0)
               else if ticker_panics flushInterval then (Panicked ''non-positive interval for NewTicker'', c0)
               else
                 let events = deliver (reader_config cfg) in
                 (case ConsumerRun ho ro events c0 of
                    (Inl e, c) \<Rightarrow> (Exit 1, c)
                  | (Inr _, c) \<Rightarrow> (if Cancelled \<in> set events then Exit 0 else Running, c))))"


section \<open>The server\<close>

definition server_start :: "platform \<Rightarrow> fate + Config" where
  "server_start pl =
     (case Load (plConfig pl) ''configs/config.yaml'' of
        Inl e \<Rightarrow> Inl (Exit 1)
      | Inr cfg \<Rightarrow> if connect pl cfg then Inr cfg else Inl (Exit 1))"

text \<open>
  The routes. A scrape gathers the samples of a new collection; the Prometheus registry refuses a collection that has a series twice, which
  \<open>promhttp\<close> answers with 500.
\<close>

datatype server_request = GetHealthz | GetMetrics | Api request

datatype server_response = Status nat | MetricsReply nat "sample list" | ApiReply response

definition get_healthz :: "Collector \<Rightarrow> server_response \<times> Collector" where
  "get_healthz c = (case in_db (query (\<lambda>_. ())) c of (Inl e, c') \<Rightarrow> (Status 503, c') | (Inr _, c') \<Rightarrow> (Status 200, c'))"

definition get_metrics :: "group_order \<Rightarrow> Collector \<Rightarrow> server_response \<times> Collector" where
  "get_metrics go c =
     (let c' = Collector_Collect go (c\<lparr>pmSent := []\<rparr>) in
      (if distinct (map series (pmSent c')) then MetricsReply 200 (pmSent c') else MetricsReply 500 [], c'))"

fun server_handle :: "group_order \<Rightarrow> range_order \<Rightarrow> range_order \<Rightarrow> server_request \<Rightarrow> Collector \<Rightarrow> server_response \<times> Collector" where
  "server_handle go ro ro' GetHealthz c = get_healthz c"
| "server_handle go ro ro' GetMetrics c = get_metrics go c"
| "server_handle go ro ro' (Api req) c = (case route ro ro' req (pmDb c) of (r, d) \<Rightarrow> (ApiReply r, c\<lparr>pmDb := d\<rparr>))"

text \<open>
  \<open>runLabelMaintenanceLoop\<close>, for the number of ticks it lives through: a setting that is not a duration disables it. The clock counts seconds, so a
  label is older than the time to live when it is older in whole seconds.
\<close>

definition nanoseconds :: int where
  "nanoseconds = 10 ^ 9"

definition runLabelMaintenanceLoop :: "(int list \<Rightarrow> int list) \<Rightarrow> Config \<Rightarrow> nat \<Rightarrow> db \<Rightarrow> fate \<times> db" where
  "runLabelMaintenanceLoop co cfg ticks s =
     (case LabelMaintenanceInterval cfg of
        Inl e \<Rightarrow> (Running, s)
      | Inr interval \<Rightarrow>
          (case LabelMaintenanceStaleTTL cfg of
             Inl e \<Rightarrow> (Running, s)
           | Inr staleTTL \<Rightarrow>
               if ticker_panics interval then (Panicked ''non-positive interval for NewTicker'', s)
               else (Running, (maintenance_tick co (staleTTL div nanoseconds) (lmDecayFactor (cfLabelMaintenance cfg)) ^^ ticks) s)))"


section \<open>Properties\<close>


definition sample_platform :: "string \<Rightarrow> platform" where
  "sample_platform flush = \<lparr>plConfig = \<lparr>readFile = (\<lambda>_. Inr ''...''), getenv = (\<lambda>_. []),
     unmarshal = (\<lambda>_. Inr (sample_config\<lparr>cfKafka := (cfKafka sample_config)\<lparr>kcFlushInterval := flush\<rparr>\<rparr>))\<rparr>, plPool = (\<lambda>_. None), plPing = None\<rparr>"


text \<open>
  Label maintenance follows its settings. An interval or time to live that is no duration disables the loop and changes nothing, a positive interval runs the
  ticks, and evidence and registry are not touched in any case. An interval of zero or less is a valid duration, but it ends the whole server in a panic.
\<close>

theorem maintenance_settings:
  assumes "runLabelMaintenanceLoop co cfg ticks s = (f, s')"
  shows "core s' = core s \<and>
    (isl (LabelMaintenanceInterval cfg) \<or> isl (LabelMaintenanceStaleTTL cfg) \<longrightarrow> f = Running \<and> s' = s) \<and>
    (\<forall>d ttl. LabelMaintenanceInterval cfg = Inr d \<and> LabelMaintenanceStaleTTL cfg = Inr ttl \<longrightarrow>
       (if d \<le> 0 then (\<exists>m. f = Panicked m) \<and> s' = s
        else f = Running \<and> s' = (maintenance_tick co (ttl div nanoseconds) (lmDecayFactor (cfLabelMaintenance cfg)) ^^ ticks) s))"
proof -
  have ticks: "core ((maintenance_tick co ttl g ^^ n) s) = core s" for ttl g n
    by (induction n) (simp_all add: maintenance_core)
  show ?thesis using assms
    by (cases "LabelMaintenanceInterval cfg"; cases "LabelMaintenanceStaleTTL cfg")
       (auto simp: runLabelMaintenanceLoop_def ticker_panics_def ticks split: if_splits)
qed

text \<open>The settings of \<open>.env.example\<close>, and an interval of zero.\<close>

theorem maintenance_settings_witness:
  "runLabelMaintenanceLoop id sample_config 2 sample_label_db =
     (Running, maintenance_tick id 2592000 (1/2) (maintenance_tick id 2592000 (1/2) sample_label_db)) \<and>
   (\<exists>m. runLabelMaintenanceLoop id (sample_config\<lparr>cfLabelMaintenance := (cfLabelMaintenance sample_config)\<lparr>lmInterval := ''0s''\<rparr>\<rparr>) 2 sample_label_db =
      (Panicked m, sample_label_db))"
proof
  let ?bad = "sample_config\<lparr>cfLabelMaintenance := (cfLabelMaintenance sample_config)\<lparr>lmInterval := ''0s''\<rparr>\<rparr>"
  have d: "LabelMaintenanceInterval sample_config = Inr 86400000000000" "LabelMaintenanceStaleTTL sample_config = Inr 2592000000000000"
    "LabelMaintenanceInterval ?bad = Inr 0" "LabelMaintenanceStaleTTL ?bad = Inr 2592000000000000" by code_simp+
  obtain f s' where r: "runLabelMaintenanceLoop id sample_config 2 sample_label_db = (f, s')" by fastforce
  have half: "lmDecayFactor (cfLabelMaintenance sample_config) = 1/2" by (simp add: sample_config_def)
  show "runLabelMaintenanceLoop id sample_config 2 sample_label_db =
     (Running, maintenance_tick id 2592000 (1/2) (maintenance_tick id 2592000 (1/2) sample_label_db))"
    using maintenance_settings [OF r, unfolded half] d r by (simp add: nanoseconds_def numeral_2_eq_2)
  obtain f' s'' where r': "runLabelMaintenanceLoop id ?bad 2 sample_label_db = (f', s'')" by fastforce
  show "\<exists>m. runLabelMaintenanceLoop id ?bad 2 sample_label_db = (Panicked m, sample_label_db)"
    using maintenance_settings [OF r'] d r' by simp
qed

text \<open>Over the life of the server every request leaves the tables as they are, and the metrics endpoint never has to refuse a collection.\<close>

lemma server_handle_reads:
  assumes "server_handle go ro ro' req c = (r, c')"
  shows "(pmDb c')\<lparr>schedule := []\<rparr> = (pmDb c)\<lparr>schedule := []\<rparr>"
proof (cases req)
  case GetHealthz
  have "effect [] c (fst (in_db (query (\<lambda>_. ())) c)) (snd (in_db (query (\<lambda>_. ())) c))" by (rule effect_query)
  moreover have "c' = snd (in_db (query (\<lambda>_. ())) c)" using assms GetHealthz by (auto simp: get_healthz_def split: prod.splits sum.splits)
  ultimately show ?thesis by (auto simp: effect_def moved_def)
next
  case GetMetrics
  then show ?thesis using assms scrape_effect [of go "c\<lparr>pmSent := []\<rparr>"] by (auto simp: get_metrics_def Let_def)
next
  case (Api q)
  then obtain d where d: "route ro ro' q (pmDb c) = (case r of ApiReply x \<Rightarrow> x, d)" "c' = c\<lparr>pmDb := d\<rparr>" using assms by (auto split: prod.splits)
  from route_keeps [OF stable_same _ d(1), of "pmDb c"] d(2) show ?thesis by simp
qed

theorem metrics_endpoint_replies:
  assumes "driver_ok (drv (pmDb c))" and "distinct (map chChainID (tblChain (pmDb c)))" and "group_order_ok go" and "reasons_given (pmDb c)"
  shows "\<exists>samples c'. server_handle go ro ro' GetMetrics c = (MetricsReply 200 samples, c')"
proof -
  obtain samples where s: "pmSent (Collector_Collect go (c\<lparr>pmSent := []\<rparr>)) =
      samples @ [gauge ScrapeErrorsTotal (int (pmErrors (Collector_Collect go (c\<lparr>pmSent := []\<rparr>)))) []]"
    "distinct (map series samples)" "list_all (\<lambda>m. exported (pmDb c) (series m) \<and> shows_figure (pmDb c) m) samples"
    using scrape_truthful_db [of "c\<lparr>pmSent := []\<rparr>" go, OF _ _ _ _ _ refl] assms by auto
  have "(ScrapeErrorsTotal, []) \<notin> series ` set samples" 
  proof
    assume "(ScrapeErrorsTotal, []) \<in> series ` set samples"
    then obtain m where "m \<in> set samples" "series m = (ScrapeErrorsTotal, [])" by force
    then show False using s(3) by (auto simp: list_all_iff)
  qed
  moreover have "series (gauge ScrapeErrorsTotal v []) = (ScrapeErrorsTotal, [])" for v by (simp add: series_def gauge_def)
  ultimately have "distinct (map series (pmSent (Collector_Collect go (c\<lparr>pmSent := []\<rparr>))))" using s by simp
  then show ?thesis by (simp add: get_metrics_def Let_def)
qed

end
