(* ===== verification/IndexerMain.thy ===== *)
theory IndexerMain
  imports IndexerCorrect Startup
begin

text \<open>
  \<open>main\<close> of the indexer (\<open>blockchain-indexer/cmd/indexer/main.go\<close>), with the chain registry of \<open>internal/state\<close> and the dialling of a node in
  \<open>internal/adapter/ethereum\<close>: one worker per enabled account chain, all on one database and one topic. Turns of different workers interleave in any order;
  the metrics endpoint and logging are left out.
\<close>

section \<open>The chain registry\<close>

record ChainConfig =
  icChainID :: string
  icModelType :: string
  icNodeEndpoint :: string
  icNodeAuthRef :: "string option"
  icFinalityDepth :: int
  icAddressNormalization :: string
  icStartHeight :: int
  icEnabled :: bool

definition GetChainConfig :: "ChainConfig list \<Rightarrow> string \<Rightarrow> ChainConfig option index" where
  "GetChainConfig tbl chainID = ix_stmt (\<lambda>s. (Inr (List.find (\<lambda>cc. icChainID cc = chainID) tbl), s))"

text \<open>A \<open>SELECT\<close> without \<open>ORDER BY\<close>: \<open>heap\<close> is the order in which the rows arrive.\<close>

definition ListEnabledChainConfigs :: "(ChainConfig list \<Rightarrow> ChainConfig list) \<Rightarrow> ChainConfig list \<Rightarrow> ChainConfig list index" where
  "ListEnabledChainConfigs heap tbl = ix_stmt (\<lambda>s. (Inr (heap (filter icEnabled tbl)), s))"


section \<open>Workers\<close>

text \<open>What \<open>ethclient.DialContext\<close> returns: the node, and its answer to the question for its network id.\<close>

record eth_client =
  ecChainID :: "error + int"
  ecNode :: "nat \<Rightarrow> NodeView"

definition ethereum_New :: "(string \<Rightarrow> error + eth_client) \<Rightarrow> string \<Rightarrow> error + int \<times> (nat \<Rightarrow> NodeView)" where
  "ethereum_New dial rpcURL =
     (case dial rpcURL of
        Inl e \<Rightarrow> Inl (ErrWrap ''dial'' e)
      | Inr client \<Rightarrow>
          (case ecChainID client of Inl e \<Rightarrow> Inl (ErrWrap ''chain id'' e) | Inr n \<Rightarrow> Inr (n, ecNode client)))"

record worker =
  wkChainID :: string
  wkStartHeight :: int
  wkNetworkID :: int
  wkNode :: "nat \<Rightarrow> NodeView"
  wkRequests :: nat
  wkBackoff :: backoff
  wkSlept :: "int list"

record fleet =
  flShared :: indexer
  flWorkers :: "worker list"

text \<open>The \<open>switch\<close> on the model type: a chain whose node cannot be dialled is logged and left out, as are UTXO chains and unknown models.\<close>

definition start_worker :: "(string \<Rightarrow> error + eth_client) \<Rightarrow> ChainConfig \<Rightarrow> worker option" where
  "start_worker dial cc =
     (if icModelType cc = ''account'' then
        (case ethereum_New dial (icNodeEndpoint cc) of
           Inl e \<Rightarrow> None
         | Inr (n, node) \<Rightarrow> Some \<lparr>wkChainID = icChainID cc, wkStartHeight = icStartHeight cc, wkNetworkID = n, wkNode = node, wkRequests = 0,
             wkBackoff = newBackoff, wkSlept = []\<rparr>)
      else None)"

definition indexer_main :: "IxConfig config_env \<Rightarrow> (string \<Rightarrow> error option) \<Rightarrow> (ChainConfig list \<Rightarrow> ChainConfig list) \<Rightarrow>
    (string \<Rightarrow> error + eth_client) \<Rightarrow> ChainConfig list \<Rightarrow> indexer \<Rightarrow> fate + fleet" where
  "indexer_main env newPool heap dial tbl s =
     (let configPath = (if getenv env ''CONFIG_PATH'' = [] then ''configs/config.yaml'' else getenv env ''CONFIG_PATH'') in
      case Ix_Load env configPath of
        Inl e \<Rightarrow> Inl (Exit 1)
      | Inr cfg \<Rightarrow>
          (case newPool (ixPostgresDSN cfg) of
             Some e \<Rightarrow> Inl (Exit 1)
           | None \<Rightarrow>
               (case ListEnabledChainConfigs heap tbl s of
                  (Inl e, s1) \<Rightarrow> Inl (Exit 1)
                | (Inr ccs, s1) \<Rightarrow> Inr \<lparr>flShared = s1, flWorkers = List.map_filter (start_worker dial) ccs\<rparr>)))"

text \<open>A turn of one worker: its node, request counter, backoff and pauses are its own, the rest is shared.\<close>

definition enter :: "worker \<Rightarrow> indexer \<Rightarrow> indexer" where
  "enter w s = s\<lparr>inNode := wkNode w, inRequests := wkRequests w, inBackoff := wkBackoff w, inSlept := wkSlept w\<rparr>"

definition leave :: "worker \<Rightarrow> indexer \<Rightarrow> worker" where
  "leave w s = w\<lparr>wkRequests := inRequests s, wkBackoff := inBackoff s, wkSlept := inSlept s\<rparr>"

definition worker_turn :: "geth \<Rightarrow> nat \<Rightarrow> fleet \<Rightarrow> fleet" where
  "worker_turn g i f =
     (if i < length (flWorkers f) then
        let w = flWorkers f ! i; s = loop_step g (wkNetworkID w) (wkChainID w) (wkStartHeight w) (enter w (flShared f))
        in \<lparr>flShared = s, flWorkers = (flWorkers f)[i := leave w s]\<rparr>
      else f)"

definition run_fleet :: "geth \<Rightarrow> nat list \<Rightarrow> fleet \<Rightarrow> fleet" where
  "run_fleet g turns f = fold (worker_turn g) turns f"


section \<open>Workers do not disturb each other\<close>

lemma turns_to_frame:
  assumes "turns_to g n c s s'" and "c' \<noteq> c"
  shows "of_chain c' (inBlocks s') = of_chain c' (inBlocks s)" "map_of (inCursors s') c' = map_of (inCursors s) c'"
    "\<exists>ms. inTopic s' = inTopic s @ ms"
proof -
  have put: "of_chain c' (put_block (row_of g c h b) bs) = of_chain c' bs" for h b bs
    using assms(2) by (simp add: put_block_def of_chain_def row_of_def)
  show "of_chain c' (inBlocks s') = of_chain c' (inBlocks s)"
    using assms(1)
  proof cases
    case (turn_orphan "next" rb a)
    then show ?thesis using assms(2) by (auto simp: of_chain_def intro: filter_cong)
  qed (simp_all add: same_tables_def advanced_def put)
  show "map_of (inCursors s') c' = map_of (inCursors s) c'"
    using assms by cases (auto simp: same_tables_def advanced_def row_of_def update_conv)
  show "\<exists>ms. inTopic s' = inTopic s @ ms" using assms(1) by cases auto
qed

definition worker_ok :: "geth \<Rightarrow> indexer \<Rightarrow> worker \<Rightarrow> bool" where
  "worker_ok g s w \<longleftrightarrow> linked (wkChainID w) s \<and> covered g (wkNetworkID w) (wkChainID w) (enter w s)"

lemma enter_fields [simp]:
  "inBlocks (enter w s) = inBlocks s" "inCursors (enter w s) = inCursors s" "inTopic (enter w s) = inTopic s" "inNode (enter w s) = wkNode w"
  by (simp_all add: enter_def)

lemma leave_fields [simp]:
  "wkChainID (leave w s) = wkChainID w" "wkNetworkID (leave w s) = wkNetworkID w" "wkNode (leave w s) = wkNode w" "wkStartHeight (leave w s) = wkStartHeight w"
  by (simp_all add: leave_def)

lemma worker_ok_cong:
  assumes "worker_ok g s w" and "inTopic s' = inTopic s @ ms" and "of_chain (wkChainID w) (inBlocks s') = of_chain (wkChainID w) (inBlocks s)"
    and "map_of (inCursors s') (wkChainID w) = map_of (inCursors s) (wkChainID w)"
  shows "worker_ok g s' w"
proof -
  have "linked (wkChainID w) s'" using assms(1,3,4) by (simp add: worker_ok_def linked_def)
  moreover have "covered g (wkNetworkID w) (wkChainID w) (enter w s')"
  proof -
    have "\<exists>block t0 t before after. b = row_of g (wkChainID w) (sbHeight b) block \<and> nvBlockByNumber (wkNode w t0) (sbHeight b) = Some block \<and>
         inTopic s' = before @ delta_messages (block_deltas g (wkNetworkID w) (wkChainID w) (wkNode w) t (to_RawBlock g block) (ebTransactions block)) @ after"
      if b: "b \<in> set (of_chain (wkChainID w) (inBlocks s))" for b
    proof -
      obtain block t0 t before after where "b = row_of g (wkChainID w) (sbHeight b) block" "nvBlockByNumber (wkNode w t0) (sbHeight b) = Some block"
        "inTopic s = before @ delta_messages (block_deltas g (wkNetworkID w) (wkChainID w) (wkNode w) t (to_RawBlock g block) (ebTransactions block)) @ after"
        using assms(1) b unfolding worker_ok_def covered_def list_all_iff enter_fields by blast
      then show ?thesis using assms(2)
        by (intro exI [of _ block] exI [of _ t0] exI [of _ t] exI [of _ before] exI [of _ "after @ ms"]) simp
    qed
    then show ?thesis using assms(3) by (simp add: covered_def list_all_iff)
  qed
  ultimately show ?thesis by (simp add: worker_ok_def)
qed

definition fleet_ok :: "geth \<Rightarrow> fleet \<Rightarrow> bool" where
  "fleet_ok g f \<longleftrightarrow> distinct (map wkChainID (flWorkers f)) \<and> list_all (worker_ok g (flShared f)) (flWorkers f)"

lemma worker_turn_ok:
  assumes "fleet_ok g f"
  shows "fleet_ok g (worker_turn g i f)"
proof (cases "i < length (flWorkers f)")
  case False
  then show ?thesis using assms by (simp add: worker_turn_def)
next
  case True
  define w where "w = flWorkers f ! i"
  define s where "s = loop_step g (wkNetworkID w) (wkChainID w) (wkStartHeight w) (enter w (flShared f))"
  have f': "worker_turn g i f = \<lparr>flShared = s, flWorkers = (flWorkers f)[i := leave w s]\<rparr>"
    using True by (simp add: worker_turn_def w_def s_def Let_def)
  have T: "turns_to g (wkNetworkID w) (wkChainID w) (enter w (flShared f)) s" unfolding s_def by (rule loop_step_turns)
  have w: "worker_ok g (flShared f) w" using assms True by (simp add: fleet_ok_def w_def list_all_length)
  have node: "inNode s = wkNode w" using turns_to_grows [OF T] by simp
  have lk: "linked (wkChainID w) s" using linked_turn [OF T] w by (simp add: worker_ok_def linked_def)
  have "covered g (wkNetworkID w) (wkChainID w) s" using covered_turn [OF T] w by (simp add: worker_ok_def)
  then have own: "worker_ok g s (leave w s)" using lk node by (simp add: worker_ok_def covered_def)
  have other: "worker_ok g s v" if v: "v \<in> set (flWorkers f)" "wkChainID v \<noteq> wkChainID w" for v
  proof -
    obtain ms where "inTopic s = inTopic (flShared f) @ ms" using turns_to_frame(3) [OF T v(2)] by auto
    then show ?thesis
      by (rule worker_ok_cong [rotated]) (use assms v turns_to_frame(1,2) [OF T v(2)] in \<open>simp_all add: fleet_ok_def list_all_iff\<close>)
  qed
  have ids: "map wkChainID ((flWorkers f)[i := leave w s]) = map wkChainID (flWorkers f)"
    using True by (simp add: map_update w_def list_update_same_conv)
  have "worker_ok g s ((flWorkers f)[i := leave w s] ! j)" if "j < length (flWorkers f)" for j
  proof (cases "j = i")
    case False
    then have "wkChainID (flWorkers f ! j) \<noteq> wkChainID w"
      using assms True that unfolding fleet_ok_def w_def by (metis length_map nth_eq_iff_index_eq nth_map)
    then show ?thesis using False that other by simp
  qed (use own that in simp)
  then show ?thesis using assms ids by (simp add: f' fleet_ok_def list_all_length)
qed

lemma run_fleet_ok: "fleet_ok g f \<Longrightarrow> fleet_ok g (run_fleet g turns f)"
  unfolding run_fleet_def by (induction turns arbitrary: f) (simp_all add: worker_turn_ok)

text \<open>The workers that are started, and that no turn adds or removes one.\<close>

lemma started_worker:
  "start_worker dial cc = Some w \<longleftrightarrow> icModelType cc = ''account'' \<and>
     (\<exists>n node. ethereum_New dial (icNodeEndpoint cc) = Inr (n, node) \<and>
       w = \<lparr>wkChainID = icChainID cc, wkStartHeight = icStartHeight cc, wkNetworkID = n, wkNode = node, wkRequests = 0, wkBackoff = newBackoff, wkSlept = []\<rparr>)"
  by (auto simp: start_worker_def split: sum.splits prod.splits)

lemma run_fleet_chains: "map wkChainID (flWorkers (run_fleet g turns f)) = map wkChainID (flWorkers f)"
proof (induction turns arbitrary: f)
  case (Cons i turns)
  have "map wkChainID (flWorkers (worker_turn g i f)) = map wkChainID (flWorkers f)"
    by (simp add: worker_turn_def Let_def map_update list_update_same_conv)
  then show ?case using Cons by (simp add: run_fleet_def)
qed (simp add: run_fleet_def)

lemma started_distinct:
  assumes "distinct (map icChainID ccs)"
  shows "distinct (map wkChainID (List.map_filter (start_worker dial) ccs))"
proof -
  have eq: "map wkChainID (List.map_filter (start_worker dial) xs) = map icChainID (filter (\<lambda>cc. start_worker dial cc \<noteq> None) xs)" for xs
  proof (induction xs)
    case (Cons cc xs)
    show ?case
    proof (cases "start_worker dial cc")
      case (Some w)
      then have "wkChainID w = icChainID cc" by (auto simp: started_worker)
      then show ?thesis using Cons Some by (simp add: List.map_filter_simps)
    qed (use Cons in \<open>simp add: List.map_filter_simps\<close>)
  qed (simp add: List.map_filter_simps)
  show ?thesis unfolding eq using assms by (rule distinct_map_filter)
qed


lemma start_worker_None:
  "start_worker dial cc = None \<longleftrightarrow> icModelType cc \<noteq> ''account'' \<or> isl (ethereum_New dial (icNodeEndpoint cc))"
  by (cases "ethereum_New dial (icNodeEndpoint cc)") (auto simp: start_worker_def split: prod.split)

lemma main_started:
  assumes "indexer_main env newPool heap dial tbl s = Inr f"
  shows "flWorkers f = List.map_filter (start_worker dial) (heap (filter icEnabled tbl)) \<and> inBlocks (flShared f) = inBlocks s \<and>
    inCursors (flShared f) = inCursors s \<and> inTopic (flShared f) = inTopic s"
proof -
  obtain ccs s1 where L: "ListEnabledChainConfigs heap tbl s = (Inr ccs, s1)" and f: "f = \<lparr>flShared = s1, flWorkers = List.map_filter (start_worker dial) ccs\<rparr>"
    using assms by (auto simp: indexer_main_def Let_def split: sum.splits option.splits prod.splits)
  from L have "ccs = heap (filter icEnabled tbl)" "s1 = s\<lparr>inSchedule := tl (inSchedule s)\<rparr>"
    unfolding ListEnabledChainConfigs_def by (cases rule: ix_stmt_cases; simp)+
  then show ?thesis by (simp add: f)
qed

text \<open>A chain that has no worker: nothing is recorded of it, however the others run.\<close>

lemma run_fleet_other:
  assumes "c \<notin> wkChainID ` set (flWorkers f)"
  shows "of_chain c (inBlocks (flShared (run_fleet g turns f))) = of_chain c (inBlocks (flShared f)) \<and>
    map_of (inCursors (flShared (run_fleet g turns f))) c = map_of (inCursors (flShared f)) c"
  using assms
proof (induction turns arbitrary: f)
  case (Cons i turns)
  have ids: "map wkChainID (flWorkers (worker_turn g i f)) = map wkChainID (flWorkers f)"
    using run_fleet_chains [of g "[i]" f] by (simp add: run_fleet_def)
  then have "c \<notin> wkChainID ` set (flWorkers (worker_turn g i f))" using Cons.prems by (metis list.set_map)
  note IH = Cons.IH [OF this]
  have "of_chain c (inBlocks (flShared (worker_turn g i f))) = of_chain c (inBlocks (flShared f)) \<and>
      map_of (inCursors (flShared (worker_turn g i f))) c = map_of (inCursors (flShared f)) c"
  proof (cases "i < length (flWorkers f)")
    case True
    let ?w = "flWorkers f ! i"
    have T: "turns_to g (wkNetworkID ?w) (wkChainID ?w) (enter ?w (flShared f))
        (loop_step g (wkNetworkID ?w) (wkChainID ?w) (wkStartHeight ?w) (enter ?w (flShared f)))" by (rule loop_step_turns)
    have "c \<noteq> wkChainID ?w" using True Cons.prems by force
    then show ?thesis using True turns_to_frame(1,2) [OF T] by (simp add: worker_turn_def Let_def)
  qed (simp add: worker_turn_def)
  then show ?case using IH by (simp add: run_fleet_def)
qed (simp add: run_fleet_def)


section \<open>Properties\<close>


definition sample_registry :: "ChainConfig list" where
  "sample_registry = map (\<lambda>(c, m, url). \<lparr>icChainID = c, icModelType = m, icNodeEndpoint = url, icNodeAuthRef = None, icFinalityDepth = 12,
      icAddressNormalization = ''evm-lowercase'', icStartHeight = 1, icEnabled = True\<rparr>)
     [(''eth'', ''account'', ''http://eth''), (''base'', ''account'', ''http://base''), (''btc'', ''utxo'', ''http://btc''), (''down'', ''account'', ''http://down'')]"

definition sample_dial :: "string \<Rightarrow> error + eth_client" where
  "sample_dial url = (if url = ''http://down'' then Inl (ErrMsg ''connection refused'') else Inr \<lparr>ecChainID = Inr 1, ecNode = (\<lambda>_. sample_node)\<rparr>)"

definition sample_ix_env :: "IxConfig config_env" where
  "sample_ix_env = \<lparr>readFile = (\<lambda>_. Inr ''...''), getenv = (\<lambda>_. []),
     unmarshal = (\<lambda>_. Inr \<lparr>ixKafka = \<lparr>ikBrokers = [''localhost:9092''], ikTopic = ''balance-deltas'', ikSASL = None\<rparr>, ixPostgresDSN = ''postgres://'',
       ixMetricsListenAddr = '':9100''\<rparr>)\<rparr>"

definition sample_fleet :: fleet where
  "sample_fleet = \<lparr>flShared = sample_indexer\<lparr>inSchedule := [Failed, Lost]\<rparr>, flWorkers = List.map_filter (start_worker sample_dial) (rev sample_registry)\<rparr>"

lemma sample_main: "indexer_main sample_ix_env (\<lambda>_. None) rev sample_dial sample_registry (sample_indexer\<lparr>inSchedule := [Done, Failed, Lost]\<rparr>) = Inr sample_fleet"
proof -
  have "filter icEnabled sample_registry = sample_registry" by (simp add: sample_registry_def)
  then show ?thesis
    by (simp add: indexer_main_def sample_ix_env_def Ix_Load_def ListEnabledChainConfigs_def ix_stmt_def Let_def sample_fleet_def)
qed


text \<open>
  A chain whose node is down when the indexer starts is never indexed. The error is logged and the chain skipped for the life of the process; its
  cursor and blocks stay as they are however long the other workers run, although errors of a node are meant to be retried.
\<close>

theorem unreachable_chain_never_indexed:
  assumes "indexer_main env newPool heap dial tbl s = Inr f" and "\<And>l. mset (heap l) = mset l" and "distinct (map icChainID tbl)"
    and "cc \<in> set tbl" and "dial (icNodeEndpoint cc) = Inl e"
  shows "map_of (inCursors (flShared (run_fleet g turns f))) (icChainID cc) = map_of (inCursors s) (icChainID cc) \<and>
    of_chain (icChainID cc) (inBlocks (flShared (run_fleet g turns f))) = of_chain (icChainID cc) (inBlocks s)"
proof -
  note M = main_started [OF assms(1)]
  have set: "set (heap l) = set l" for l using assms(2) by (metis mset_eq_setD)
  have "icChainID cc \<notin> wkChainID ` set (flWorkers f)"
  proof
    assume "icChainID cc \<in> wkChainID ` set (flWorkers f)"
    then obtain w cc' where w: "cc' \<in> set tbl" "start_worker dial cc' = Some w" "wkChainID w = icChainID cc"
      using M set by (force simp: List.map_filter_def)
    then have "icChainID cc' = icChainID cc" by (auto simp: started_worker)
    then have "cc' = cc" using w(1) assms(3,4) by (auto simp: distinct_map dest: inj_onD)
    then show False using w(2) assms(5) by (auto simp: started_worker ethereum_New_def)
  qed
  from run_fleet_other [OF this, of g turns] show ?thesis using M by simp
qed

end
