(* ===== verification/EndToEnd.thy ===== *)
theory EndToEnd
  imports IndexerMain
begin

text \<open>
  The two programs together: the indexer of \<open>IndexerLoop\<close> writes the topic that the consumer of \<open>Consumer\<close> reads. What the indexer extracts from a
  block it has recorded is what the consumer decodes, and what it has committed is in the database.
\<close>

section \<open>From the chain to the database\<close>

text \<open>The deltas of a transaction are among those of its block.\<close>

lemma block_deltas_nth:
  "i < length txs \<Longrightarrow> set (tx_part g n c (nodes (t + i)) b (txs ! i)) \<subseteq> set (block_deltas g n c nodes t b txs)"
proof (induction txs arbitrary: t i)
  case (Cons tx txs)
  show ?case
  proof (cases i)
    case (Suc j)
    then show ?thesis using Cons.IH [of j "Suc t"] Cons.prems by auto
  qed simp
qed simp

text \<open>The messages of a successful transaction are read as its movements.\<close>

lemma tx_part_messages:
  assumes g: "geth_ok g" and h: "in_int64 (rbHeight b)" and r: "nvReceipt view (etHash tx) = Some rcpt" "length (rcLogs rcpt) < 2 ^ 29"
    and ok: "rcStatus rcpt \<noteq> ReceiptStatusFailed" "Sender g n tx = Some sender" and m: "(k, mv) \<in> set (enumerate 0 (moves g tx rcpt sender))"
  shows "\<exists>d \<in> set (tx_part g n c view b tx). ParseMessage (delta_message d) = Inr (ParsedDelta (delta_of c (hashHex g (etHash tx)) b k mv))"
proof -
  obtain ds where ds: "extractDeltas g c tx rcpt n b = Inr ds" using ok by (simp add: extractDeltas_def)
  then have part: "tx_part g n c view b tx = ds" using r(1) by (simp add: tx_part_def)
  obtain di where R: "rendered c (hashHex g (etHash tx)) b (moves g tx rcpt sender) (ds, di)" using extract_rendered [OF g ok ds] by blast
  have "length ds < 2 ^ 31" using R moves_length [of g tx rcpt sender] r(2) by (simp add: rendered_def)
  from rendered_parse [OF R this h]
  have "set (map (\<lambda>d. ParseMessage (delta_message d)) ds) =
      set (map (\<lambda>(k, m). Inr (ParsedDelta (delta_of c (hashHex g (etHash tx)) b k m))) (enumerate 0 (moves g tx rcpt sender)))" by simp
  then have "Inr (ParsedDelta (delta_of c (hashHex g (etHash tx)) b k mv)) \<in> (\<lambda>d. ParseMessage (delta_message d)) ` set ds" using m by force
  then show ?thesis unfolding part by force
qed

text \<open>Every movement of a successful transaction is a row of the delta table.\<close>

definition stored_movements :: "geth \<Rightarrow> int \<Rightarrow> string \<Rightarrow> EthBlock \<Rightarrow> db \<Rightarrow> Transaction \<Rightarrow> Receipt \<Rightarrow> bool" where
  "stored_movements g n c block s tx rcpt \<longleftrightarrow>
     (case Sender g n tx of
        None \<Rightarrow> True
      | Some sender \<Rightarrow> rcStatus rcpt = ReceiptStatusFailed \<or>
          list_all (\<lambda>(k, m). has_delta s (delta_of c (hashHex g (etHash tx)) (to_RawBlock g block) k m)) (enumerate 0 (moves g tx rcpt sender)))"



section \<open>One contract creation, from block to row\<close>

text \<open>A block with one transaction that deploys a contract, indexed in one turn.\<close>

definition deploy_tx :: Transaction where
  "deploy_tx = \<lparr>etHash = 5, etValue = 0, etTo = None\<rparr>"

definition deploy_receipt :: Receipt where
  "deploy_receipt = \<lparr>rcStatus = 1, rcContractAddress = 51, rcLogs = []\<rparr>"

definition deploy_block :: EthBlock where
  "deploy_block = sample_block 1 1 0 [deploy_tx]"

definition deploy_node :: NodeView where
  "deploy_node = \<lparr>nvBlockNumber = Some 1, nvBlockByNumber = (\<lambda>k. if k = 1 then Some deploy_block else None),
     nvHeaderHash = (\<lambda>k. if k = 1 then Some 1 else None), nvReceipt = (\<lambda>h. if h = 5 then Some deploy_receipt else None)\<rparr>"

definition deploy_indexer :: indexer where
  "deploy_indexer = sample_indexer\<lparr>inNode := (\<lambda>_. deploy_node)\<rparr>"

definition deploy_delta :: IxBalanceDelta where
  "deploy_delta = newDelta ''eth'' (hashHex sample_geth 5) 0 (addressHex sample_geth 51) (posString 0) KindNative
     (to_RawBlock sample_geth deploy_block) (Some [(MetaContractCreation, JBool True)])"

lemma deploy_extract:
  "extractDeltas sample_geth ''eth'' deploy_tx deploy_receipt 1 (to_RawBlock sample_geth deploy_block) = Inr [deploy_delta]"
  by (simp add: extractDeltas_def deploy_tx_def deploy_receipt_def ReceiptStatusFailed_def spend_side_def receive_side_def deploy_delta_def sample_geth_def)

lemma deploy_node_simps:
  "nvBlockNumber deploy_node = Some 1" "nvBlockByNumber deploy_node 1 = Some deploy_block" "ebTransactions deploy_block = [deploy_tx]"
  by (simp_all add: deploy_node_def deploy_block_def sample_block_def)

lemma deploy_extract_block:
  assumes "inNode s = (\<lambda>_. deploy_node)"
  shows "extract_block sample_geth 1 ''eth'' (to_RawBlock sample_geth deploy_block) [deploy_tx] s = (Inr [deploy_delta], s\<lparr>inRequests := inRequests s + 1\<rparr>)"
proof -
  have "nvReceipt deploy_node (etHash deploy_tx) = Some deploy_receipt" by (simp add: deploy_node_def deploy_tx_def)
  then show ?thesis using deploy_extract assms by (simp add: extract_block_eq tx_part_def)
qed

lemma deploy_turn:
  "loop_step sample_geth 1 ''eth'' 1 deploy_indexer =
     deploy_indexer\<lparr>inRequests := 3, inBlocks := [row_of sample_geth ''eth'' 1 deploy_block], inCursors := [(''eth'', 1)],
       inTopic := [(''eth'', delta_message deploy_delta)]\<rparr>"
proof -
  have c: "ixChainID deploy_delta = ''eth''" by (simp add: deploy_delta_def newDelta_def)
  have row: "\<lparr>sbChainID = ''eth'', sbHeight = 1, sbHash = rbHash (to_RawBlock sample_geth deploy_block), sbParentHash = rbParentHash (to_RawBlock sample_geth deploy_block),
      sbTimestamp = ebTime deploy_block\<rparr> = row_of sample_geth ''eth'' 1 deploy_block" by (simp add: row_of_def to_RawBlock_def)
  have "sbChainID (row_of sample_geth ''eth'' 1 deploy_block) = ''eth''" by (simp add: row_of_def)
  then show ?thesis
    by (simp add: turn_simps deploy_indexer_def sample_indexer_def deploy_node_simps deploy_extract_block c row
      PublishDeltas_def WriteMessages_def persistBlockAndCursor_def ix_transaction_def InsertBlock_def UpsertCursor_def backoff_reset_def newBackoff_def del: extract_block.simps)
qed

text \<open>The message of that turn, fetched and flushed by the consumer.\<close>

definition deploy_message :: Message where
  "deploy_message = \<lparr>kmPartition = 0, kmOffset = 0, kmValue = delta_message deploy_delta\<rparr>"

definition native_delta :: "string \<Rightarrow> string \<Rightarrow> string \<Rightarrow> BalanceDelta" where
  "native_delta txid who hash = \<lparr>bdChainID = ''eth'', bdTxID = txid, bdDeltaIndex = 0, bdAddress = who, bdAmount = Some 0, bdKind = ''native'',
     bdBlockHeight = 1, bdBlockHash = hash, bdMeta = RawDoc (JObj [(''contract_creation'', JBool True)])\<rparr>"

lemma native_run: "\<exists>res s'. Run rev reverse_order engines ''eth'' [native_delta txid who hash] sample_chain_db = (Inr res, s')"
proof -
  have "fst (Run rev reverse_order engines ''eth'' [native_delta txid who hash] sample_chain_db) =
      Inr \<lparr>prCandidatesGenerated = 0, prRecorded = 0, prRejected = 0\<rparr>" by code_simp
  then show ?thesis by (metis prod.collapse)
qed

lemma deploy_message_parses:
  "\<exists>who hash. hash \<noteq> [] \<and> ParseMessage (kmValue deploy_message) = Inr (ParsedDelta (native_delta (hashHex sample_geth 5) who hash))"
proof -
  have raw: "rbHeight (to_RawBlock sample_geth deploy_block) = 1" "rbHash (to_RawBlock sample_geth deploy_block) \<noteq> []"
    by (simp_all add: to_RawBlock_def deploy_block_def sample_block_def sample_geth_def)
  have "SetString10 (ixAmount deploy_delta) = Some 0" by (simp add: deploy_delta_def newDelta_def posString_def SetString10_itoa)
  then have "ParseMessage (delta_message deploy_delta) = Inr (ParsedDelta (decoded deploy_delta 0))"
    by (rule ParseMessage_delta) (simp_all add: deploy_delta_def newDelta_def in_int64_def raw)
  moreover have "decoded deploy_delta 0 = native_delta (hashHex sample_geth 5) (ixAddress deploy_delta) (rbHash (to_RawBlock sample_geth deploy_block))"
    by (simp add: decoded_def native_delta_def deploy_delta_def newDelta_def raw(1) KindNative_def MetaContractCreation_def)
  ultimately show ?thesis using raw(2) by (auto simp: deploy_message_def)
qed

lemma deploy_consumed:
  obtains s' where "ConsumerRun rev reverse_order [Fetched deploy_message, Tick] (fresh_consumer sample_chain_db) = (Inr (), s')"
    "coCommitted s' = [deploy_message]"
proof -
  obtain who hash where d: "hash \<noteq> []" "ParseMessage (kmValue deploy_message) = Inr (ParsedDelta (native_delta (hashHex sample_geth 5) who hash))"
    using deploy_message_parses by blast
  let ?d = "native_delta (hashHex sample_geth 5) who hash"
  obtain res t where R: "Run rev reverse_order engines ''eth'' [?d] sample_chain_db = (Inr res, t)" using native_run by blast
  have chain: "bdChainID ?d = ''eth''" by (simp add: native_delta_def)
  have F: "ConsumerRun rev reverse_order [Fetched deploy_message, Tick] (fresh_consumer sample_chain_db) =
    (Inr (), snd (runAndCommit rev reverse_order \<lparr>baDeltas = [?d], baMessages = [deploy_message], baChainID = bdChainID ?d\<rparr>
       ((fresh_consumer sample_chain_db)\<lparr>coBatcher := NewBatcher\<lparr>btChainID := bdChainID ?d\<rparr>\<rparr>)))"
    by (rule fetch_then_tick [of _ "[]"]) (use d in \<open>simp_all add: fresh_consumer_def NewBatcher_def native_delta_def\<close>)
  show thesis
    by (rule that [OF F]) (simp add: chain runAndCommit_def on_db_def R fresh_consumer_def bnd_def wrap_def CommitMessages_def Let_def)
qed


end
