(* ===== verification/Spec2Isabelle.thy ===== *)
theory Spec2Isabelle
  imports ReplayCorrect EndToEnd
begin

text \<open>
  A verification development for the blockchain clustering system: two Go programs that turn the blocks of a chain
  into clusters of addresses that are likely under common control.

  \<^bold>\<open>The program.\<close> The \<^emph>\<open>indexer\<close> (\<open>src/blockchain-indexer\<close>) follows a chain through an Ethereum node. For every block it
  extracts balance deltas (\<open>internal/adapter/ethereum\<close>), publishes them on a Kafka topic (\<open>internal/kafka\<close>), records block and
  cursor, and announces reorganisations (\<open>internal/reorg\<close>, \<open>cmd/indexer\<close>). The \<^emph>\<open>clustering service\<close>
  (\<open>src/blockchain_cluster\<close>) reads the topic (\<open>internal/consumer\<close>), and runs each block through a pipeline
  (\<open>internal/pipeline\<close>): store the deltas and register their addresses (\<open>ingestor\<close>, \<open>address\<close>), mark hubs, collaborative
  transactions and dust (\<open>preprocessor\<close>), let six heuristics propose that two addresses belong together (\<open>heuristic\<close>), record the accepted
  proposals in an append-only log of evidence (\<open>merge\<close>, \<open>evidence\<close>), and rebuild the materialised clusters from the active
  part of the log (\<open>cluster\<close>, \<open>unionfind\<close>). A reorg or an operator invalidates evidence and rebuilds
  (\<open>reorg\<close>, \<open>audit\<close>). Registry, labels and sweep targets configure the heuristics (\<open>registry\<close>, \<open>label\<close>, \<open>sweeptarget\<close>), and a server
  answers queries, exports metrics and maintains labels (\<open>queryservice\<close>, \<open>metrics\<close>, \<open>cmd/server\<close>). Both programs are set up from a file (\<open>config\<close>).

  \<^bold>\<open>How the code is modelled.\<close> Every Go function is one definition under its own name, methods without their receiver (or, where
  two packages use a name, with a prefix: \<open>Batcher_Add\<close>, \<open>Change_Generate\<close>). Loop bodies and SQL statements have definitions of their own. A
  function that can fail is a state transformer that returns an error or a value together with the state it leaves behind (type \<open>io\<close> of \<open>Prelude\<close>), so
  that effects before an early return are kept. The database is a record of tables (\<open>Database\<close>); a schedule decides for every statement whether it succeeds,
  fails, or takes effect and loses its reply, and transactions and batches roll back as PostgreSQL does. What \<open>pgx\<close> and PostgreSQL
  choose freely (row order without \<open>ORDER BY\<close>, rounding of \<open>NUMERIC(4,3)\<close>) is the parameter \<open>driver\<close>, the laws of which are \<open>driver_ok\<close>. The iteration
  order of a Go map is an argument (\<open>range_order\<close>, \<open>height_order\<close>), of which only that it is a permutation is assumed. \<open>float64\<close> is a rational
  rounded to 53 bits after each operation (\<open>Float64\<close>); there are no NaN and no infinities, which the modelled arithmetic does not produce. The
  node, the topic and the functions of \<open>go-ethereum\<close> are parameters of the indexer's theories, \<open>geth_ok\<close> being what is documented of the latter.

  \<^bold>\<open>Theories\<close>, each with the part of the sources it models:

  \<^item> \<open>Prelude\<close>, \<open>Float64\<close>, \<open>Sha256\<close>: errors and sequencing, invariants of programs (\<open>keeps\<close>, the rules \<open>keep_rules\<close>), decimal numerals,
    binary floating point, and SHA-256 on 32-bit words, with which cluster ids are made.
  \<^item> \<open>Domain\<close>, \<open>PgNumeric\<close>, \<open>Database\<close>: \<open>internal/domain\<close> and what the code uses of \<open>encoding/json\<close>; \<open>internal/pgnumeric\<close>; tables, statements and transactions.
  \<^item> \<open>UnionFind\<close>, \<open>Replay\<close>, \<open>ReplayCorrect\<close>: \<open>internal/unionfind\<close> and \<open>internal/cluster/replay.go\<close>. The locale \<open>union_find\<close> is what replay relies on. Replay
    returns for every iteration order, its clusters are the connected components of the active evidence, ids are a function of the founder, confidences stay in
    the unit interval, and redelivered evidence changes nothing.
  \<^item> \<open>Evidence\<close>, \<open>ClusterStore\<close>: \<open>internal/evidence\<close>, \<open>internal/cluster/store.go\<close>. The log is well-formed and only grows; the
    rebuild is atomic under every failure, makes the cache agree with the log and succeeds without faults; threshold queries answer connectivity of the strong evidence.
  \<^item> \<open>AddressStore\<close>, \<open>Ingestor\<close>, \<open>Registry\<close>, \<open>LabelStore\<close>: the packages of these names with \<open>audit\<close> and \<open>sweeptarget\<close> in \<open>Registry\<close>. Loading is complete and
    idempotent, grouping by transaction equals its specification, and label maintenance has exactly its documented effect.
  \<^item> \<open>Preprocessor\<close>, \<open>Reads\<close>, \<open>Heuristics\<close>, \<open>Pipeline\<close>: \<open>internal/preprocessor\<close>, \<open>heuristic\<close>, \<open>merge\<close>, \<open>pipeline\<close>. \<open>Reads\<close> is a calculus for code that only
    reads; with it each engine equals a specification over the tables, and is an instance of the locale \<open>heuristic_engine\<close> or \<open>hub_averse_engine\<close>. Candidates are grounded in the batch,
    hubs and excluded transactions are never merged, whatever fails, and the merge engine logs exactly the mergeable candidates. The locale
    \<open>system_invariant\<close> collects what every writer keeps; it is interpreted for the log, its history, the registry and the stored deltas.
  \<^item> \<open>ReorgHandler\<close>, \<open>Consumer\<close>: \<open>internal/reorg\<close>, \<open>internal/consumer\<close>. A rollback invalidates exactly the evidence of the blocks; batches partition the stream; offsets
    are committed only after their deltas are stored. The loop of the consumer is driven by a list of events, one per turn of its \<open>select\<close>.
  \<^item> \<open>QueryService\<close>, \<open>Metrics\<close>, \<open>System\<close>: \<open>internal/queryservice\<close>, \<open>internal/metrics\<close> and the maintenance loop of \<open>cmd/server\<close>; the service as a step relation over its operations, with the
    invariants of all reachable states and the append-only history of the log. A scrape shows the figures of the tables, also when some of its queries fail, and the gauge
    of the largest cluster is the size of the largest component.
  \<^item> \<open>Config\<close>, \<open>Startup\<close>: the two \<open>internal/config\<close> packages, and \<open>main\<close> of \<open>cmd/server\<close> and \<open>cmd/consumer\<close> with their exit statuses. The locale \<open>placeholder_syntax\<close> is interpreted
    for the names that each program allows in a placeholder.
  \<^item> \<open>EthereumAdapter\<close>, \<open>IndexerLoop\<close>, \<open>IndexerCorrect\<close>: the indexer. What is extracted is what the chain did, conserves every asset and is what the consumer reads;
    the worker refines a transition relation (\<open>turns_to\<close>) under which recorded blocks stay linked and published, it catches up without faults, and the
    search for the common ancestor is exact and ends.
  \<^item> \<open>IndexerMain\<close>: \<open>main\<close> of \<open>cmd/indexer\<close> and the chain registry. One worker per chain, their turns in any order on the shared database and topic; what \<open>IndexerCorrect\<close> shows
    of one worker holds for each of them.
  \<^item> \<open>EndToEnd\<close>: the indexer and the consumer together. The movements of every recorded block are in the database once the topic is committed.

  \<^bold>\<open>Termination.\<close> All loops are structural recursions over the data they range over, except \<open>Find\<close> (a partial function, shown to return on every structure that can be
  built), the breadth-first search of \<open>Replay\<close> (shown to return), and the search of \<open>FindRollback\<close> (a measure on the stored blocks). The event loops take the
  list of events, or the number of turns, they live through, and the workers of several chains the order of their turns; there is no other fuel.

  \<^bold>\<open>Findings.\<close> Some theorems exhibit runs in which the code does not do what it means to: a failed periodic flush and an undecodable message let offsets overtake
  deltas (\<open>Consumer\<close>); a retried reorg leaves a stale cache (\<open>ReorgHandler\<close>); an interrupted rollback and a failed receipt request lose deltas (\<open>IndexerCorrect\<close>);
  an oversized token transfer blocks the consumer, and contracts deployed without value are never joined to their deployer (\<open>EthereumAdapter\<close>);
  an interval of zero passes validation and ends the process in a panic (\<open>Startup\<close>), connection strings are ambiguous (\<open>Config\<close>), and a chain whose node is down at the start is not
  indexed (\<open>IndexerMain\<close>).

  \<^bold>\<open>Not modelled.\<close> The YAML decoder, the Prometheus client and the HTTP listener, which are libraries; the counters of the indexer, which are only written, and logging; URL
  decoding and the literal syntax of \<open>strconv.ParseFloat\<close>; timeouts of contexts, which are covered as failures of statements; generated partition functions and
  indexes of the schema; the Bitcoin adapter, which only returns an error and is not called; the fixture of the integration tests.
  Operations of different processes interleave as whole operations; two consumers of one partition, which Kafka rules out, are not considered.
\<close>

end
